(* ===== verification/Flux_Prelude.thy ===== *)
theory Flux_Prelude
  imports Main "HOL-Library.Word"
begin

text \<open>
  Shared vocabulary of the development: the error values of the C functions, the result
  type of a fallible operation, bytes and 32-bit integers, and the generic lemmas on them
  that the component theories use.

  A C function that returns \<open>-1\<close> (or \<open>NULL\<close>) with \<open>errno\<close> set is a function into
  \<open>error + 'a\<close>: \<open>Inl e\<close> is the failure with its \<open>errno\<close>, \<open>Inr x\<close> the success with
  what the C function returns or stores through its output arguments. Four constructors
  are not \<open>errno\<close> values: \<open>AssertFailed\<close> is a failed \<open>assert()\<close>; \<open>OutOfBounds\<close> is an access
  outside of an object, \<open>UndefinedShift\<close> a shift by the width of the operand and
  \<open>SignedOverflow\<close> a sum outside of the range of \<open>int\<close>, whose behaviour C leaves undefined.
\<close>

datatype error =
    EINVAL | ENOMEM | EPROTO | ENOENT | EEXIST | ENOSYS | EAGAIN | EOVERFLOW
  | EHOSTUNREACH | EPERM
  | AssertFailed
  | OutOfBounds
  | UndefinedShift
  | SignedOverflow

type_synonym 'a result = "error + 'a"

type_synonym byte = "8 word"

type_synonym uint32 = "32 word"
type_synonym uint64 = "64 word"

named_theorems flux_defs \<open>definitions that component proofs unfold\<close>

text \<open>Sequencing of fallible operations: an error stops the computation.\<close>

definition bind_result :: "'a result \<Rightarrow> ('a \<Rightarrow> 'b result) \<Rightarrow> 'b result" where
  "bind_result r f = (case r of Inl e \<Rightarrow> Inl e | Inr x \<Rightarrow> f x)"

lemma bind_result_simps [simp]:
  "bind_result (Inl e) f = Inl e"
  "bind_result (Inr x) f = f x"
  by (simp_all add: bind_result_def)

lemma bind_result_eq_Inr_iff:
  "bind_result r f = Inr y \<longleftrightarrow> (\<exists>x. r = Inr x \<and> f x = Inr y)"
  by (cases r) simp_all

lemma bind_result_eq_Inl_iff:
  "bind_result r f = Inl e \<longleftrightarrow> r = Inl e \<or> (\<exists>x. r = Inr x \<and> f x = Inl e)"
  by (cases r) simp_all

text \<open>Addition of two C \<open>int\<close>s. \<open>cint n\<close> is the value of an expression that only adds non-negative
  integers and whose mathematical value is \<open>n\<close>.\<close>

definition int_add :: "int \<Rightarrow> int \<Rightarrow> int result" where
  "int_add a b = (if - (2 ^ 31) \<le> a + b \<and> a + b < 2 ^ 31 then Inr (a + b) else Inl SignedOverflow)"

definition cint :: "int \<Rightarrow> int result" where
  "cint n = (if n < 2 ^ 31 then Inr n else Inl SignedOverflow)"

lemma cint_add: "0 \<le> a \<Longrightarrow> 0 \<le> b \<Longrightarrow> bind_result (cint a) (\<lambda>x. bind_result (cint b) (int_add x)) = cint (a + b)"
  by (simp add: cint_def int_add_def)

text \<open>32-bit words and natural numbers.\<close>

lemma unat_uint32_less: "unat (w :: uint32) < 2 ^ 32"
  using unsigned_less [of w] by simp

lemma unat_of_nat_uint32: "n < 2 ^ 32 \<Longrightarrow> unat (of_nat n :: uint32) = n"
  by (simp add: unsigned_of_nat take_bit_nat_eq_self)

subsection \<open>Strings\<close>

text \<open>A C string is the list of its bytes before the terminating zero byte.\<close>

type_synonym cstring = "byte list"

text \<open>The bytes of a string literal.\<close>

definition cstr :: "string \<Rightarrow> cstring" where
  "cstr s = map of_char s"

text \<open>Decimal notation of an unsigned integer, as \<open>printf\<close> writes it with \<open>%u\<close>.\<close>

fun dec :: "nat \<Rightarrow> cstring" where
  "dec n = (if n < 10 then [of_nat (48 + n)] else dec (n div 10) @ [of_nat (48 + n mod 10)])"

declare dec.simps [simp del]

definition undec :: "cstring \<Rightarrow> nat" where
  "undec bs = foldl (\<lambda>a b. 10 * a + (unat b - 48)) 0 bs"

lemma unat_digit [simp]: "d < 10 \<Longrightarrow> unat (of_nat (48 + d) :: byte) = 48 + d"
  by (simp only: unat_of_nat) simp

lemma undec_dec: "undec (dec n) = n"
proof (induction n rule: dec.induct)
  case (1 n)
  show ?case
  proof (cases "n < 10")
    case True
    then show ?thesis
      using unat_digit [of n] by (simp only: dec.simps [of n] if_True undec_def foldl.simps)
  next
    case False
    have "undec (dec n) = 10 * undec (dec (n div 10)) + (unat (of_nat (48 + n mod 10) :: byte) - 48)"
      using False by (subst dec.simps) (simp only: undec_def foldl_append foldl.simps if_False)
    also have "\<dots> = 10 * (n div 10) + n mod 10"
      using 1 False unat_digit [of "n mod 10"] by simp
    finally show ?thesis by simp
  qed
qed

lemma dec_inject [simp]: "dec m = dec n \<longleftrightarrow> m = n"
  by (metis undec_dec)

lemma dec_neq_Nil [simp]: "dec n \<noteq> []"
  by (subst dec.simps) simp

lemma dec_digits: "b \<in> set (dec n) \<Longrightarrow> 48 \<le> unat b \<and> unat b \<le> 57"
proof (induction n rule: dec.induct)
  case (1 n)
  show ?case
  proof (cases "n < 10")
    case True
    then have "dec n = [of_nat (48 + n)]" by (simp add: dec.simps)
    then have "unat b = 48 + n" using 1(2) True unat_digit [of n] by (simp del: of_nat_add)
    then show ?thesis using True by simp
  next
    case False
    then have "b \<in> set (dec (n div 10)) \<or> b = of_nat (48 + n mod 10)"
      using 1(2) by (subst (asm) dec.simps) (auto simp del: of_nat_add)
    then show ?thesis using 1(1) False unat_digit [of "n mod 10"] by (auto simp del: of_nat_add)
  qed
qed

subsection \<open>Loops\<close>

text \<open>A loop in the option monad.\<close>

primrec fold_option :: "('a \<Rightarrow> 's \<Rightarrow> 's option) \<Rightarrow> 'a list \<Rightarrow> 's \<Rightarrow> 's option" where
  "fold_option f [] s = Some s"
| "fold_option f (x # xs) s = Option.bind (f x s) (fold_option f xs)"

lemma fold_option_append:
  "fold_option f (xs @ ys) s = Option.bind (fold_option f xs s) (fold_option f ys)"
  by (induction xs arbitrary: s) (auto split: bind_splits)

lemma fold_option_mono [partial_function_mono]:
  assumes "\<And>x s. mono_option (\<lambda>g. f g x s)"
  shows "mono_option (\<lambda>g. fold_option (f g) xs s)"
proof (induction xs arbitrary: s)
  case Nil
  then show ?case by (simp add: option.const_mono)
next
  case (Cons x xs)
  then show ?case using assms by (simp add: bind_mono)
qed

subsection \<open>Hash tables\<close>

text \<open>A \<open>zhash_t\<close> with string keys is the association list of its entries; the order of the list is
  the order in which \<open>zhash_first\<close> and \<open>zhash_next\<close> visit them. \<open>zhash_insert\<close> refuses a key that
  is there, \<open>zhash_update\<close> replaces its item.\<close>

type_synonym 'v zhash = "(cstring \<times> 'v) list"

definition zhash_insert :: "'v zhash \<Rightarrow> cstring \<Rightarrow> 'v \<Rightarrow> 'v zhash option" where
  "zhash_insert h k v = (if map_of h k = None then Some (h @ [(k, v)]) else None)"

fun zhash_update :: "'v zhash \<Rightarrow> cstring \<Rightarrow> 'v \<Rightarrow> 'v zhash" where
  "zhash_update [] k v = [(k, v)]"
| "zhash_update ((k', v') # h) k v = (if k' = k then (k, v) # h else (k', v') # zhash_update h k v)"

definition zhash_delete :: "'v zhash \<Rightarrow> cstring \<Rightarrow> 'v zhash" where
  "zhash_delete h k = filter (\<lambda>(k', v). k' \<noteq> k) h"

definition zhash_ok :: "'v zhash \<Rightarrow> bool" where
  "zhash_ok h \<longleftrightarrow> distinct (map fst h)"

lemma zhash_insert_lookup:
  "zhash_insert h k v = Some h' \<Longrightarrow> map_of h' = (map_of h)(k \<mapsto> v)"
  by (auto simp: zhash_insert_def fun_eq_iff map_add_def split: if_splits option.splits)

lemma zhash_update_lookup: "map_of (zhash_update h k v) = (map_of h)(k \<mapsto> v)"
  by (induction h k v rule: zhash_update.induct) auto

lemma zhash_delete_lookup: "map_of (zhash_delete h k) = (map_of h)(k := None)"
  by (induction h) (auto simp: zhash_delete_def)

lemma zhash_ok_ops [intro]:
  "zhash_ok []"
  "zhash_ok h \<Longrightarrow> zhash_insert h k v = Some h' \<Longrightarrow> zhash_ok h'"
  "zhash_ok h \<Longrightarrow> zhash_ok (zhash_delete h k)"
  by (auto simp: zhash_ok_def zhash_insert_def zhash_delete_def map_of_eq_None_iff distinct_map_filter split: if_splits)

lemma fst_zhash_update: "fst ` set (zhash_update h k v) = insert k (fst ` set h)"
  by (induction h k v rule: zhash_update.induct) auto

lemma zhash_ok_update [intro]: "zhash_ok h \<Longrightarrow> zhash_ok (zhash_update h k v)"
  by (induction h k v rule: zhash_update.induct) (auto simp: zhash_ok_def fst_zhash_update)

end
