(* ===== verification/Kary.thy ===== *)
theory Kary
  imports Flux_Prelude
begin

text \<open>
  The k-ary tree arithmetic of \<^verbatim>\<open>src/common/libutil/kary.c\<close>, on which the broker's tree
  based overlay network is built. Ranks and the instance size are \<open>uint32_t\<close> and kept as
  32-bit words, so that every expression wraps as it does in C; the arity \<open>k\<close> and the child
  index \<open>j\<close> are C \<open>int\<close>s, as are the level and the sum that two of the functions count in, where an
  overflow is the error \<open>SignedOverflow\<close>. The loops that climb to the root are recursive functions with a
  termination proof that holds for every input, wrap-around included. The recursion of
  \<open>kary_sum_descendants\<close> goes to children and does not end when the child index wraps
  around, so it carries fuel.

  The reference is the tree on natural numbers: the parent of \<open>d > 0\<close> is \<open>(d - 1) div k\<close>,
  and \<open>descends k d a\<close> is the ancestor relation. \<open>kary_fits k size\<close> says that child
  indices do not wrap.
\<close>

unbundle bit_operations_syntax

subsection \<open>The C functions\<close>

definition KARY_NONE :: uint32 where
  "KARY_NONE = NOT 0"

definition kary_parentof :: "int \<Rightarrow> uint32 \<Rightarrow> uint32" where
  "kary_parentof k i =
     (if i = 0 \<or> k \<le> 0 then KARY_NONE
      else if k = 1 then i - 1
      else (word_of_int k + (i + 1) - 2) div word_of_int k - 1)"

definition kary_childof :: "int \<Rightarrow> uint32 \<Rightarrow> uint32 \<Rightarrow> int \<Rightarrow> uint32" where
  "kary_childof k sz i j =
     (if k > 0 \<and> j \<ge> 0 \<and> j < k then
        let n = word_of_int k * (i + 1) - word_of_int (k - 2) + word_of_int j - 1 in
        if n < sz then n else KARY_NONE
      else KARY_NONE)"

text \<open>Climbing to the parent ends: the parent is \<open>KARY_NONE\<close> or a smaller rank.\<close>

lemma word_div_less_of_wrap:
  fixes b i :: uint32
  assumes "i \<noteq> 0"
  shows "(b + (i + 1) - 2) div b - 1 = NOT 0 \<or> (b + (i + 1) - 2) div b - 1 < i"
proof -
  have pos: "0 < unat i" using assms by (simp add: unat_gt_0)
  have b32: "unat b < 2 ^ 32" and i32: "unat i < 2 ^ 32"
    using unsigned_less [of b] unsigned_less [of i] by simp_all
  have "(of_nat (unat b + (unat i - 1)) :: uint32) = of_nat (unat b) + (of_nat (unat i) - 1)"
    using pos by (simp add: of_nat_diff)
  then have sum: "b + (i + 1) - 2 = (of_nat (unat b + (unat i - 1)) :: uint32)" by simp
  show ?thesis
  proof (cases "unat b + (unat i - 1) < 2 ^ 32 \<and> b \<noteq> 0")
    case True
    then have bpos: "0 < unat b" by (simp add: unat_gt_0)
    have "unat ((b + (i + 1) - 2) div b) = (unat b + (unat i - 1)) div unat b"
      unfolding sum unat_div using True by (simp add: unsigned_of_nat take_bit_nat_eq_self del: of_nat_add)
    also have "\<dots> = Suc ((unat i - 1) div unat b)"
      using bpos by (simp add: div_add_self1)
    finally have q: "unat ((b + (i + 1) - 2) div b) = Suc ((unat i - 1) div unat b)" .
    then have "(b + (i + 1) - 2) div b \<noteq> 0" by (metis nat.distinct(1) unat_0)
    with q have "unat ((b + (i + 1) - 2) div b - 1) = (unat i - 1) div unat b"
      by (simp add: unat_minus_one)
    also have "\<dots> < unat i"
      using pos by (metis div_le_dividend diff_less le_less_trans zero_less_one)
    finally show ?thesis by (simp add: word_less_nat_alt)
  next
    case False
    have "(b + (i + 1) - 2) div b = 0"
    proof (cases "b = 0")
      case True then show ?thesis by simp
    next
      case b: False
      with False have ge: "2 ^ 32 \<le> unat b + (unat i - 1)" by simp
      have "unat (b + (i + 1) - 2) = (unat b + (unat i - 1)) mod 2 ^ 32"
        unfolding sum by (simp only: unsigned_of_nat take_bit_nat_def) simp
      also have "\<dots> = (unat b + (unat i - 1) - 2 ^ 32) mod 2 ^ 32"
        using ge by (rule le_mod_geq)
      also have "\<dots> = unat b + (unat i - 1) - 2 ^ 32"
        using b32 i32 by simp
      finally have "unat (b + (i + 1) - 2) = unat b + (unat i - 1) - 2 ^ 32" .
      with ge i32 have "unat (b + (i + 1) - 2) < unat b" by linarith
      then have "unat ((b + (i + 1) - 2) div b) = 0" by (simp add: unat_div)
      then show ?thesis by (simp add: unat_eq_zero)
    qed
    then show ?thesis by simp
  qed
qed

lemma kary_parentof_less: "kary_parentof k i = KARY_NONE \<or> kary_parentof k i < i"
proof (cases "i = 0 \<or> k \<le> 0 \<or> k = 1")
  case True
  have "i - 1 < i" if "i \<noteq> 0" using that by (simp add: word_less_nat_alt unat_minus_one unat_gt_0)
  with True show ?thesis by (auto simp: kary_parentof_def)
next
  case False
  with word_div_less_of_wrap [of i "word_of_int k"] show ?thesis
    by (auto simp: kary_parentof_def KARY_NONE_def)
qed

definition climb_measure :: "uint32 \<Rightarrow> nat" where
  "climb_measure n = (if n = KARY_NONE then 0 else Suc (unat n))"

lemma climb_measure_parentof [termination_simp]:
  "n \<noteq> KARY_NONE \<Longrightarrow> climb_measure (kary_parentof k n) < climb_measure n"
  using kary_parentof_less [of k n] by (auto simp: climb_measure_def word_less_nat_alt)

function kary_levelof :: "int \<Rightarrow> uint32 \<Rightarrow> int result" where
  "kary_levelof k i =
     (let n = kary_parentof k i in
      if n = KARY_NONE then Inr 0 else bind_result (kary_levelof k n) (int_add 1))"
  by pat_completeness auto
termination
proof (relation "measure (\<lambda>(k, i). unat i)")
qed (use kary_parentof_less in \<open>auto simp: word_less_nat_alt\<close>)

text \<open>The sum and the returned value are C \<open>int\<close>s.\<close>

fun kary_sum_descendants :: "nat \<Rightarrow> int \<Rightarrow> uint32 \<Rightarrow> uint32 \<Rightarrow> int result option" where
  "kary_sum_descendants 0 k sz i = None"
| "kary_sum_descendants (Suc fuel) k sz i =
     foldl (\<lambda>sum j. case sum of
              None \<Rightarrow> None
            | Some (Inl e) \<Rightarrow> Some (Inl e)
            | Some (Inr s) \<Rightarrow>
                let n = kary_childof k sz i j in
                if n \<noteq> KARY_NONE then
                  map_option (\<lambda>r. bind_result (bind_result r (int_add 1)) (int_add s)) (kary_sum_descendants fuel k sz n)
                else Some (Inr s))
       (Some (Inr 0)) [0..k - 1]"

function parent_route_loop :: "int \<Rightarrow> uint32 \<Rightarrow> uint32 \<Rightarrow> uint32 \<Rightarrow> uint32" where
  "parent_route_loop k dst gw n =
     (if n \<noteq> KARY_NONE then
        if n = dst then gw else parent_route_loop k dst gw (kary_parentof k n)
      else KARY_NONE)"
  by pat_completeness auto
termination
  by (relation "measure (\<lambda>(k, dst, gw, n). climb_measure n)") (auto simp: climb_measure_parentof)

definition kary_parent_route :: "int \<Rightarrow> uint32 \<Rightarrow> uint32 \<Rightarrow> uint32 \<Rightarrow> uint32" where
  "kary_parent_route k sz src dst =
     (if k > 0 \<and> src \<noteq> dst \<and> dst < sz \<and> src < sz then
        let gw = kary_parentof k src in parent_route_loop k dst gw gw
      else KARY_NONE)"

function child_route_loop :: "int \<Rightarrow> uint32 \<Rightarrow> uint32 \<Rightarrow> uint32 \<Rightarrow> uint32" where
  "child_route_loop k sz src gw =
     (if gw \<noteq> KARY_NONE then
        if list_ex (\<lambda>j. gw = kary_childof k sz src j) [0..k - 1] then gw
        else child_route_loop k sz src (kary_parentof k gw)
      else KARY_NONE)"
  by pat_completeness auto
termination
  by (relation "measure (\<lambda>(k, sz, src, gw). climb_measure gw)") (auto simp: climb_measure_parentof)

definition kary_child_route :: "int \<Rightarrow> uint32 \<Rightarrow> uint32 \<Rightarrow> uint32 \<Rightarrow> uint32" where
  "kary_child_route k sz src dst =
     (if k > 0 \<and> src \<noteq> dst \<and> dst < sz \<and> src < sz then
        let gw = kary_parentof k dst in
        if gw = src then dst else child_route_loop k sz src gw
      else KARY_NONE)"

declare kary_levelof.simps [simp del] parent_route_loop.simps [simp del]
  child_route_loop.simps [simp del]


subsection \<open>The reference tree\<close>

definition kparent :: "nat \<Rightarrow> nat \<Rightarrow> nat" where
  "kparent k i = (i - 1) div k"

inductive descends :: "nat \<Rightarrow> nat \<Rightarrow> nat \<Rightarrow> bool" for k where
  descends_parent: "0 < d \<Longrightarrow> descends k d (kparent k d)"
| descends_up: "0 < d \<Longrightarrow> descends k (kparent k d) a \<Longrightarrow> descends k d a"

inductive_cases descends_zeroE: "descends k 0 a"

definition kary_fits :: "int \<Rightarrow> uint32 \<Rightarrow> bool" where
  "kary_fits k sz \<longleftrightarrow> 0 < k \<and> k * uint sz < 2 ^ 32"

lemma kparent_less [simp]: "0 < i \<Longrightarrow> kparent k i < i"
  unfolding kparent_def by (metis div_le_dividend diff_less le_less_trans zero_less_one)

lemma descends_less: "descends k d a \<Longrightarrow> a < d"
proof (induction rule: descends.induct)
  case (descends_parent d)
  then show ?case by simp
next
  case (descends_up d a)
  then show ?case using kparent_less [of d k] less_trans by blast
qed

lemma descends_iff:
  "descends k d a \<longleftrightarrow> 0 < d \<and> (kparent k d = a \<or> descends k (kparent k d) a)"
  by (subst descends.simps) auto

lemma descends_trans: "descends k d c \<Longrightarrow> descends k c a \<Longrightarrow> descends k d a"
  by (induction rule: descends.induct) (auto intro: descends.intros)

lemma descends_root: "0 < d \<Longrightarrow> descends k d 0"
proof (induction d rule: less_induct)
  case (less d)
  show ?case
  proof (cases "kparent k d = 0")
    case True
    then show ?thesis using less.prems descends_parent [of d k] by simp
  next
    case False
    then have "descends k (kparent k d) 0"
      using less by simp
    with less.prems show ?thesis by (rule descends_up)
  qed
qed

text \<open>The proper descendants of \<open>a\<close> split over its children.\<close>

lemma descends_via_child:
  "descends k d a \<longleftrightarrow> (\<exists>c. 0 < c \<and> kparent k c = a \<and> (d = c \<or> descends k d c))"
proof
  assume "descends k d a"
  then show "\<exists>c. 0 < c \<and> kparent k c = a \<and> (d = c \<or> descends k d c)"
    by (induction rule: descends.induct) (auto intro: descends.intros)
qed (auto intro: descends.intros descends_trans)

text \<open>Two ancestors of one node are comparable, so the child on the path is unique.\<close>

lemma descends_linear:
  "descends k d a \<Longrightarrow> descends k d b \<Longrightarrow> a = b \<or> descends k a b \<or> descends k b a"
proof (induction arbitrary: b rule: descends.induct)
  case (descends_parent d)
  then show ?case using descends_iff [of k d b] by auto
next
  case (descends_up d a)
  then show ?case using descends_iff [of k d b] by auto
qed

lemma kary_fits_bounds:
  assumes "kary_fits k sz" and "i < sz"
  shows "0 < nat k" "nat k * (unat i + 1) < 2 ^ 32" "nat k + unat i \<le> 2 ^ 32" "k < 2 ^ 32"
    "i \<noteq> KARY_NONE"
proof -
  let ?k = "nat k"
  from assms have k: "0 < k" and "k * uint sz < 2 ^ 32" by (auto simp: kary_fits_def)
  then have "int (?k * unat sz) < int (2 ^ 32)" by simp
  then have prod: "?k * unat sz < 2 ^ 32" by (simp only: of_nat_less_iff)
  from assms(2) have i: "unat i + 1 \<le> unat sz" by (simp add: word_less_nat_alt)
  show pos: "0 < ?k" using k by simp
  from i have "?k * (unat i + 1) \<le> ?k * unat sz" by (rule mult_le_mono2)
  with prod show lt: "?k * (unat i + 1) < 2 ^ 32" by simp
  have "unat i \<le> ?k * unat i" using pos by (cases ?k) simp_all
  moreover have "?k + ?k * unat i < 2 ^ 32" using lt by (simp add: distrib_left)
  ultimately show "?k + unat i \<le> 2 ^ 32" by linarith
  have "?k \<le> ?k * (unat i + 1)" by simp
  with lt have "?k < 2 ^ 32" by linarith
  then show "k < 2 ^ 32" by (simp add: nat_less_iff k)
  have "\<not> (- 1 :: uint32) < sz" by (simp add: not_less)
  with assms(2) show "i \<noteq> KARY_NONE" by (auto simp: KARY_NONE_def)
qed


subsection \<open>The C arithmetic refines the reference tree\<close>

lemma unat_parentof:
  assumes "kary_fits k sz" and "i < sz" and "i \<noteq> 0"
  shows "unat (kary_parentof k i) = kparent (nat k) (unat i)"
proof (cases "k = 1")
  case True
  with assms show ?thesis
    by (simp add: kary_parentof_def kparent_def unat_minus_one)
next
  case False
  note b = kary_fits_bounds [OF assms(1,2)]
  let ?a = "nat k + (unat i - 1)"
  have pos: "0 < unat i" using assms(3) by (simp add: unat_gt_0)
  have a: "?a < 2 ^ 32" using b(3) pos by linarith
  have k: "unat (word_of_int k :: uint32) = nat k"
    using b(1,4) by (simp add: unsigned_of_int take_bit_int_eq_self)
  have "(of_nat ?a :: uint32) = of_nat (nat k) + (of_nat (unat i) - 1)"
    using pos by (simp add: of_nat_diff)
  then have sum: "word_of_int k + (i + 1) - 2 = (of_nat ?a :: uint32)"
    using b(1) by simp
  have q: "?a div nat k = Suc ((unat i - 1) div nat k)"
    using b(1) by (simp add: div_add_self1)
  have "unat ((word_of_int k + (i + 1) - 2) div word_of_int k :: uint32) = ?a div nat k"
    unfolding sum unat_div k
    using a by (simp add: unsigned_of_nat take_bit_nat_eq_self del: of_nat_add)
  moreover from this q have "(word_of_int k + (i + 1) - 2) div word_of_int k \<noteq> (0 :: uint32)"
    by (metis nat.distinct(1) unat_0)
  ultimately show ?thesis
    using False b(1) assms(3) q by (simp add: kary_parentof_def kparent_def unat_minus_one)
qed

lemma parentof_in_range:
  assumes "kary_fits k sz" and "i < sz" and "i \<noteq> 0"
  shows "kary_parentof k i < sz" "kary_parentof k i \<noteq> KARY_NONE"
proof -
  have "unat (kary_parentof k i) < unat i"
    unfolding unat_parentof [OF assms] using assms(3) by (simp add: unat_gt_0)
  with assms(2) show lt: "kary_parentof k i < sz" by (simp add: word_less_nat_alt)
  show "kary_parentof k i \<noteq> KARY_NONE" by (rule kary_fits_bounds(5) [OF assms(1) lt])
qed

lemma parentof_zero [simp]: "kary_parentof k 0 = KARY_NONE"
  by (simp add: kary_parentof_def)

lemma unat_childof:
  assumes "kary_fits k sz" and "i < sz" and "0 \<le> j" "j < k"
  shows "unat (word_of_int k * (i + 1) - word_of_int (k - 2) + word_of_int j - 1 :: uint32)
           = nat k * unat i + 1 + nat j"
proof -
  note b = kary_fits_bounds [OF assms(1,2)]
  have "(word_of_int k * (i + 1) - word_of_int (k - 2) + word_of_int j - 1 :: uint32)
          = of_nat (nat k * unat i + 1 + nat j)"
    using assms(3) b(1) by (simp add: algebra_simps)
  moreover have "nat k * unat i + 1 + nat j < 2 ^ 32"
    using b(2) assms(3,4) by (simp add: algebra_simps)
  ultimately show ?thesis
    by (simp only: unsigned_of_nat) (simp add: take_bit_nat_eq_self)
qed

lemma childof_iff:
  assumes "kary_fits k sz" and "i < sz" and "c \<noteq> KARY_NONE"
  shows "kary_childof k sz i j = c \<longleftrightarrow>
    c < sz \<and> c \<noteq> 0 \<and> kary_parentof k c = i \<and> j = (uint c - 1) mod k"
proof
  have k: "0 < k" using assms(1) by (simp add: kary_fits_def)
  {
    assume ch: "kary_childof k sz i j = c"
    let ?n = "word_of_int k * (i + 1) - word_of_int (k - 2) + word_of_int j - 1 :: uint32"
    from ch assms(3) have j: "0 \<le> j" "j < k" and c: "c = ?n" "c < sz"
      by (auto simp: kary_childof_def Let_def split: if_splits)
    have u: "unat c = nat k * unat i + 1 + nat j"
      unfolding c(1) by (rule unat_childof [OF assms(1,2) j])
    then have c0: "c \<noteq> 0" by (auto simp: unat_0)
    have "unat (kary_parentof k c) = (nat k * unat i + nat j) div nat k"
      unfolding unat_parentof [OF assms(1) c(2) c0] kparent_def u by simp
    also have "\<dots> = unat i" using j k by simp
    finally have p: "kary_parentof k c = i" by (simp only: word_unat_eq_iff)
    have "uint c - 1 = k * uint i + j"
      using arg_cong [OF u, of int] k j by simp
    then have "(uint c - 1) mod k = j" using j by simp
    with c(2) c0 p show "c < sz \<and> c \<noteq> 0 \<and> kary_parentof k c = i \<and> j = (uint c - 1) mod k"
      by simp
  }
  {
    assume h: "c < sz \<and> c \<noteq> 0 \<and> kary_parentof k c = i \<and> j = (uint c - 1) mod k"
    let ?n = "word_of_int k * (i + 1) - word_of_int (k - 2) + word_of_int j - 1 :: uint32"
    from h k have j: "0 \<le> j" "j < k" by simp_all
    from h have pos: "0 < unat c" by (simp add: unat_gt_0)
    have i: "unat i = (unat c - 1) div nat k"
      using h unat_parentof [of k sz c] assms(1) by (auto simp: kparent_def)
    have "uint c - 1 = int (unat c - 1)" using pos by (simp add: of_nat_diff)
    then have "j = int ((unat c - 1) mod nat k)" using h k by (simp add: zmod_int)
    then have j': "nat j = (unat c - 1) mod nat k" by simp
    have "unat ?n = nat k * unat i + 1 + nat j"
      by (rule unat_childof [OF assms(1,2) j])
    also have "\<dots> = unat c"
      unfolding i j' using pos by simp
    finally have "?n = c" by (simp only: word_unat_eq_iff)
    then show "kary_childof k sz i j = c"
      using h j k by (simp add: kary_childof_def Let_def)
  }
qed

lemma child_exists_iff:
  assumes "kary_fits k sz" and "i < sz" and "gw < sz"
  shows "list_ex (\<lambda>j. gw = kary_childof k sz i j) [0..k - 1] \<longleftrightarrow> gw \<noteq> 0 \<and> kary_parentof k gw = i"
proof -
  have k: "0 < k" using assms(1) by (simp add: kary_fits_def)
  have gw: "gw \<noteq> KARY_NONE" by (rule kary_fits_bounds(5) [OF assms(1,3)])
  have "(uint gw - 1) mod k \<in> set [0..k - 1]" using k by simp
  moreover have "gw = kary_childof k sz i j \<longleftrightarrow> gw \<noteq> 0 \<and> kary_parentof k gw = i \<and> j = (uint gw - 1) mod k" for j
    using assms(3) childof_iff [OF assms(1,2) gw, of j] by auto
  ultimately show ?thesis
    unfolding list_ex_iff by blast
qed

text \<open>Induction along the path to the root, for ranks of the instance.\<close>

lemma climb_induct [consumes 2, case_names root up]:
  assumes fits: "kary_fits k sz" and n: "n < sz"
    and root: "P 0"
    and up: "\<And>n. n < sz \<Longrightarrow> n \<noteq> 0 \<Longrightarrow> P (kary_parentof k n) \<Longrightarrow> P n"
  shows "P n"
  using n
proof (induction "unat n" arbitrary: n rule: less_induct)
  case less
  show ?case
  proof (cases "n = 0")
    case False
    have "unat (kary_parentof k n) < unat n"
      unfolding unat_parentof [OF fits less.prems False] using False by (simp add: unat_gt_0)
    then have "P (kary_parentof k n)"
      using parentof_in_range(1) [OF fits less.prems False] by (rule less.hyps)
    then show ?thesis by (rule up [OF less.prems False])
  qed (simp add: root)
qed

lemma descends_word_iff:
  assumes "kary_fits k sz" and "n < sz" and "n \<noteq> 0"
  shows "descends (nat k) (unat n) (unat a) \<longleftrightarrow>
    kary_parentof k n = a \<or> descends (nat k) (unat (kary_parentof k n)) (unat a)"
proof -
  have "kary_parentof k n = a \<longleftrightarrow> kparent (nat k) (unat n) = unat a"
    by (simp only: word_unat_eq_iff unat_parentof [OF assms])
  moreover have "0 < unat n" using assms(3) by (simp add: unat_gt_0)
  ultimately show ?thesis
    unfolding unat_parentof [OF assms] using descends_iff [of "nat k" "unat n" "unat a"] by blast
qed

lemma parent_route_loop_correct:
  assumes "kary_fits k sz" and "n < sz"
  shows "parent_route_loop k dst gw n =
    (if n = dst \<or> descends (nat k) (unat n) (unat dst) then gw else KARY_NONE)"
  using assms
proof (induction rule: climb_induct)
  case root
  then show ?case
    using assms by (subst parent_route_loop.simps, subst parent_route_loop.simps)
      (auto simp: KARY_NONE_def elim: descends_zeroE)
next
  case (up n)
  then show ?case
    using kary_fits_bounds(5) [OF assms(1) up(1)] descends_word_iff [OF assms(1) up(1,2)]
    by (subst parent_route_loop.simps) auto
qed

lemma child_route_loop_root:
  assumes "kary_fits k sz" and "src < sz"
  shows "child_route_loop k sz src 0 = KARY_NONE"
proof -
  have "0 < sz" using assms(2) by (simp add: word_less_nat_alt)
  then have "\<not> list_ex (\<lambda>j. 0 = kary_childof k sz src j) [0..k - 1]"
    using child_exists_iff [OF assms, of 0] by blast
  moreover have "child_route_loop k sz src KARY_NONE = KARY_NONE"
    by (subst child_route_loop.simps) simp
  ultimately show ?thesis
    by (subst child_route_loop.simps) simp
qed

lemma child_route_loop_up:
  assumes "kary_fits k sz" and "src < sz" and "n < sz" and "n \<noteq> 0"
  shows "child_route_loop k sz src n =
    (if kary_parentof k n = src then n else child_route_loop k sz src (kary_parentof k n))"
  using child_exists_iff [OF assms(1,2,3)] kary_fits_bounds(5) [OF assms(1,3)] assms(4)
  by (subst child_route_loop.simps) simp

lemma child_route_loop_correct:
  assumes "kary_fits k sz" and "src < sz" and "n < sz"
  shows "(child_route_loop k sz src n = KARY_NONE \<longleftrightarrow> \<not> descends (nat k) (unat n) (unat src)) \<and>
    (\<forall>c. child_route_loop k sz src n = c \<and> c \<noteq> KARY_NONE \<longrightarrow>
       c < sz \<and> c \<noteq> 0 \<and> kary_parentof k c = src \<and> (n = c \<or> descends (nat k) (unat n) (unat c)))"
  using assms(1,3)
proof (induction rule: climb_induct)
  case root
  then show ?case
    using child_route_loop_root [OF assms(1,2)] by (auto elim: descends_zeroE)
next
  case (up n)
  show ?case
    using kary_fits_bounds(5) [OF assms(1) up(1)] up descends_word_iff [OF assms(1) up(1,2)]
    unfolding child_route_loop_up [OF assms(1,2) up(1,2)] by auto
qed

lemma child_route_correct:
  assumes "kary_fits k sz" and "src < sz" and "dst < sz"
  shows "(kary_child_route k sz src dst = KARY_NONE \<longleftrightarrow> \<not> descends (nat k) (unat dst) (unat src)) \<and>
    (\<forall>c. kary_child_route k sz src dst = c \<and> c \<noteq> KARY_NONE \<longrightarrow>
       c < sz \<and> c \<noteq> 0 \<and> kary_parentof k c = src \<and> (dst = c \<or> descends (nat k) (unat dst) (unat c)))"
proof -
  have k: "0 < k" using assms(1) by (simp add: kary_fits_def)
  consider "src = dst" | "src \<noteq> dst" "dst = 0" | "src \<noteq> dst" "dst \<noteq> 0" by blast
  then show ?thesis
  proof cases
    case 1
    then show ?thesis by (auto simp: kary_child_route_def dest: descends_less)
  next
    case 2
    have "child_route_loop k sz src KARY_NONE = KARY_NONE"
      by (subst child_route_loop.simps) simp
    moreover have "KARY_NONE \<noteq> src" using kary_fits_bounds(5) [OF assms(1,2)] by blast
    ultimately show ?thesis
      using 2 by (auto simp: kary_child_route_def elim: descends_zeroE)
  next
    case 3
    then have "kary_child_route k sz src dst = child_route_loop k sz src dst"
      using assms k by (simp add: kary_child_route_def child_route_loop_up Let_def)
    then show ?thesis using child_route_loop_correct [OF assms] by simp
  qed
qed

subsection \<open>Levels and descendant counts\<close>

lemma finite_ancestors: "finite {a. descends k d a}"
  by (rule finite_subset [of _ "{..<d}"]) (auto dest: descends_less)

lemma levelof_correct:
  assumes "kary_fits k sz" and "i < sz"
  shows "kary_levelof k i = cint (int (card {a. descends (nat k) (unat i) a}))"
  using assms
proof (induction rule: climb_induct)
  case root
  have "{a. descends (nat k) 0 a} = {}" by (auto elim: descends_zeroE)
  then have "card {a. descends (nat k) 0 a} = 0" by (simp only: card.empty)
  then show ?case by (subst kary_levelof.simps) (simp add: cint_def)
next
  case (up n)
  let ?p = "kparent (nat k) (unat n)"
  have "0 < unat n" using up(2) by (simp add: unat_gt_0)
  then have "{a. descends (nat k) (unat n) a} = insert ?p {a. descends (nat k) ?p a}"
    using descends_iff [of "nat k" "unat n"] by auto
  moreover have "?p \<notin> {a. descends (nat k) ?p a}" by (auto dest: descends_less)
  ultimately have "card {a. descends (nat k) (unat n) a} = Suc (card {a. descends (nat k) ?p a})"
    by (simp add: finite_ancestors)
  moreover have "kary_levelof k n = bind_result (kary_levelof k (kary_parentof k n)) (int_add 1)"
    using parentof_in_range(2) [OF assms(1) up(1,2)] by (subst kary_levelof.simps) (simp add: Let_def)
  ultimately show ?case
    using up(3) by (simp add: unat_parentof [OF assms(1) up(1,2)] cint_def int_add_def)
qed

definition descendants :: "int \<Rightarrow> uint32 \<Rightarrow> uint32 \<Rightarrow> nat set" where
  "descendants k sz i = {d. d < unat sz \<and> descends (nat k) d (unat i)}"

text \<open>The part of the descendants below the \<open>j\<close>-th child, the child included.\<close>

definition child_part :: "int \<Rightarrow> uint32 \<Rightarrow> uint32 \<Rightarrow> int \<Rightarrow> nat set" where
  "child_part k sz i j =
     (let c = kary_childof k sz i j in
      if c = KARY_NONE then {} else insert (unat c) (descendants k sz c))"

lemma finite_descendants [simp]: "finite (descendants k sz i)"
  by (simp add: descendants_def)

lemma finite_child_part [simp]: "finite (child_part k sz i j)"
  by (simp add: child_part_def Let_def)

lemma childof_SomeD:
  assumes "kary_fits k sz" and "i < sz" and "kary_childof k sz i j \<noteq> KARY_NONE"
  shows "kary_childof k sz i j < sz" "kary_childof k sz i j \<noteq> 0"
    "kparent (nat k) (unat (kary_childof k sz i j)) = unat i"
    "j = (uint (kary_childof k sz i j) - 1) mod k" "i < kary_childof k sz i j"
proof -
  let ?c = "kary_childof k sz i j"
  have h: "?c < sz \<and> ?c \<noteq> 0 \<and> kary_parentof k ?c = i \<and> j = (uint ?c - 1) mod k"
    using childof_iff [OF assms(1,2,3), of j] by simp
  then show "?c < sz" "?c \<noteq> 0" "j = (uint ?c - 1) mod k" by simp_all
  show p: "kparent (nat k) (unat ?c) = unat i"
    using h unat_parentof [OF assms(1), of ?c] by simp
  have "0 < unat ?c" using h by (simp add: unat_gt_0)
  then show "i < ?c" using p kparent_less by (metis word_less_nat_alt)
qed

lemma descendants_children:
  assumes "kary_fits k sz" and "i < sz"
  shows "descendants k sz i = (\<Union>j\<in>{0..k - 1}. child_part k sz i j)"
proof (intro set_eqI iffI)
  have k: "0 < k" using assms(1) by (simp add: kary_fits_def)
  fix d
  assume "d \<in> descendants k sz i"
  then have d: "d < unat sz" and "descends (nat k) d (unat i)" by (auto simp: descendants_def)
  then obtain c where c: "0 < c" "kparent (nat k) c = unat i" "d = c \<or> descends (nat k) d c"
    using descends_via_child by blast
  then have "c < unat sz" using d descends_less by fastforce
  then have c32: "unat (of_nat c :: uint32) = c"
    using unat_uint32_less [of sz] by (simp add: unat_of_nat_uint32)
  let ?c = "of_nat c :: uint32"
  have lt: "?c < sz" using c32 \<open>c < unat sz\<close> by (simp add: word_less_nat_alt)
  have c0: "?c \<noteq> 0" using c(1) c32 by (metis less_irrefl unat_0)
  have p: "kary_parentof k ?c = i"
    using unat_parentof [OF assms(1) lt c0] c(2) c32 by (simp add: word_unat_eq_iff)
  let ?j = "(uint ?c - 1) mod k"
  have "kary_childof k sz i ?j = ?c"
    using childof_iff [OF assms kary_fits_bounds(5) [OF assms(1) lt]] lt c0 p by blast
  moreover have "?c \<noteq> KARY_NONE" by (rule kary_fits_bounds(5) [OF assms(1) lt])
  ultimately have "d \<in> child_part k sz i ?j"
    using c(3) c32 d by (auto simp: child_part_def descendants_def)
  moreover have "?j \<in> {0..k - 1}" using k by simp
  ultimately show "d \<in> (\<Union>j\<in>{0..k - 1}. child_part k sz i j)" by blast
next
  fix d
  assume "d \<in> (\<Union>j\<in>{0..k - 1}. child_part k sz i j)"
  then obtain j where j: "d \<in> child_part k sz i j" by blast
  then have n: "kary_childof k sz i j \<noteq> KARY_NONE"
    by (auto simp: child_part_def Let_def split: if_splits)
  note c = childof_SomeD [OF assms n]
  have "descends (nat k) (unat (kary_childof k sz i j)) (unat i)"
    using c(2,3) descends_parent [of "unat (kary_childof k sz i j)" "nat k"] by (simp add: unat_gt_0)
  then show "d \<in> descendants k sz i"
    using j c(1) n
    by (auto simp: child_part_def descendants_def Let_def word_less_nat_alt dest: descends_trans)
qed

lemma child_part_disjoint:
  assumes "kary_fits k sz" and "i < sz" and "d \<in> child_part k sz i j" and "d \<in> child_part k sz i j'"
  shows "j = j'"
proof -
  let ?c = "kary_childof k sz i j" and ?c' = "kary_childof k sz i j'"
  from assms(3,4) have n: "?c \<noteq> KARY_NONE" "?c' \<noteq> KARY_NONE"
    by (auto simp: child_part_def Let_def split: if_splits)
  note c = childof_SomeD [OF assms(1,2) n(1)] and c' = childof_SomeD [OF assms(1,2) n(2)]
  have no: "\<not> descends (nat k) (unat a) (unat b)"
    if "kparent (nat k) (unat a) = unat i" "i < b" for a b :: uint32
  proof
    assume "descends (nat k) (unat a) (unat b)"
    then have "unat b = unat i \<or> descends (nat k) (unat i) (unat b)"
      using descends_iff [of "nat k" "unat a" "unat b"] that(1) by auto
    then have "unat b \<le> unat i" by (auto dest: descends_less)
    with that(2) show False by (simp add: word_less_nat_alt)
  qed
  have "d = unat ?c \<or> descends (nat k) d (unat ?c)" "d = unat ?c' \<or> descends (nat k) d (unat ?c')"
    using assms(3,4) n by (auto simp: child_part_def descendants_def Let_def)
  then have "unat ?c = unat ?c'"
    using no [OF c(3) c'(5)] no [OF c'(3) c(5)] descends_linear [of "nat k" d "unat ?c" "unat ?c'"]
    by auto
  then have "?c = ?c'" by (simp only: word_unat_eq_iff)
  then show ?thesis using c(4) c'(4) by simp
qed

lemma card_descendants:
  assumes "kary_fits k sz" and "i < sz"
  shows "card (descendants k sz i) = (\<Sum>j\<in>{0..k - 1}. card (child_part k sz i j))"
  unfolding descendants_children [OF assms]
  by (rule card_UN_disjoint) (use child_part_disjoint [OF assms] in auto)

lemma card_child_part:
  assumes "kary_childof k sz i j \<noteq> KARY_NONE"
  shows "card (child_part k sz i j) = Suc (card (descendants k sz (kary_childof k sz i j)))"
proof -
  have "unat (kary_childof k sz i j) \<notin> descendants k sz (kary_childof k sz i j)"
    by (auto simp: descendants_def dest: descends_less)
  with assms show ?thesis by (simp add: child_part_def Let_def)
qed

lemma sum_descendants_foldl:
  assumes "\<And>j. j \<in> set js \<Longrightarrow> kary_childof k sz i j \<noteq> KARY_NONE \<Longrightarrow>
      kary_sum_descendants fuel k sz (kary_childof k sz i j)
        = Some (cint (int (card (descendants k sz (kary_childof k sz i j)))))"
    and "0 \<le> s"
  shows "foldl (\<lambda>sum j. case sum of
              None \<Rightarrow> None
            | Some (Inl e) \<Rightarrow> Some (Inl e)
            | Some (Inr s) \<Rightarrow>
                let n = kary_childof k sz i j in
                if n \<noteq> KARY_NONE then
                  map_option (\<lambda>r. bind_result (bind_result r (int_add 1)) (int_add s)) (kary_sum_descendants fuel k sz n)
                else Some (Inr s))
       (Some (cint s)) js = Some (cint (s + (\<Sum>j\<leftarrow>js. int (card (child_part k sz i j)))))"
  using assms
proof (induction js arbitrary: s)
  case Nil
  then show ?case by simp
next
  case (Cons j js)
  let ?d = "int (card (child_part k sz i j))" and ?f = "\<lambda>sum j. case sum of
              None \<Rightarrow> None
            | Some (Inl e) \<Rightarrow> Some (Inl e)
            | Some (Inr s) \<Rightarrow>
                let n = kary_childof k sz i j in
                if n \<noteq> KARY_NONE then
                  map_option (\<lambda>r. bind_result (bind_result r (int_add 1)) (int_add s)) (kary_sum_descendants fuel k sz n)
                else Some (Inr s)"
  have "?f (Some (cint s)) j = Some (cint (s + ?d))"
  proof (cases "kary_childof k sz i j = KARY_NONE")
    case True
    then show ?thesis by (simp add: child_part_def cint_def)
  next
    case False
    then have "kary_sum_descendants fuel k sz (kary_childof k sz i j) = Some (cint (?d - 1))"
      using Cons.prems(1) [of j] by (simp add: card_child_part)
    moreover have "1 \<le> ?d" using card_child_part [OF False] by simp
    ultimately show ?thesis using False Cons.prems(2) by (simp add: cint_def int_add_def Let_def)
  qed
  then show ?case using Cons.IH [of "s + ?d"] Cons.prems by (simp add: add.assoc)
qed

lemma sum_descendants_correct:
  assumes "kary_fits k sz" and "i < sz" and "unat sz - unat i \<le> fuel"
  shows "kary_sum_descendants fuel k sz i = Some (cint (int (card (descendants k sz i))))"
  using assms(2,3)
proof (induction fuel arbitrary: i)
  case 0
  then show ?case by (simp add: word_less_nat_alt)
next
  case (Suc fuel)
  have "kary_sum_descendants fuel k sz (kary_childof k sz i j)
          = Some (cint (int (card (descendants k sz (kary_childof k sz i j)))))"
    if "kary_childof k sz i j \<noteq> KARY_NONE" for j
    using childof_SomeD(1,5) [OF assms(1) Suc.prems(1) that] Suc.prems(2)
    by (intro Suc.IH) (auto simp: word_less_nat_alt)
  then show ?case
    using sum_descendants_foldl [of "[0..k - 1]" k sz i fuel 0]
    by (simp add: cint_def [of 0] card_descendants [OF assms(1) Suc.prems(1)]
        sum_list_distinct_conv_sum_set)
qed

subsection \<open>Properties\<close>

text \<open>C37: child and parent arithmetic are inverse. As long as child indices do not wrap around
  32 bits, rank \<open>c\<close> is the \<open>j\<close>-th child of rank \<open>i\<close> exactly when \<open>i\<close> is the parent of \<open>c\<close>
  and \<open>j\<close> is \<open>c\<close>'s position among its siblings.\<close>

theorem kary_child_parent_inverse:
  assumes "kary_fits k sz" and "i < sz" and "c \<noteq> KARY_NONE"
  shows "kary_childof k sz i j = c \<longleftrightarrow>
    c < sz \<and> c \<noteq> 0 \<and> kary_parentof k c = i \<and> j = (uint c - 1) mod k"
  by (rule childof_iff [OF assms])

theorem kary_child_parent_inverse_witness:
  "kary_fits 2 7 \<and> kary_parentof 2 4 = 1 \<and> kary_childof 2 7 1 1 = 4"
proof -
  have f: "kary_fits 2 7" by (simp add: kary_fits_def)
  have p: "kary_parentof 2 4 = 1" by (simp add: kary_parentof_def)
  have n: "(4 :: uint32) \<noteq> KARY_NONE" by (simp add: KARY_NONE_def)
  have "kary_childof 2 7 1 1 = 4"
    using kary_child_parent_inverse [OF f _ n, of 1 1] p by simp
  with f p show ?thesis by simp
qed

text \<open>C38: \<open>kary_parent_route\<close> returns the parent of \<open>src\<close> when \<open>src\<close> descends from \<open>dst\<close>, and
  \<open>KARY_NONE\<close> when it does not.\<close>

theorem kary_parent_route_correct:
  assumes "kary_fits k sz" and "src < sz" and "dst < sz"
  shows "kary_parent_route k sz src dst =
    (if descends (nat k) (unat src) (unat dst) then kary_parentof k src else KARY_NONE)"
proof (cases "src = dst \<or> src = 0")
  case True
  have "0 < k" using assms(1) by (simp add: kary_fits_def)
  have "parent_route_loop k dst KARY_NONE KARY_NONE = KARY_NONE"
    by (subst parent_route_loop.simps) simp
  with True \<open>0 < k\<close> assms show ?thesis
    by (auto simp: kary_parent_route_def Let_def dest: descends_less elim: descends_zeroE)
next
  case False
  have "0 < k" using assms(1) by (simp add: kary_fits_def)
  with False assms show ?thesis
    by (simp add: kary_parent_route_def Let_def parent_route_loop_correct [OF assms(1)]
        parentof_in_range descends_word_iff [OF assms(1,2)])
qed

theorem kary_parent_route_correct_witness:
  "descends 2 5 0 \<and> kary_parent_route 2 7 5 0 = kary_parentof 2 5"
proof -
  have f: "kary_fits 2 7" by (simp add: kary_fits_def)
  have d: "descends 2 5 0" by (rule descends_root) simp
  show ?thesis
    using kary_parent_route_correct [OF f, of 5 0] d by simp
qed

text \<open>C39: \<open>kary_child_route\<close> answers \<open>KARY_NONE\<close> exactly when \<open>dst\<close> does not descend from
  \<open>src\<close>; otherwise it returns the child of \<open>src\<close> whose subtree holds \<open>dst\<close>.\<close>

theorem kary_child_route_correct:
  assumes "kary_fits k sz" and "src < sz" and "dst < sz"
  shows "(kary_child_route k sz src dst = KARY_NONE \<longleftrightarrow> \<not> descends (nat k) (unat dst) (unat src)) \<and>
    (\<forall>c. kary_child_route k sz src dst = c \<and> c \<noteq> KARY_NONE \<longrightarrow>
       c < sz \<and> c \<noteq> 0 \<and> kary_parentof k c = src \<and> (dst = c \<or> descends (nat k) (unat dst) (unat c)))"
  by (rule child_route_correct [OF assms])

theorem kary_child_route_correct_witness:
  "descends 2 5 0 \<and> kary_child_route 2 7 0 5 \<noteq> KARY_NONE \<and> kary_parentof 2 (kary_child_route 2 7 0 5) = 0"
proof -
  have f: "kary_fits 2 7" by (simp add: kary_fits_def)
  have d: "descends 2 5 0" by (rule descends_root) simp
  show ?thesis
    using kary_child_route_correct [OF f, of 0 5] d by simp
qed

text \<open>The level of a rank is the number of its ancestors.\<close>

theorem kary_levelof_correct:
  assumes "kary_fits k sz" and "i < sz"
  shows "kary_levelof k i = cint (int (card {a. descends (nat k) (unat i) a}))"
  by (rule levelof_correct [OF assms])

theorem kary_levelof_correct_witness:
  "kary_levelof 2 4 = Inr 2 \<and> int (card {a. descends 2 4 a}) = 2"
proof -
  have f: "kary_fits 2 7" by (simp add: kary_fits_def)
  have "kary_levelof 2 4 = Inr 2"
    by (simp add: kary_levelof.simps kary_parentof_def KARY_NONE_def int_add_def)
  then show ?thesis using kary_levelof_correct [OF f, of 4] by (simp add: cint_def split: if_splits)
qed

text \<open>C40: counting descendants terminates with \<open>size - i\<close> levels of recursion and counts each
  rank of the instance that descends from \<open>i\<close> once; if there are \<open>2^31\<close> or more of them, the sum
  overflows a C \<open>int\<close>.\<close>

theorem kary_sum_descendants_correct:
  assumes "kary_fits k sz" and "i < sz" and "unat sz - unat i \<le> fuel"
  shows "kary_sum_descendants fuel k sz i =
    (let n = int (card {d. d < unat sz \<and> descends (nat k) d (unat i)})
     in if n < 2 ^ 31 then Some (Inr n) else Some (Inl SignedOverflow))"
  using sum_descendants_correct [OF assms] by (simp add: descendants_def cint_def Let_def)

theorem kary_sum_descendants_correct_witness:
  "kary_sum_descendants 3 2 3 0 = Some (Inr 2) \<and> card {d. d < 3 \<and> descends 2 d 0} = 2"
proof -
  have f: "kary_fits 2 3" by (simp add: kary_fits_def)
  have "{d. d < 3 \<and> descends 2 d 0} = {0<..<3 :: nat}"
    by (auto dest: descends_less intro: descends_root)
  then have "card {d. d < 3 \<and> descends 2 d 0} = 2" by simp
  then show ?thesis
    using kary_sum_descendants_correct [OF f, of 0 3] by simp
qed

text \<open>Without the size bound the child index wraps around 32 bits: in an instance of
  \<open>0x10000002\<close> ranks with fan-out 16 the arithmetic reports rank 1, a child of the root, as a
  child of rank \<open>0x10000000\<close>.\<close>

theorem kary_childof_wraps:
  "kary_childof 16 0x10000002 0x10000000 0 = 1 \<and> kary_parentof 16 1 = 0"
  by (simp add: kary_childof_def kary_parentof_def)

end
