(* ===== verification/Proto.thy ===== *)
theory Proto
  imports Flux_Prelude
begin

text \<open>
  The fixed 20-byte protocol frame that ends every Flux message: the "manual codec" of
  \<^verbatim>\<open>src/common/libflux/message.c\<close>. A frame is a list of bytes; \<open>zframe_data\<close> and
  \<open>zframe_size\<close> are the list and its length. A \<open>proto_set_*\<close> function returns the updated
  frame, a \<open>proto_get_*\<close> function the value it stores through its output argument, and
  \<open>None\<close> is the return value \<open>-1\<close>. \<open>htonl\<close> followed by \<open>memcpy\<close> writes the four bytes of
  a word most significant first, whatever the byte order of the host.
\<close>

unbundle bit_operations_syntax

subsection \<open>Constants\<close>

definition PROTO_MAGIC :: byte where "PROTO_MAGIC = 0x8e"
definition PROTO_VERSION :: byte where "PROTO_VERSION = 1"
definition PROTO_SIZE :: nat where "PROTO_SIZE = 20"
definition PROTO_OFF_MAGIC :: nat where "PROTO_OFF_MAGIC = 0"
definition PROTO_OFF_VERSION :: nat where "PROTO_OFF_VERSION = 1"
definition PROTO_OFF_TYPE :: nat where "PROTO_OFF_TYPE = 2"
definition PROTO_OFF_FLAGS :: nat where "PROTO_OFF_FLAGS = 3"
definition PROTO_OFF_USERID :: nat where "PROTO_OFF_USERID = 4"
definition PROTO_OFF_ROLEMASK :: nat where "PROTO_OFF_ROLEMASK = 8"
definition PROTO_OFF_BIGINT :: nat where "PROTO_OFF_BIGINT = 12"
definition PROTO_OFF_BIGINT2 :: nat where "PROTO_OFF_BIGINT2 = 16"

definition FLUX_MSGTYPE_REQUEST :: int where "FLUX_MSGTYPE_REQUEST = 1"
definition FLUX_MSGTYPE_RESPONSE :: int where "FLUX_MSGTYPE_RESPONSE = 2"
definition FLUX_MSGTYPE_EVENT :: int where "FLUX_MSGTYPE_EVENT = 4"
definition FLUX_MSGTYPE_KEEPALIVE :: int where "FLUX_MSGTYPE_KEEPALIVE = 8"

definition FLUX_NODEID_ANY :: uint32 where "FLUX_NODEID_ANY = 0xFFFFFFFF"
definition FLUX_NODEID_UPSTREAM :: uint32 where "FLUX_NODEID_UPSTREAM = 0xFFFFFFFE"
definition FLUX_USERID_UNKNOWN :: uint32 where "FLUX_USERID_UNKNOWN = 0xFFFFFFFF"
definition FLUX_ROLE_NONE :: uint32 where "FLUX_ROLE_NONE = 0"
definition FLUX_MATCHTAG_NONE :: uint32 where "FLUX_MATCHTAG_NONE = 0"

lemmas proto_consts [flux_defs] =
  PROTO_MAGIC_def PROTO_VERSION_def PROTO_SIZE_def PROTO_OFF_MAGIC_def PROTO_OFF_VERSION_def
  PROTO_OFF_TYPE_def PROTO_OFF_FLAGS_def PROTO_OFF_USERID_def PROTO_OFF_ROLEMASK_def
  PROTO_OFF_BIGINT_def PROTO_OFF_BIGINT2_def

lemmas msgtype_consts =
  FLUX_MSGTYPE_REQUEST_def FLUX_MSGTYPE_RESPONSE_def FLUX_MSGTYPE_EVENT_def
  FLUX_MSGTYPE_KEEPALIVE_def

subsection \<open>Network byte order\<close>

definition put_be32 :: "byte list \<Rightarrow> nat \<Rightarrow> uint32 \<Rightarrow> byte list" where
  "put_be32 d off x =
     d[off := ucast (drop_bit 24 x), off + 1 := ucast (drop_bit 16 x),
       off + 2 := ucast (drop_bit 8 x), off + 3 := ucast x]"

definition get_be32 :: "byte list \<Rightarrow> nat \<Rightarrow> uint32" where
  "get_be32 d off =
     push_bit 24 (ucast (d ! off)) OR push_bit 16 (ucast (d ! (off + 1))) OR
     push_bit 8 (ucast (d ! (off + 2))) OR ucast (d ! (off + 3))"

lemma length_put_be32 [simp]: "length (put_be32 d off x) = length d"
  by (simp add: put_be32_def)

lemma nth_put_be32_other [simp]:
  "i < off \<or> off + 4 \<le> i \<Longrightarrow> put_be32 d off x ! i = d ! i"
  by (auto simp: put_be32_def)

lemma be32_join:
  "push_bit 24 (ucast (ucast (drop_bit 24 x) :: byte)) OR push_bit 16 (ucast (ucast (drop_bit 16 x) :: byte)) OR
     push_bit 8 (ucast (ucast (drop_bit 8 x) :: byte)) OR ucast (ucast x :: byte) = (x :: uint32)"
proof (rule bit_word_eqI)
  fix n
  assume "n < LENGTH(32)"
  then consider "n < 8" | "8 \<le> n" "n < 16" | "16 \<le> n" "n < 24" | "24 \<le> n" "n < 32"
    by fastforce
  then show "bit (push_bit 24 (ucast (ucast (drop_bit 24 x) :: byte)) OR
      push_bit 16 (ucast (ucast (drop_bit 16 x) :: byte)) OR
      push_bit 8 (ucast (ucast (drop_bit 8 x) :: byte)) OR ucast (ucast x :: byte) :: uint32) n
      = bit x n"
    by cases (auto simp: bit_simps)
qed

lemma get_put_be32 [simp]:
  "off + 4 \<le> length d \<Longrightarrow> get_be32 (put_be32 d off x) off = x"
  by (simp add: get_be32_def put_be32_def nth_list_update be32_join)

lemma get_put_be32_other [simp]:
  "off' + 4 \<le> off \<or> off + 4 \<le> off' \<Longrightarrow> get_be32 (put_be32 d off x) off' = get_be32 d off'"
  by (simp add: get_be32_def) (auto simp: put_be32_def)

lemma get_be32_list_update [simp]:
  "i < off \<or> off + 4 \<le> i \<Longrightarrow> get_be32 (d[i := b]) off = get_be32 d off"
  by (auto simp: get_be32_def)

subsection \<open>The codec\<close>

definition proto_ok :: "byte list \<Rightarrow> bool" where
  "proto_ok data \<longleftrightarrow> \<not> (length data < PROTO_SIZE \<or> data ! PROTO_OFF_MAGIC \<noteq> PROTO_MAGIC
                         \<or> data ! PROTO_OFF_VERSION \<noteq> PROTO_VERSION)"

definition proto_set_bigint :: "byte list \<Rightarrow> uint32 \<Rightarrow> byte list option" where
  "proto_set_bigint data bigint =
     (if \<not> proto_ok data then None else Some (put_be32 data PROTO_OFF_BIGINT bigint))"

definition proto_get_bigint :: "byte list \<Rightarrow> uint32 option" where
  "proto_get_bigint data =
     (if \<not> proto_ok data then None else Some (get_be32 data PROTO_OFF_BIGINT))"

definition proto_set_bigint2 :: "byte list \<Rightarrow> uint32 \<Rightarrow> byte list option" where
  "proto_set_bigint2 data bigint =
     (if \<not> proto_ok data then None else Some (put_be32 data PROTO_OFF_BIGINT2 bigint))"

definition proto_get_bigint2 :: "byte list \<Rightarrow> uint32 option" where
  "proto_get_bigint2 data =
     (if \<not> proto_ok data then None else Some (get_be32 data PROTO_OFF_BIGINT2))"

definition proto_set_userid :: "byte list \<Rightarrow> uint32 \<Rightarrow> byte list option" where
  "proto_set_userid data userid =
     (if \<not> proto_ok data then None else Some (put_be32 data PROTO_OFF_USERID userid))"

definition proto_get_userid :: "byte list \<Rightarrow> uint32 option" where
  "proto_get_userid data =
     (if \<not> proto_ok data then None else Some (get_be32 data PROTO_OFF_USERID))"

definition proto_set_rolemask :: "byte list \<Rightarrow> uint32 \<Rightarrow> byte list option" where
  "proto_set_rolemask data rolemask =
     (if \<not> proto_ok data then None else Some (put_be32 data PROTO_OFF_ROLEMASK rolemask))"

definition proto_get_rolemask :: "byte list \<Rightarrow> uint32 option" where
  "proto_get_rolemask data =
     (if \<not> proto_ok data then None else Some (get_be32 data PROTO_OFF_ROLEMASK))"

definition proto_set_type :: "byte list \<Rightarrow> int \<Rightarrow> byte list option" where
  "proto_set_type data type =
     (if \<not> proto_ok data then None
      else
        let body =
          (if type = FLUX_MSGTYPE_REQUEST then
             (case proto_set_bigint data FLUX_NODEID_ANY of
                None \<Rightarrow> None
              | Some data1 \<Rightarrow> proto_set_bigint2 data1 FLUX_MATCHTAG_NONE)
           else if type = FLUX_MSGTYPE_RESPONSE then proto_set_bigint data 0
           else if type = FLUX_MSGTYPE_EVENT \<or> type = FLUX_MSGTYPE_KEEPALIVE then
             (case proto_set_bigint data 0 of
                None \<Rightarrow> None
              | Some data1 \<Rightarrow> proto_set_bigint2 data1 0)
           else None)
        in map_option (\<lambda>data2. data2[PROTO_OFF_TYPE := word_of_int type]) body)"

definition proto_get_type :: "byte list \<Rightarrow> int option" where
  "proto_get_type data =
     (if \<not> proto_ok data then None else Some (uint (data ! PROTO_OFF_TYPE)))"

definition proto_set_flags :: "byte list \<Rightarrow> byte \<Rightarrow> byte list option" where
  "proto_set_flags data flags =
     (if \<not> proto_ok data then None else Some (data[PROTO_OFF_FLAGS := flags]))"

definition proto_get_flags :: "byte list \<Rightarrow> byte option" where
  "proto_get_flags data =
     (if \<not> proto_ok data then None else Some (data ! PROTO_OFF_FLAGS))"

definition proto_mod_flags :: "byte list \<Rightarrow> byte \<Rightarrow> bool \<Rightarrow> byte list option" where
  "proto_mod_flags data val clear =
     (if \<not> proto_ok data then None
      else if clear then
        Some (data[PROTO_OFF_FLAGS := data ! PROTO_OFF_FLAGS AND NOT val])
      else Some (data[PROTO_OFF_FLAGS := data ! PROTO_OFF_FLAGS OR val]))"

text \<open>\<open>proto_init\<close> starts with \<open>assert (len >= PROTO_SIZE)\<close>; the results of its two setters
  are ignored, so a failing setter would leave the frame as it is.\<close>

definition proto_init :: "byte list \<Rightarrow> byte \<Rightarrow> byte list result" where
  "proto_init data flags =
     (if length data < PROTO_SIZE then Inl AssertFailed
      else
        let d0 = (replicate (length data) 0)
                   [PROTO_OFF_MAGIC := PROTO_MAGIC, PROTO_OFF_VERSION := PROTO_VERSION,
                    PROTO_OFF_FLAGS := flags];
            d1 = (case proto_set_userid d0 FLUX_USERID_UNKNOWN of None \<Rightarrow> d0 | Some d \<Rightarrow> d);
            d2 = (case proto_set_rolemask d1 FLUX_ROLE_NONE of None \<Rightarrow> d1 | Some d \<Rightarrow> d)
        in Inr d2)"

lemmas proto_codec_defs =
  proto_set_bigint_def proto_get_bigint_def proto_set_bigint2_def proto_get_bigint2_def
  proto_set_userid_def proto_get_userid_def proto_set_rolemask_def proto_get_rolemask_def
  proto_get_type_def proto_set_flags_def proto_get_flags_def proto_mod_flags_def

subsection \<open>The frame as a record of fields\<close>

text \<open>The contract of the codec: a well-formed frame is a record of six fields, and each setter
  updates its own fields and leaves the others, the header and the length alone.\<close>

record proto_fields =
  pf_type :: int
  pf_flags :: byte
  pf_userid :: uint32
  pf_rolemask :: uint32
  pf_bigint :: uint32
  pf_bigint2 :: uint32

definition fields_of :: "byte list \<Rightarrow> proto_fields" where
  "fields_of d = \<lparr>pf_type = uint (d ! 2), pf_flags = d ! 3, pf_userid = get_be32 d 4,
     pf_rolemask = get_be32 d 8, pf_bigint = get_be32 d 12, pf_bigint2 = get_be32 d 16\<rparr>"

definition proto_upd :: "byte list \<Rightarrow> (proto_fields \<Rightarrow> proto_fields) \<Rightarrow> byte list \<Rightarrow> bool" where
  "proto_upd d f d' \<longleftrightarrow> proto_ok d' \<and> length d' = length d \<and> fields_of d' = f (fields_of d)"

lemma proto_okD:
  "proto_ok d \<Longrightarrow> 20 \<le> length d \<and> d ! 0 = 0x8e \<and> d ! Suc 0 = 1"
  by (auto simp: proto_ok_def proto_consts)

lemma proto_ok_put_be32 [simp]: "2 \<le> off \<Longrightarrow> proto_ok (put_be32 d off x) = proto_ok d"
  by (simp add: proto_ok_def proto_consts)

lemma proto_ok_list_update [simp]: "2 \<le> i \<Longrightarrow> proto_ok (d[i := b]) = proto_ok d"
  by (simp add: proto_ok_def proto_consts)

lemma proto_upd_put:
  assumes "proto_ok d"
  shows "proto_upd d (\<lambda>p. p\<lparr>pf_userid := x\<rparr>) (put_be32 d 4 x)"
    "proto_upd d (\<lambda>p. p\<lparr>pf_rolemask := x\<rparr>) (put_be32 d 8 x)"
    "proto_upd d (\<lambda>p. p\<lparr>pf_bigint := x\<rparr>) (put_be32 d 12 x)"
    "proto_upd d (\<lambda>p. p\<lparr>pf_bigint2 := x\<rparr>) (put_be32 d 16 x)"
    "proto_upd d (\<lambda>p. p\<lparr>pf_flags := b\<rparr>) (d[3 := b])"
    "proto_upd d (\<lambda>p. p\<lparr>pf_type := uint b\<rparr>) (d[2 := b])"
  using proto_okD [OF assms] assms by (simp_all add: proto_upd_def fields_of_def)

lemma proto_upd_trans:
  "proto_upd d f d' \<Longrightarrow> proto_upd d' g d'' \<Longrightarrow> proto_upd d (\<lambda>p. g (f p)) d''"
  by (simp add: proto_upd_def)

lemma proto_setters:
  assumes "proto_ok d"
  shows
    "\<exists>d'. proto_set_userid d x = Some d' \<and> proto_upd d (\<lambda>p. p\<lparr>pf_userid := x\<rparr>) d'"
    "\<exists>d'. proto_set_rolemask d x = Some d' \<and> proto_upd d (\<lambda>p. p\<lparr>pf_rolemask := x\<rparr>) d'"
    "\<exists>d'. proto_set_bigint d x = Some d' \<and> proto_upd d (\<lambda>p. p\<lparr>pf_bigint := x\<rparr>) d'"
    "\<exists>d'. proto_set_bigint2 d x = Some d' \<and> proto_upd d (\<lambda>p. p\<lparr>pf_bigint2 := x\<rparr>) d'"
    "\<exists>d'. proto_set_flags d b = Some d' \<and> proto_upd d (\<lambda>p. p\<lparr>pf_flags := b\<rparr>) d'"
    "\<exists>d'. proto_mod_flags d b c = Some d' \<and>
        proto_upd d (\<lambda>p. p\<lparr>pf_flags := if c then pf_flags p AND NOT b else pf_flags p OR b\<rparr>) d'"
proof -
  note u = proto_upd_put [OF assms]
  show "\<exists>d'. proto_set_userid d x = Some d' \<and> proto_upd d (\<lambda>p. p\<lparr>pf_userid := x\<rparr>) d'"
    "\<exists>d'. proto_set_rolemask d x = Some d' \<and> proto_upd d (\<lambda>p. p\<lparr>pf_rolemask := x\<rparr>) d'"
    "\<exists>d'. proto_set_bigint d x = Some d' \<and> proto_upd d (\<lambda>p. p\<lparr>pf_bigint := x\<rparr>) d'"
    "\<exists>d'. proto_set_bigint2 d x = Some d' \<and> proto_upd d (\<lambda>p. p\<lparr>pf_bigint2 := x\<rparr>) d'"
    "\<exists>d'. proto_set_flags d b = Some d' \<and> proto_upd d (\<lambda>p. p\<lparr>pf_flags := b\<rparr>) d'"
    using assms u by (simp_all add: proto_codec_defs proto_consts)
  show "\<exists>d'. proto_mod_flags d b c = Some d' \<and>
        proto_upd d (\<lambda>p. p\<lparr>pf_flags := if c then pf_flags p AND NOT b else pf_flags p OR b\<rparr>) d'"
    using assms u(5) [of "if c then d ! 3 AND NOT b else d ! 3 OR b"]
    by (auto simp: proto_codec_defs proto_consts proto_upd_def fields_of_def)
qed

lemma proto_getters:
  assumes "proto_ok d"
  shows "proto_get_userid d = Some (pf_userid (fields_of d))"
    "proto_get_rolemask d = Some (pf_rolemask (fields_of d))"
    "proto_get_bigint d = Some (pf_bigint (fields_of d))"
    "proto_get_bigint2 d = Some (pf_bigint2 (fields_of d))"
    "proto_get_type d = Some (pf_type (fields_of d))"
    "proto_get_flags d = Some (pf_flags (fields_of d))"
  using assms by (simp_all add: proto_codec_defs proto_consts fields_of_def)

lemma proto_not_ok:
  assumes "\<not> proto_ok d"
  shows "proto_get_userid d = None" "proto_get_rolemask d = None" "proto_get_bigint d = None"
    "proto_get_bigint2 d = None" "proto_get_type d = None" "proto_get_flags d = None"
    "proto_set_userid d x = None" "proto_set_rolemask d x = None" "proto_set_bigint d x = None"
    "proto_set_bigint2 d x = None" "proto_set_type d t = None" "proto_set_flags d b = None"
    "proto_mod_flags d b c = None"
  using assms by (simp_all add: proto_codec_defs proto_set_type_def)

text \<open>What setting the type does to the other fields.\<close>

definition type_reset :: "int \<Rightarrow> proto_fields \<Rightarrow> proto_fields" where
  "type_reset type p =
     (if type = 1 then p\<lparr>pf_type := 1, pf_bigint := 0xFFFFFFFF, pf_bigint2 := 0\<rparr>
      else if type = 2 then p\<lparr>pf_type := 2, pf_bigint := 0\<rparr>
      else p\<lparr>pf_type := type, pf_bigint := 0, pf_bigint2 := 0\<rparr>)"

definition valid_msgtype :: "int \<Rightarrow> bool" where
  "valid_msgtype t \<longleftrightarrow> t \<in> {1, 2, 4, 8}"

lemma proto_set_type_spec:
  assumes "proto_ok d"
  shows "(\<exists>d'. proto_set_type d t = Some d') \<longleftrightarrow> valid_msgtype t"
    "proto_set_type d t = Some d' \<Longrightarrow> proto_upd d (type_reset t) d'"
proof -
  show "(\<exists>d'. proto_set_type d t = Some d') \<longleftrightarrow> valid_msgtype t"
    using assms by (auto simp: proto_set_type_def valid_msgtype_def msgtype_consts proto_set_bigint_def
        proto_set_bigint2_def proto_consts)
  assume h: "proto_set_type d t = Some d'"
  then have "t = 1 \<or> t = 2 \<or> t = 4 \<or> t = 8"
    by (auto simp: proto_set_type_def msgtype_consts split: if_splits)
  then show "proto_upd d (type_reset t) d'"
    using h assms proto_okD [OF assms]
    by (auto simp: proto_set_type_def msgtype_consts proto_set_bigint_def proto_set_bigint2_def
        proto_consts proto_upd_def fields_of_def type_reset_def FLUX_NODEID_ANY_def FLUX_MATCHTAG_NONE_def)
qed

lemma proto_init_spec:
  assumes "20 \<le> length d"
  obtains d' where "proto_init d fl = Inr d'" "proto_ok d'" "length d' = length d"
    "fields_of d' = \<lparr>pf_type = 0, pf_flags = fl, pf_userid = 0xFFFFFFFF, pf_rolemask = 0,
       pf_bigint = 0, pf_bigint2 = 0\<rparr>"
proof -
  let ?d0 = "(replicate (length d) 0)[0 := 0x8e, Suc 0 := 1, 3 := fl] :: byte list"
  have "d \<noteq> []" using assms by auto
  then have ok: "proto_ok ?d0" using assms by (simp add: proto_ok_def proto_consts)
  let ?d2 = "put_be32 (put_be32 ?d0 4 0xFFFFFFFF) 8 0"
  have "proto_init d fl = Inr ?d2"
    using assms ok by (simp add: proto_init_def proto_consts proto_set_userid_def
        proto_set_rolemask_def FLUX_USERID_UNKNOWN_def FLUX_ROLE_NONE_def Let_def)
  moreover have "fields_of ?d2 = \<lparr>pf_type = 0, pf_flags = fl, pf_userid = 0xFFFFFFFF, pf_rolemask = 0,
       pf_bigint = 0, pf_bigint2 = 0\<rparr>"
    using assms by (simp add: fields_of_def) (simp add: get_be32_def)
  ultimately show ?thesis using ok that by simp
qed

end
