(* ===== verification/Aux_List.thy ===== *)
theory Aux_List
  imports Flux_Prelude "HOL-Library.Multiset"
begin

text \<open>
  Named auxiliary data attached to an object: \<^verbatim>\<open>src/common/libutil/aux.c\<close>. The C list of
  \<open>struct aux_item\<close> is a HOL list, head first; a value is an opaque pointer. The operations that
  run destructors return the values they destroyed, in the order of the calls, beside the new
  list. The head argument is never \<open>NULL\<close> in the callers.
\<close>

record 'v aux_item =
  aux_key :: "cstring option"
  aux_val :: 'v
  aux_free_fn :: bool

definition aux_item_destroy :: "'v aux_item \<Rightarrow> 'v list" where
  "aux_item_destroy item = (if aux_free_fn item then [aux_val item] else [])"

definition aux_item_create :: "cstring option \<Rightarrow> 'v \<Rightarrow> bool \<Rightarrow> 'v aux_item" where
  "aux_item_create key val free_fn = \<lparr>aux_key = key, aux_val = val, aux_free_fn = free_fn\<rparr>"

fun aux_item_delete_loop :: "'v aux_item list \<Rightarrow> cstring \<Rightarrow> 'v aux_item list \<times> 'v list" where
  "aux_item_delete_loop [] key = ([], [])"
| "aux_item_delete_loop (item # rest) key =
     (if aux_key item = Some key then (rest, aux_item_destroy item)
      else (let (rest', freed) = aux_item_delete_loop rest key in (item # rest', freed)))"

definition aux_item_delete :: "'v aux_item list \<Rightarrow> cstring option \<Rightarrow> 'v aux_item list \<times> 'v list" where
  "aux_item_delete head key =
     (case key of None \<Rightarrow> (head, []) | Some k \<Rightarrow> aux_item_delete_loop head k)"

fun aux_item_find :: "'v aux_item list \<Rightarrow> cstring option \<Rightarrow> 'v aux_item option" where
  "aux_item_find head None = None"
| "aux_item_find [] (Some key) = None"
| "aux_item_find (item # rest) (Some key) =
     (if aux_key item = Some key then Some item else aux_item_find rest (Some key))"

definition aux_item_insert :: "'v aux_item list \<Rightarrow> 'v aux_item \<Rightarrow> 'v aux_item list" where
  "aux_item_insert head item = item # head"

definition aux_get :: "'v aux_item list \<Rightarrow> cstring option \<Rightarrow> 'v result" where
  "aux_get head key =
     (if key = None then Inl EINVAL
      else case aux_item_find head key of
        None \<Rightarrow> Inl ENOENT
      | Some item \<Rightarrow> Inr (aux_val item))"

definition aux_set :: "'v aux_item list \<Rightarrow> cstring option \<Rightarrow> 'v option \<Rightarrow> bool
    \<Rightarrow> ('v aux_item list \<times> 'v list) result" where
  "aux_set head key val free_fn =
     (if (key = None \<and> val = None) \<or> (val = None \<and> free_fn) \<or> (key = None \<and> \<not> free_fn)
      then Inl EINVAL
      else
        let (head1, freed) = aux_item_delete head key in
        case val of
          None \<Rightarrow> Inr (head1, freed)
        | Some v \<Rightarrow> Inr (aux_item_insert head1 (aux_item_create key v free_fn), freed))"

fun aux_destroy :: "'v aux_item list \<Rightarrow> 'v list" where
  "aux_destroy [] = []"
| "aux_destroy (item # rest) = aux_item_destroy item @ aux_destroy rest"

subsection \<open>The list is a map from keys, and destructors run once\<close>

definition aux_wf :: "'v aux_item list \<Rightarrow> bool" where
  "aux_wf xs \<longleftrightarrow> distinct (map aux_key (filter (\<lambda>i. aux_key i \<noteq> None) xs))"

definition aux_map :: "'v aux_item list \<Rightarrow> cstring \<rightharpoonup> 'v" where
  "aux_map xs k = map_option aux_val (aux_item_find xs (Some k))"

text \<open>The destructor calls still owed by a list.\<close>

definition aux_owed :: "'v aux_item list \<Rightarrow> 'v list" where
  "aux_owed xs = map aux_val (filter aux_free_fn xs)"

lemma aux_destroy_owed: "aux_destroy xs = aux_owed xs"
  by (induction xs) (simp_all add: aux_item_destroy_def aux_owed_def)

lemma aux_delete_loop_keys:
  "aux_item_delete_loop xs k = (xs', freed) \<Longrightarrow>
     map aux_key xs' = remove1 (Some k) (map aux_key xs)"
  by (induction xs arbitrary: xs') (auto split: if_splits prod.splits)

lemma aux_delete_loop_set:
  "aux_item_delete_loop xs k = (xs', freed) \<Longrightarrow> set xs' \<subseteq> set xs"
  by (induction xs arbitrary: xs') (auto split: if_splits prod.splits)

lemma aux_keys_wf: "aux_wf xs \<longleftrightarrow> distinct (filter (\<lambda>k. k \<noteq> None) (map aux_key xs))"
  by (simp add: aux_wf_def filter_map comp_def)

lemma aux_delete_loop_wf:
  assumes "aux_item_delete_loop xs k = (xs', freed)" and "aux_wf xs"
  shows "aux_wf xs'" "Some k \<notin> set (map aux_key xs')"
proof -
  let ?ks = "map aux_key xs"
  have d: "distinct (filter (\<lambda>k. k \<noteq> None) ?ks)" using assms(2) by (simp add: aux_keys_wf)
  have f: "filter (\<lambda>k. k \<noteq> None) (remove1 (Some k) ?ks) = remove1 (Some k) (filter (\<lambda>k. k \<noteq> None) ?ks)"
    by (simp add: filter_remove1)
  with d show "aux_wf xs'"
    unfolding aux_keys_wf aux_delete_loop_keys [OF assms(1)] by simp
  have "Some k \<notin> set (filter (\<lambda>k. k \<noteq> None) (remove1 (Some k) ?ks))"
    unfolding f using d by simp
  then show "Some k \<notin> set (map aux_key xs')"
    unfolding aux_delete_loop_keys [OF assms(1)] by simp
qed

lemma aux_find_delete_other:
  "aux_item_delete_loop xs k = (xs', freed) \<Longrightarrow> k' \<noteq> k \<Longrightarrow>
     aux_item_find xs' (Some k') = aux_item_find xs (Some k')"
  by (induction xs arbitrary: xs') (auto split: if_splits prod.splits)

lemma aux_find_absent: "Some k \<notin> set (map aux_key xs) \<Longrightarrow> aux_item_find xs (Some k) = None"
  by (induction xs) auto

lemma aux_delete_loop_owed:
  "aux_item_delete_loop xs k = (xs', freed) \<Longrightarrow> mset (aux_owed xs) = mset freed + mset (aux_owed xs')"
  by (induction xs arbitrary: xs' freed)
    (auto simp: aux_owed_def aux_item_destroy_def split: if_splits prod.splits)

lemma aux_set_named_cases:
  assumes "aux_set xs (Some k) v f = Inr (xs', freed)"
  obtains ys where "aux_item_delete_loop xs k = (ys, freed)" "\<not> (v = None \<and> f)"
    "xs' = (case v of None \<Rightarrow> ys | Some x \<Rightarrow> \<lparr>aux_key = Some k, aux_val = x, aux_free_fn = f\<rparr> # ys)"
  using assms
  by (auto simp: aux_set_def aux_item_delete_def aux_item_insert_def aux_item_create_def
      split: if_splits prod.splits option.splits)

subsection \<open>Properties\<close>

text \<open>C26: setting a named item is a map update. On a list without duplicate keys a successful
  \<open>aux_set\<close> leaves a list without duplicate keys whose map is the old one updated at the key
  (removed for a \<open>NULL\<close> value); the destructor calls made now and those still owed are, with
  multiplicity, those owed before plus the one of the new item.\<close>

theorem aux_set_refines_map_update:
  assumes "aux_wf xs" and "aux_set xs (Some k) v f = Inr (xs', freed)"
  shows "aux_wf xs' \<and> aux_map xs' = (aux_map xs)(k := v) \<and>
    mset freed + mset (aux_owed xs') = mset (aux_owed xs) + (if f then mset_set (set_option v) else {#})"
proof -
  from assms(2) obtain ys where d: "aux_item_delete_loop xs k = (ys, freed)" and f: "\<not> (v = None \<and> f)"
    and xs': "xs' = (case v of None \<Rightarrow> ys | Some x \<Rightarrow> \<lparr>aux_key = Some k, aux_val = x, aux_free_fn = f\<rparr> # ys)"
    by (rule aux_set_named_cases)
  note wf = aux_delete_loop_wf [OF d assms(1)]
  have "aux_map xs' k' = ((aux_map xs)(k := v)) k'" for k'
    using aux_find_delete_other [OF d, of k'] aux_find_absent [OF wf(2)] xs'
    by (auto simp: aux_map_def split: option.splits)
  moreover have "aux_wf xs'"
    using wf xs' by (auto simp: aux_keys_wf split: option.splits)
  ultimately show ?thesis
    using aux_delete_loop_owed [OF d] f xs' by (auto simp: aux_owed_def split: option.splits)
qed

theorem aux_set_refines_map_update_witness:
  "aux_wf [\<lparr>aux_key = Some [1], aux_val = (7 :: nat), aux_free_fn = True\<rparr>] \<and>
   aux_set [\<lparr>aux_key = Some [1], aux_val = (7 :: nat), aux_free_fn = True\<rparr>] (Some [1]) (Some 8) True
     = Inr ([\<lparr>aux_key = Some [1], aux_val = (8 :: nat), aux_free_fn = True\<rparr>], [7]) \<and>
   aux_map [\<lparr>aux_key = Some [1], aux_val = (8 :: nat), aux_free_fn = True\<rparr>]
     = (aux_map [\<lparr>aux_key = Some [1], aux_val = (7 :: nat), aux_free_fn = True\<rparr>])([1] := Some 8)"
proof -
  let ?a = "[\<lparr>aux_key = Some [1], aux_val = (7 :: nat), aux_free_fn = True\<rparr>]"
  have wf: "aux_wf ?a" by (simp add: aux_wf_def)
  have "aux_set ?a (Some [1]) (Some 8) True
     = Inr ([\<lparr>aux_key = Some [1], aux_val = (8 :: nat), aux_free_fn = True\<rparr>], [7])"
    by (simp add: aux_set_def aux_item_delete_def aux_item_destroy_def aux_item_insert_def aux_item_create_def)
  then show ?thesis using aux_set_refines_map_update [OF wf] wf by blast
qed

end
