(* ===== verification/Message.thy ===== *)
theory Message
  imports Proto Aux_List
begin

text \<open>
  Flux messages: \<^verbatim>\<open>src/common/libflux/message.c\<close>. A message is a stack of frames: an optional
  route stack closed by an empty delimiter frame, an optional topic, an optional payload and the
  protocol frame, whose flags say which of the optional parts are there.

  The \<open>zmsg_t\<close> of the C structure is the list of its frames, first frame first, and a frame is
  the list of its bytes. \<open>zmsg_first\<close>, \<open>zmsg_next\<close> and \<open>zmsg_last\<close> walk that list,
  \<open>zmsg_pushmem\<close> adds a frame in front, \<open>zmsg_append\<close> and \<open>zmsg_addmem\<close> at the end,
  \<open>zmsg_pop\<close> takes the first frame off and \<open>zmsg_remove\<close> unlinks the frame the cursor is at.
  Allocation is assumed to succeed. A \<open>char *\<close> is the list of the bytes before its terminating
  \<open>NUL\<close>; an output string read out of a frame therefore stops at the first zero byte. An
  operation that changes the message returns the new message. JSON values and the calls into the
  JSON library are parameters.
\<close>

unbundle bit_operations_syntax

subsection \<open>Data\<close>

definition FLUX_MSGFLAG_TOPIC :: byte where "FLUX_MSGFLAG_TOPIC = 0x01"
definition FLUX_MSGFLAG_PAYLOAD :: byte where "FLUX_MSGFLAG_PAYLOAD = 0x02"
definition FLUX_MSGFLAG_ROUTE :: byte where "FLUX_MSGFLAG_ROUTE = 0x08"
definition FLUX_MSGFLAG_UPSTREAM :: byte where "FLUX_MSGFLAG_UPSTREAM = 0x10"
definition FLUX_MSGFLAG_PRIVATE :: byte where "FLUX_MSGFLAG_PRIVATE = 0x20"
definition FLUX_MATCHTAG_GROUP_SHIFT :: nat where "FLUX_MATCHTAG_GROUP_SHIFT = 20"

lemmas msgflag_consts =
  FLUX_MSGFLAG_TOPIC_def FLUX_MSGFLAG_PAYLOAD_def FLUX_MSGFLAG_ROUTE_def
  FLUX_MSGFLAG_UPSTREAM_def FLUX_MSGFLAG_PRIVATE_def

type_synonym frame = "byte list"

record ('j, 'v) flux_msg =
  zmsg :: "frame list"
  json :: "'j option"
  msg_aux :: "'v aux_item list"

record flux_match =
  typemask :: int
  matchtag :: uint32
  topic_glob :: "cstring option"

definition zmsg_last :: "frame list \<Rightarrow> frame option" where
  "zmsg_last fs = (if fs = [] then None else Some (last fs))"

definition set_last :: "('j, 'v) flux_msg \<Rightarrow> frame \<Rightarrow> ('j, 'v) flux_msg" where
  "set_last msg zf = msg\<lparr>zmsg := butlast (zmsg msg) @ [zf]\<rparr>"

text \<open>The shape the setters of the protocol frame share: no last frame, or a codec that fails,
  is the error; otherwise the last frame is overwritten in place.\<close>

definition update_proto :: "error \<Rightarrow> ('j, 'v) flux_msg \<Rightarrow> (frame \<Rightarrow> frame option) \<Rightarrow> ('j, 'v) flux_msg result" where
  "update_proto e msg f =
     (case zmsg_last (zmsg msg) of
        None \<Rightarrow> Inl e
      | Some zf \<Rightarrow> (case f zf of None \<Rightarrow> Inl e | Some zf' \<Rightarrow> Inr (set_last msg zf')))"

definition read_proto :: "error \<Rightarrow> ('j, 'v) flux_msg \<Rightarrow> (frame \<Rightarrow> 'a option) \<Rightarrow> 'a result" where
  "read_proto e msg f =
     (case zmsg_last (zmsg msg) of
        None \<Rightarrow> Inl e
      | Some zf \<Rightarrow> (case f zf of None \<Rightarrow> Inl e | Some x \<Rightarrow> Inr x))"

subsection \<open>Creation and auxiliary data\<close>

definition flux_msg_create :: "int \<Rightarrow> ('j, 'v) flux_msg result" where
  "flux_msg_create type =
     bind_result (proto_init (replicate PROTO_SIZE 0) 0) (\<lambda>proto.
       case proto_set_type proto type of
         None \<Rightarrow> Inl EINVAL
       | Some proto' \<Rightarrow> Inr \<lparr>zmsg = [proto'], json = None, msg_aux = []\<rparr>)"

definition flux_msg_aux_set :: "('j, 'v) flux_msg \<Rightarrow> cstring option \<Rightarrow> 'v option \<Rightarrow> bool
    \<Rightarrow> (('j, 'v) flux_msg \<times> 'v list) result" where
  "flux_msg_aux_set msg name aux destroy =
     bind_result (aux_set (msg_aux msg) name aux destroy) (\<lambda>(head, freed).
       Inr (msg\<lparr>msg_aux := head\<rparr>, freed))"

definition flux_msg_aux_get :: "('j, 'v) flux_msg \<Rightarrow> cstring option \<Rightarrow> 'v result" where
  "flux_msg_aux_get msg name = aux_get (msg_aux msg) name"

subsection \<open>Wire encoding\<close>

definition be32_bytes :: "uint32 \<Rightarrow> byte list" where
  "be32_bytes x = [ucast (drop_bit 24 x), ucast (drop_bit 16 x), ucast (drop_bit 8 x), ucast x]"

fun encode_size_loop :: "frame list \<Rightarrow> nat \<Rightarrow> nat" where
  "encode_size_loop [] sz = sz"
| "encode_size_loop (zf # rest) sz =
     (let n = length zf in
      encode_size_loop rest (sz + (if n < 255 then 1 else 1 + 4) + n))"

definition flux_msg_encode_size :: "('j, 'v) flux_msg \<Rightarrow> nat" where
  "flux_msg_encode_size msg = encode_size_loop (zmsg msg) 0"

text \<open>\<open>out\<close> is the part of the buffer before the write pointer \<open>p\<close>.\<close>

fun encode_loop :: "frame list \<Rightarrow> byte list \<Rightarrow> nat \<Rightarrow> byte list result" where
  "encode_loop [] out sz = Inr out"
| "encode_loop (zf # rest) out sz =
     (let n = length zf in
      if n < 0xff then
        (if sz - length out < n + 1 then Inl EINVAL
         else encode_loop rest (out @ [of_nat n] @ zf) sz)
      else
        (if sz - length out < n + 1 + 4 then Inl EINVAL
         else encode_loop rest (out @ [0xff] @ be32_bytes (of_nat n) @ zf) sz))"

definition flux_msg_encode :: "('j, 'v) flux_msg \<Rightarrow> nat \<Rightarrow> byte list result" where
  "flux_msg_encode msg sz = encode_loop (zmsg msg) [] sz"

text \<open>The buffer is the memory that \<open>buf\<close> may be read from, \<open>sz\<close> what the caller says of its length
  and \<open>i\<close> the offset of \<open>p\<close>. Every access to a byte outside the buffer is the error \<open>OutOfBounds\<close>:
  at the length byte, at the four bytes of a long length and in the copy of a frame.\<close>

function decode_loop :: "byte list \<Rightarrow> nat \<Rightarrow> nat \<Rightarrow> frame list \<Rightarrow> frame list result" where
  "decode_loop buf sz i frames =
     (if i < sz then
        if length buf \<le> i then Inl OutOfBounds
        else
          let b = buf ! i; i = i + 1;
              header = (if b = 0xff then
                          if sz - i < 4 then Inl EINVAL
                          else if length buf < i + 4 then Inl OutOfBounds
                          else Inr (unat (get_be32 buf i), i + 4)
                        else Inr (unat b, i))
          in case header of
               Inl e \<Rightarrow> Inl e
             | Inr (n, i) \<Rightarrow>
                 if sz - i < n then Inl EINVAL
                 else if length buf < i + n then Inl OutOfBounds
                 else decode_loop buf sz (i + n) (frames @ [take n (drop i buf)])
      else Inr frames)"
  by pat_completeness auto
termination
  by (relation "measure (\<lambda>(buf, sz, i, frames). length buf - i)") (auto split: if_splits)

declare decode_loop.simps [simp del]

definition flux_msg_decode :: "byte list \<Rightarrow> nat \<Rightarrow> ('j, 'v) flux_msg result" where
  "flux_msg_decode buf sz =
     bind_result (decode_loop buf sz 0 []) (\<lambda>frames. Inr \<lparr>zmsg = frames, json = None, msg_aux = []\<rparr>)"

subsection \<open>Fields of the protocol frame\<close>

definition flux_msg_set_type :: "('j, 'v) flux_msg \<Rightarrow> int \<Rightarrow> ('j, 'v) flux_msg result" where
  "flux_msg_set_type msg type = update_proto EINVAL msg (\<lambda>zf. proto_set_type zf type)"

definition flux_msg_get_type :: "('j, 'v) flux_msg \<Rightarrow> int result" where
  "flux_msg_get_type msg = read_proto EPROTO msg proto_get_type"

definition flux_msg_set_flags :: "('j, 'v) flux_msg \<Rightarrow> byte \<Rightarrow> ('j, 'v) flux_msg result" where
  "flux_msg_set_flags msg fl = update_proto EINVAL msg (\<lambda>zf. proto_set_flags zf fl)"

definition flux_msg_get_flags :: "('j, 'v) flux_msg \<Rightarrow> byte result" where
  "flux_msg_get_flags msg = read_proto EPROTO msg proto_get_flags"

definition has_flag :: "byte \<Rightarrow> byte \<Rightarrow> bool" where
  "has_flag flags m \<longleftrightarrow> flags AND m \<noteq> 0"

definition flux_msg_set_private :: "('j, 'v) flux_msg \<Rightarrow> ('j, 'v) flux_msg result" where
  "flux_msg_set_private msg =
     bind_result (flux_msg_get_flags msg) (\<lambda>flags.
       flux_msg_set_flags msg (flags OR FLUX_MSGFLAG_PRIVATE))"

definition flux_msg_is_private :: "('j, 'v) flux_msg \<Rightarrow> bool" where
  "flux_msg_is_private msg =
     (case flux_msg_get_flags msg of
        Inl _ \<Rightarrow> True
      | Inr flags \<Rightarrow> has_flag flags FLUX_MSGFLAG_PRIVATE)"

definition flux_msg_set_userid :: "('j, 'v) flux_msg \<Rightarrow> uint32 \<Rightarrow> ('j, 'v) flux_msg result" where
  "flux_msg_set_userid msg userid = update_proto EINVAL msg (\<lambda>zf. proto_set_userid zf userid)"

definition flux_msg_get_userid :: "('j, 'v) flux_msg \<Rightarrow> uint32 result" where
  "flux_msg_get_userid msg = read_proto EPROTO msg proto_get_userid"

definition flux_msg_set_rolemask :: "('j, 'v) flux_msg \<Rightarrow> uint32 \<Rightarrow> ('j, 'v) flux_msg result" where
  "flux_msg_set_rolemask msg rolemask = update_proto EINVAL msg (\<lambda>zf. proto_set_rolemask zf rolemask)"

definition flux_msg_get_rolemask :: "('j, 'v) flux_msg \<Rightarrow> uint32 result" where
  "flux_msg_get_rolemask msg = read_proto EPROTO msg proto_get_rolemask"

definition flux_msg_set_nodeid :: "('j, 'v) flux_msg \<Rightarrow> uint32 \<Rightarrow> int \<Rightarrow> ('j, 'v) flux_msg result" where
  "flux_msg_set_nodeid msg nodeid flags =
     (if flags \<noteq> 0 \<and> flags \<noteq> uint FLUX_MSGFLAG_UPSTREAM then Inl EINVAL
      else if nodeid = FLUX_NODEID_UPSTREAM then Inl EINVAL
      else if flags = uint FLUX_MSGFLAG_UPSTREAM \<and> nodeid = FLUX_NODEID_ANY then Inl EINVAL
      else update_proto EINVAL msg (\<lambda>zf.
        case proto_get_type zf of
          None \<Rightarrow> None
        | Some type \<Rightarrow>
            if type \<noteq> FLUX_MSGTYPE_REQUEST then None
            else (case proto_set_bigint zf nodeid of
                    None \<Rightarrow> None
                  | Some zf1 \<Rightarrow> proto_mod_flags zf1 (word_of_int flags) False)))"

definition flux_msg_get_nodeid :: "('j, 'v) flux_msg \<Rightarrow> (uint32 \<times> int) result" where
  "flux_msg_get_nodeid msg = read_proto EPROTO msg (\<lambda>zf.
     case (proto_get_type zf, proto_get_bigint zf, proto_get_flags zf) of
       (Some type, Some nid, Some fl) \<Rightarrow>
         if type \<noteq> FLUX_MSGTYPE_REQUEST then None
         else if has_flag fl FLUX_MSGFLAG_UPSTREAM \<and> nid = FLUX_NODEID_ANY then None
         else if nid = FLUX_NODEID_UPSTREAM then None
         else Some (nid, uint (fl AND FLUX_MSGFLAG_UPSTREAM))
     | _ \<Rightarrow> None)"

definition set_bigint_if :: "(int \<Rightarrow> bool) \<Rightarrow> uint32 \<Rightarrow> frame \<Rightarrow> frame option" where
  "set_bigint_if ok x zf =
     (case proto_get_type zf of
        None \<Rightarrow> None
      | Some type \<Rightarrow> if ok type then proto_set_bigint zf x else None)"

definition get_bigint_if :: "(int \<Rightarrow> bool) \<Rightarrow> frame \<Rightarrow> uint32 option" where
  "get_bigint_if ok zf =
     (case proto_get_type zf of
        None \<Rightarrow> None
      | Some type \<Rightarrow> if ok type then proto_get_bigint zf else None)"

definition set_bigint2_if :: "(int \<Rightarrow> bool) \<Rightarrow> uint32 \<Rightarrow> frame \<Rightarrow> frame option" where
  "set_bigint2_if ok x zf =
     (case proto_get_type zf of
        None \<Rightarrow> None
      | Some type \<Rightarrow> if ok type then proto_set_bigint2 zf x else None)"

definition get_bigint2_if :: "(int \<Rightarrow> bool) \<Rightarrow> frame \<Rightarrow> uint32 option" where
  "get_bigint2_if ok zf =
     (case proto_get_type zf of
        None \<Rightarrow> None
      | Some type \<Rightarrow> if ok type then proto_get_bigint2 zf else None)"

definition flux_msg_set_errnum :: "('j, 'v) flux_msg \<Rightarrow> int \<Rightarrow> ('j, 'v) flux_msg result" where
  "flux_msg_set_errnum msg e =
     update_proto EINVAL msg
       (set_bigint_if (\<lambda>type. type = FLUX_MSGTYPE_RESPONSE \<or> type = FLUX_MSGTYPE_KEEPALIVE) (word_of_int e))"

definition flux_msg_get_errnum :: "('j, 'v) flux_msg \<Rightarrow> int result" where
  "flux_msg_get_errnum msg =
     bind_result (read_proto EPROTO msg
       (get_bigint_if (\<lambda>type. type = FLUX_MSGTYPE_RESPONSE \<or> type = FLUX_MSGTYPE_KEEPALIVE)))
       (\<lambda>xe. Inr (sint xe))"

definition flux_msg_set_seq :: "('j, 'v) flux_msg \<Rightarrow> uint32 \<Rightarrow> ('j, 'v) flux_msg result" where
  "flux_msg_set_seq msg s = update_proto EINVAL msg (set_bigint_if (\<lambda>type. type = FLUX_MSGTYPE_EVENT) s)"

definition flux_msg_get_seq :: "('j, 'v) flux_msg \<Rightarrow> uint32 result" where
  "flux_msg_get_seq msg = read_proto EPROTO msg (get_bigint_if (\<lambda>type. type = FLUX_MSGTYPE_EVENT))"

definition flux_msg_set_matchtag :: "('j, 'v) flux_msg \<Rightarrow> uint32 \<Rightarrow> ('j, 'v) flux_msg result" where
  "flux_msg_set_matchtag msg t =
     update_proto EINVAL msg
       (set_bigint2_if (\<lambda>type. type = FLUX_MSGTYPE_REQUEST \<or> type = FLUX_MSGTYPE_RESPONSE) t)"

definition flux_msg_get_matchtag :: "('j, 'v) flux_msg \<Rightarrow> uint32 result" where
  "flux_msg_get_matchtag msg =
     read_proto EPROTO msg
       (get_bigint2_if (\<lambda>type. type = FLUX_MSGTYPE_REQUEST \<or> type = FLUX_MSGTYPE_RESPONSE))"

definition flux_msg_set_status :: "('j, 'v) flux_msg \<Rightarrow> int \<Rightarrow> ('j, 'v) flux_msg result" where
  "flux_msg_set_status msg s =
     update_proto EINVAL msg (set_bigint2_if (\<lambda>type. type = FLUX_MSGTYPE_KEEPALIVE) (word_of_int s))"

definition flux_msg_get_status :: "('j, 'v) flux_msg \<Rightarrow> int result" where
  "flux_msg_get_status msg =
     bind_result (read_proto EPROTO msg (get_bigint2_if (\<lambda>type. type = FLUX_MSGTYPE_KEEPALIVE)))
       (\<lambda>u. Inr (sint u))"

subsection \<open>The route stack\<close>

definition flux_msg_enable_route :: "('j, 'v) flux_msg \<Rightarrow> ('j, 'v) flux_msg result" where
  "flux_msg_enable_route msg =
     bind_result (flux_msg_get_flags msg) (\<lambda>flags.
       if has_flag flags FLUX_MSGFLAG_ROUTE then Inr msg
       else flux_msg_set_flags (msg\<lparr>zmsg := [] # zmsg msg\<rparr>) (flags OR FLUX_MSGFLAG_ROUTE))"

text \<open>Pop frames until an empty one has been popped, or none is left.\<close>

fun pop_to_delim :: "frame list \<Rightarrow> frame list" where
  "pop_to_delim [] = []"
| "pop_to_delim (zf # rest) = (if length zf = 0 then rest else pop_to_delim rest)"

definition flux_msg_clear_route :: "('j, 'v) flux_msg \<Rightarrow> ('j, 'v) flux_msg result" where
  "flux_msg_clear_route msg =
     bind_result (flux_msg_get_flags msg) (\<lambda>flags.
       if \<not> has_flag flags FLUX_MSGFLAG_ROUTE then Inr msg
       else flux_msg_set_flags (msg\<lparr>zmsg := pop_to_delim (zmsg msg)\<rparr>) (flags AND NOT FLUX_MSGFLAG_ROUTE))"

definition flux_msg_push_route :: "('j, 'v) flux_msg \<Rightarrow> cstring \<Rightarrow> ('j, 'v) flux_msg result" where
  "flux_msg_push_route msg rid =
     bind_result (flux_msg_get_flags msg) (\<lambda>flags.
       if \<not> has_flag flags FLUX_MSGFLAG_ROUTE then Inl EPROTO
       else Inr (msg\<lparr>zmsg := rid # zmsg msg\<rparr>))"

definition flux_msg_pop_route :: "('j, 'v) flux_msg \<Rightarrow> (('j, 'v) flux_msg \<times> cstring option) result" where
  "flux_msg_pop_route msg =
     bind_result (flux_msg_get_flags msg) (\<lambda>flags.
       if \<not> has_flag flags FLUX_MSGFLAG_ROUTE then Inl EPROTO
       else case zmsg msg of
         [] \<Rightarrow> Inl EPROTO
       | zf # rest \<Rightarrow>
           if length zf > 0 then Inr (msg\<lparr>zmsg := rest\<rparr>, Some zf) else Inr (msg, None))"

definition flux_msg_get_route_last :: "('j, 'v) flux_msg \<Rightarrow> cstring option result" where
  "flux_msg_get_route_last msg =
     bind_result (flux_msg_get_flags msg) (\<lambda>flags.
       if \<not> has_flag flags FLUX_MSGFLAG_ROUTE then Inl EPROTO
       else case zmsg msg of
         [] \<Rightarrow> Inl EPROTO
       | zf # rest \<Rightarrow> Inr (if length zf > 0 then Some zf else None))"

fun route_first_loop :: "frame list \<Rightarrow> frame option" where
  "route_first_loop [] = None"
| "route_first_loop (zf # rest) =
     (if length zf > 0 then
        (case rest of
           [] \<Rightarrow> None
         | zf_next # _ \<Rightarrow> if length zf_next = 0 then Some zf else route_first_loop rest)
      else Some zf)"

definition flux_msg_get_route_first :: "('j, 'v) flux_msg \<Rightarrow> cstring option result" where
  "flux_msg_get_route_first msg =
     bind_result (flux_msg_get_flags msg) (\<lambda>flags.
       if \<not> has_flag flags FLUX_MSGFLAG_ROUTE then Inl EPROTO
       else case route_first_loop (zmsg msg) of
         None \<Rightarrow> Inl EPROTO
       | Some zf \<Rightarrow> Inr (if length zf > 0 then Some zf else None))"

fun route_count_loop :: "frame list \<Rightarrow> nat \<Rightarrow> nat" where
  "route_count_loop [] cnt = cnt"
| "route_count_loop (zf # rest) cnt =
     (if length zf > 0 then route_count_loop rest (cnt + 1) else cnt)"

definition flux_msg_get_route_count :: "('j, 'v) flux_msg \<Rightarrow> nat result" where
  "flux_msg_get_route_count msg =
     bind_result (flux_msg_get_flags msg) (\<lambda>flags.
       if \<not> has_flag flags FLUX_MSGFLAG_ROUTE then Inl EPROTO
       else Inr (route_count_loop (zmsg msg) 0))"

fun route_size_loop :: "frame list \<Rightarrow> nat \<Rightarrow> nat" where
  "route_size_loop [] sz = sz"
| "route_size_loop (zf # rest) sz =
     (if length zf > 0 then route_size_loop rest (sz + length zf) else sz)"

definition flux_msg_get_route_size :: "('j, 'v) flux_msg \<Rightarrow> nat result" where
  "flux_msg_get_route_size msg =
     bind_result (flux_msg_get_flags msg) (\<lambda>flags.
       if \<not> has_flag flags FLUX_MSGFLAG_ROUTE then Inl EPROTO
       else Inr (route_size_loop (zmsg msg) 0))"

fun route_nth_loop :: "frame list \<Rightarrow> nat \<Rightarrow> nat \<Rightarrow> frame option" where
  "route_nth_loop [] cnt n = None"
| "route_nth_loop (zf # rest) cnt n =
     (if length zf > 0 then
        if cnt = n then Some zf else route_nth_loop rest (cnt + 1) n
      else None)"

definition flux_msg_get_route_nth :: "('j, 'v) flux_msg \<Rightarrow> nat \<Rightarrow> frame result" where
  "flux_msg_get_route_nth msg n =
     bind_result (flux_msg_get_flags msg) (\<lambda>flags.
       if \<not> has_flag flags FLUX_MSGFLAG_ROUTE then Inl EPROTO
       else case route_nth_loop (zmsg msg) 0 n of None \<Rightarrow> Inl ENOENT | Some zf \<Rightarrow> Inr zf)"

text \<open>The loop of \<open>flux_msg_get_route_string\<close> counts \<open>n\<close> down from \<open>hops - 1\<close>; the first
  argument is \<open>n + 1\<close>, \<open>buf\<close> the bytes written so far and \<open>lim\<close> is \<open>len + hops\<close>.\<close>

fun route_string_loop :: "nat \<Rightarrow> ('j, 'v) flux_msg \<Rightarrow> nat \<Rightarrow> byte list \<Rightarrow> byte list result" where
  "route_string_loop 0 msg lim buf = Inr buf"
| "route_string_loop (Suc n) msg lim buf =
     (let buf1 = (if length buf > 0 then buf @ cstr ''!'' else buf) in
      case flux_msg_get_route_nth msg n of
        Inl e \<Rightarrow> Inl e
      | Inr zf \<Rightarrow>
          let cpylen = (if length zf = 32 then 5 else length zf) in
          if length buf1 + cpylen < lim then route_string_loop n msg lim (buf1 @ take cpylen zf)
          else Inl AssertFailed)"

definition flux_msg_get_route_string :: "('j, 'v) flux_msg \<Rightarrow> cstring result" where
  "flux_msg_get_route_string msg =
     bind_result (flux_msg_get_route_count msg) (\<lambda>hops.
     bind_result (flux_msg_get_route_size msg) (\<lambda>len.
       route_string_loop hops msg (len + hops) []))"

subsection \<open>Matching\<close>

definition flux_msg_cmp_matchtag :: "('j, 'v) flux_msg \<Rightarrow> uint32 \<Rightarrow> bool" where
  "flux_msg_cmp_matchtag msg mtag =
     (if (case flux_msg_get_route_count msg of Inl _ \<Rightarrow> False | Inr cnt \<Rightarrow> cnt > 0) then False
      else case flux_msg_get_matchtag msg of
        Inl _ \<Rightarrow> False
      | Inr tag \<Rightarrow>
          let matchgroup = drop_bit FLUX_MATCHTAG_GROUP_SHIFT mtag in
          if matchgroup > 0 \<and> drop_bit FLUX_MATCHTAG_GROUP_SHIFT tag \<noteq> matchgroup then False
          else if matchgroup = 0 \<and> tag \<noteq> mtag then False
          else True)"

definition isa_glob :: "cstring \<Rightarrow> bool" where
  "isa_glob s \<longleftrightarrow> 0x2a \<in> set s \<or> 0x3f \<in> set s"

subsection \<open>Topic and payload\<close>

text \<open>Walking over the route frames and their delimiter: the frames passed and the frames from
  the cursor on. Without a delimiter the cursor ends at \<open>NULL\<close>, here the empty list.\<close>

definition skip_route :: "byte \<Rightarrow> frame list \<Rightarrow> frame list \<times> frame list" where
  "skip_route flags frames =
     (if has_flag flags FLUX_MSGFLAG_ROUTE then
        let n = length (takeWhile (\<lambda>zf. length zf > 0) frames)
        in (take (n + 1) frames, drop (n + 1) frames)
      else ([], frames))"

definition skip_topic :: "byte \<Rightarrow> frame list \<times> frame list \<Rightarrow> frame list \<times> frame list" where
  "skip_topic flags cur =
     (if has_flag flags FLUX_MSGFLAG_TOPIC then
        (case cur of (pre, []) \<Rightarrow> (pre, []) | (pre, zf # rest) \<Rightarrow> (pre @ [zf], rest))
      else cur)"

text \<open>The buffer argument of \<open>flux_msg_set_payload\<close>: \<open>NULL\<close>, memory outside of the message, or a
  pointer into the message's own payload frame.\<close>

datatype payload_arg = NullBuf | ExtBuf "byte list" | SelfBuf nat

definition payload_overlap :: "payload_arg \<Rightarrow> frame \<Rightarrow> bool" where
  "payload_overlap b zf = (case b of SelfBuf off \<Rightarrow> off < length zf | _ \<Rightarrow> False)"

text \<open>The \<open>size\<close> bytes at the buffer argument, \<open>old\<close> being the frame at the cursor. A copy of more
  bytes than the memory there has is an \<open>OutOfBounds\<close>.\<close>

definition buf_bytes :: "payload_arg \<Rightarrow> frame \<Rightarrow> int \<Rightarrow> byte list result" where
  "buf_bytes b old sz =
     (let bs = (case b of NullBuf \<Rightarrow> [] | ExtBuf bs \<Rightarrow> bs | SelfBuf off \<Rightarrow> drop off old)
      in if length bs < nat sz then Inl OutOfBounds else Inr (take (nat sz) bs))"

definition flux_msg_set_payload :: "('j, 'v) flux_msg \<Rightarrow> payload_arg \<Rightarrow> int
    \<Rightarrow> ('j, 'v) flux_msg result" where
  "flux_msg_set_payload msg0 buf sz =
     (let msg = msg0\<lparr>json := None\<rparr> in
      bind_result (flux_msg_get_flags msg) (\<lambda>flags.
      if \<not> has_flag flags FLUX_MSGFLAG_PAYLOAD \<and> (buf = NullBuf \<or> sz = 0) then Inr msg
      else case skip_topic flags (skip_route flags (zmsg msg)) of
        (pre, []) \<Rightarrow> Inl EPROTO
      | (pre, zf # rest) \<Rightarrow>
          if has_flag flags FLUX_MSGFLAG_PAYLOAD \<and> (buf \<noteq> NullBuf \<and> sz > 0) then
            (if buf \<noteq> SelfBuf 0 \<or> int (length zf) \<noteq> sz then
               (if payload_overlap buf zf then Inl EINVAL
                else bind_result (buf_bytes buf zf sz) (\<lambda>bs.
                  flux_msg_set_flags (msg\<lparr>zmsg := pre @ bs # rest\<rparr>) flags))
             else flux_msg_set_flags msg flags)
          else if \<not> has_flag flags FLUX_MSGFLAG_PAYLOAD \<and> (buf \<noteq> NullBuf \<and> sz > 0) then
            bind_result (buf_bytes buf zf sz) (\<lambda>bs.
              flux_msg_set_flags (msg\<lparr>zmsg := (pre @ rest) @ [bs] @ [zf]\<rparr>) (flags OR FLUX_MSGFLAG_PAYLOAD))
          else if has_flag flags FLUX_MSGFLAG_PAYLOAD \<and> (buf = NullBuf \<or> sz = 0) then
            flux_msg_set_flags (msg\<lparr>zmsg := pre @ rest\<rparr>) (flags AND NOT FLUX_MSGFLAG_PAYLOAD)
          else flux_msg_set_flags msg flags))"

definition flux_msg_get_payload :: "('j, 'v) flux_msg \<Rightarrow> frame result" where
  "flux_msg_get_payload msg =
     bind_result (flux_msg_get_flags msg) (\<lambda>flags.
       if \<not> has_flag flags FLUX_MSGFLAG_PAYLOAD then Inl EPROTO
       else case skip_topic flags (skip_route flags (zmsg msg)) of
         (pre, []) \<Rightarrow> Inl EPROTO
       | (pre, zf # rest) \<Rightarrow> Inr zf)"

definition flux_msg_has_payload :: "('j, 'v) flux_msg \<Rightarrow> bool" where
  "flux_msg_has_payload msg =
     (case flux_msg_get_flags msg of Inl _ \<Rightarrow> False | Inr flags \<Rightarrow> has_flag flags FLUX_MSGFLAG_PAYLOAD)"

definition flux_msg_set_string :: "('j, 'v) flux_msg \<Rightarrow> cstring option \<Rightarrow> ('j, 'v) flux_msg result" where
  "flux_msg_set_string msg s =
     (case s of
        Some str \<Rightarrow> flux_msg_set_payload msg (ExtBuf (str @ [0])) (int (length str) + 1)
      | None \<Rightarrow> flux_msg_set_payload msg NullBuf 0)"

definition flux_msg_get_string :: "('j, 'v) flux_msg \<Rightarrow> cstring option result" where
  "flux_msg_get_string msg =
     (case flux_msg_get_payload msg of
        Inl _ \<Rightarrow> Inr None
      | Inr buf \<Rightarrow>
          if length buf = 0 \<or> buf ! (length buf - 1) \<noteq> 0 then Inl EPROTO
          else Inr (Some (takeWhile (\<lambda>b. b \<noteq> 0) buf)))"

definition flux_msg_set_topic :: "('j, 'v) flux_msg \<Rightarrow> cstring option \<Rightarrow> ('j, 'v) flux_msg result" where
  "flux_msg_set_topic msg topic =
     bind_result (flux_msg_get_flags msg) (\<lambda>flags.
     case skip_route flags (zmsg msg) of
       (pre, []) \<Rightarrow> Inl EPROTO
     | (pre, zf # rest) \<Rightarrow>
         (case topic of
            Some t \<Rightarrow>
              if has_flag flags FLUX_MSGFLAG_TOPIC then
                Inr (msg\<lparr>zmsg := pre @ (t @ [0]) # rest\<rparr>)
              else
                let zf2 = (if has_flag flags FLUX_MSGFLAG_PAYLOAD \<and> rest \<noteq> [] then [hd rest] else []);
                    others = drop (length zf2) rest
                in flux_msg_set_flags (msg\<lparr>zmsg := (pre @ others) @ [t @ [0]] @ [zf] @ zf2\<rparr>)
                     (flags OR FLUX_MSGFLAG_TOPIC)
          | None \<Rightarrow>
              if has_flag flags FLUX_MSGFLAG_TOPIC then
                flux_msg_set_flags (msg\<lparr>zmsg := pre @ rest\<rparr>) (flags AND NOT FLUX_MSGFLAG_TOPIC)
              else Inr msg))"

definition zf_topic :: "('j, 'v) flux_msg \<Rightarrow> frame result" where
  "zf_topic msg =
     bind_result (flux_msg_get_flags msg) (\<lambda>flags.
       if \<not> has_flag flags FLUX_MSGFLAG_TOPIC then Inl EPROTO
       else case skip_route flags (zmsg msg) of
         (pre, []) \<Rightarrow> Inl EPROTO
       | (pre, zf # rest) \<Rightarrow> Inr zf)"

text \<open>The C code reads \<open>s[zframe_size (zf) - 1]\<close> without checking that the frame has a byte.\<close>

definition flux_msg_get_topic :: "('j, 'v) flux_msg \<Rightarrow> cstring result" where
  "flux_msg_get_topic msg =
     bind_result (zf_topic msg) (\<lambda>zf.
       if length zf = 0 then Inl OutOfBounds
       else if zf ! (length zf - 1) \<noteq> 0 then Inl EPROTO
       else Inr (takeWhile (\<lambda>b. b \<noteq> 0) zf))"

definition flux_msg_cmp :: "(cstring \<Rightarrow> cstring \<Rightarrow> bool) \<Rightarrow> ('j, 'v) flux_msg \<Rightarrow> flux_match \<Rightarrow> bool result" where
  "flux_msg_cmp fnmatch msg match =
     (if typemask match \<noteq> 0 \<and>
         (case flux_msg_get_type msg of Inl _ \<Rightarrow> True | Inr type \<Rightarrow> type AND typemask match = 0)
      then Inr False
      else if matchtag match \<noteq> FLUX_MATCHTAG_NONE \<and> \<not> flux_msg_cmp_matchtag msg (matchtag match)
      then Inr False
      else case topic_glob match of
        None \<Rightarrow> Inr True
      | Some glob \<Rightarrow>
          if length glob > 0 \<and> glob \<noteq> cstr ''*'' then
            (case flux_msg_get_topic msg of
               Inl e \<Rightarrow> if e = OutOfBounds then Inl OutOfBounds else Inr False
             | Inr topic \<Rightarrow>
                 Inr (if isa_glob glob then fnmatch glob topic else glob = topic))
          else Inr True)"

subsection \<open>JSON payloads\<close>

text \<open>\<open>packed\<close> is what \<open>json_vpack_ex\<close> built from the format and its arguments.\<close>

definition flux_msg_vpack :: "('j \<Rightarrow> bool) \<Rightarrow> ('j \<Rightarrow> cstring option) \<Rightarrow> ('j, 'v) flux_msg \<Rightarrow> 'j option
    \<Rightarrow> ('j, 'v) flux_msg result" where
  "flux_msg_vpack json_is_object json_dumps msg packed =
     (case packed of
        None \<Rightarrow> Inl EINVAL
      | Some j \<Rightarrow>
          if \<not> json_is_object j then Inl EINVAL
          else case json_dumps j of
            None \<Rightarrow> Inl EINVAL
          | Some s \<Rightarrow> flux_msg_set_string msg (Some s))"

text \<open>\<open>unpack\<close> is \<open>json_vunpack_ex\<close> with its format, \<open>fmt_ok\<close> that the format is a non-empty
  string. The parsed object stays cached in the message, also when an error is returned.\<close>

definition flux_msg_vunpack :: "(cstring \<Rightarrow> 'j option) \<Rightarrow> ('j \<Rightarrow> bool) \<Rightarrow> ('j, 'v) flux_msg \<Rightarrow> bool
    \<Rightarrow> ('j \<Rightarrow> 'r option) \<Rightarrow> 'r result \<times> ('j, 'v) flux_msg" where
  "flux_msg_vunpack json_loads json_is_object msg fmt_ok unpack =
     (let unpack_cached = (\<lambda>msg j. (case unpack j of None \<Rightarrow> Inl EPROTO | Some r \<Rightarrow> Inr r, msg)) in
      if \<not> fmt_ok then (Inl EINVAL, msg)
      else case json msg of
        Some j \<Rightarrow> unpack_cached msg j
      | None \<Rightarrow>
          (case flux_msg_get_string msg of
             Inl e \<Rightarrow> (Inl e, msg)
           | Inr None \<Rightarrow> (Inl EPROTO, msg)
           | Inr (Some s) \<Rightarrow>
               (case json_loads s of
                  None \<Rightarrow> (Inl EPROTO, msg)
                | Some j \<Rightarrow>
                    let msg' = msg\<lparr>json := Some j\<rparr> in
                    if \<not> json_is_object j then (Inl EPROTO, msg') else unpack_cached msg' j)))"

subsection \<open>Copies and type names\<close>

fun copy_loop :: "frame list \<Rightarrow> bool \<Rightarrow> nat \<Rightarrow> nat \<Rightarrow> frame list \<Rightarrow> frame list" where
  "copy_loop [] skip_payload sz cnt cpy = cpy"
| "copy_loop (zf # rest) skip_payload sz cnt cpy =
     copy_loop rest skip_payload sz (cnt + 1)
       (if \<not> skip_payload \<or> int cnt \<noteq> int sz - 2 then cpy @ [zf] else cpy)"

definition flux_msg_copy :: "('j, 'v) flux_msg \<Rightarrow> bool \<Rightarrow> ('j, 'v) flux_msg result" where
  "flux_msg_copy msg payload =
     bind_result (flux_msg_get_flags msg) (\<lambda>flags.
       let skip_payload = (\<not> payload \<and> has_flag flags FLUX_MSGFLAG_PAYLOAD);
           flags' = (if skip_payload then flags AND NOT FLUX_MSGFLAG_PAYLOAD else flags)
       in flux_msg_set_flags
            \<lparr>zmsg = copy_loop (zmsg msg) skip_payload (length (zmsg msg)) 0 [], json = None, msg_aux = []\<rparr>
            flags')"

definition msgtype_map :: "(string \<times> string \<times> int) list" where
  "msgtype_map =
     [(''request'', ''>'', FLUX_MSGTYPE_REQUEST), (''response'', ''<'', FLUX_MSGTYPE_RESPONSE),
      (''event'', ''e'', FLUX_MSGTYPE_EVENT), (''keepalive'', ''k'', FLUX_MSGTYPE_KEEPALIVE)]"

definition flux_msg_typestr :: "int \<Rightarrow> string" where
  "flux_msg_typestr type =
     (case find (\<lambda>(name, sname, t). type AND t \<noteq> 0) msgtype_map of
        Some (name, sname, t) \<Rightarrow> name
      | None \<Rightarrow> ''unknown'')"

definition flux_msg_frames :: "('j, 'v) flux_msg \<Rightarrow> nat" where
  "flux_msg_frames msg = length (zmsg msg)"

end
