(* ===== verification/Message_Spec.thy ===== *)
theory Message_Spec
  imports Message
begin

text \<open>
  What the message operations promise, stated on an abstract message: an optional route stack, an
  optional topic, an optional payload and the fields of the protocol frame without the three flags
  that only record which parts are there. \<open>represents m a\<close> relates the frames of \<open>m\<close> to the
  abstract message \<open>a\<close>; every operation of \<^verbatim>\<open>message.c\<close> on a represented message succeeds or
  fails as the abstract message says, and its result represents the updated abstract message.
\<close>

unbundle bit_operations_syntax

record abs_msg =
  a_routes :: "frame list option"
  a_topic :: "cstring option"
  a_payload :: "frame option"
  a_fields :: proto_fields

definition route_part :: "frame list option \<Rightarrow> frame list" where
  "route_part r = (case r of None \<Rightarrow> [] | Some rs \<Rightarrow> rs @ [[]])"

definition topic_part :: "cstring option \<Rightarrow> frame list" where
  "topic_part t = (case t of None \<Rightarrow> [] | Some s \<Rightarrow> [s @ [0]])"

definition payload_part :: "frame option \<Rightarrow> frame list" where
  "payload_part p = (case p of None \<Rightarrow> [] | Some f \<Rightarrow> [f])"

definition own_flags :: "byte \<Rightarrow> byte" where
  "own_flags fl = fl AND NOT 0x0b"

definition own_fields :: "proto_fields \<Rightarrow> proto_fields" where
  "own_fields f = f\<lparr>pf_flags := own_flags (pf_flags f)\<rparr>"

definition flags_match :: "byte \<Rightarrow> abs_msg \<Rightarrow> bool" where
  "flags_match fl a \<longleftrightarrow>
     (has_flag fl FLUX_MSGFLAG_ROUTE \<longleftrightarrow> a_routes a \<noteq> None) \<and>
     (has_flag fl FLUX_MSGFLAG_TOPIC \<longleftrightarrow> a_topic a \<noteq> None) \<and>
     (has_flag fl FLUX_MSGFLAG_PAYLOAD \<longleftrightarrow> a_payload a \<noteq> None)"

definition abs_ok :: "abs_msg \<Rightarrow> bool" where
  "abs_ok a \<longleftrightarrow> (\<forall>rs. a_routes a = Some rs \<longrightarrow> [] \<notin> set rs) \<and> (\<forall>t. a_topic a = Some t \<longrightarrow> 0 \<notin> set t)"

definition represents :: "('j, 'v) flux_msg \<Rightarrow> abs_msg \<Rightarrow> bool" where
  "represents m a \<longleftrightarrow>
     abs_ok a \<and>
     (\<exists>p. proto_ok p \<and>
        zmsg m = route_part (a_routes a) @ topic_part (a_topic a) @ payload_part (a_payload a) @ [p] \<and>
        own_fields (fields_of p) = a_fields a \<and> flags_match (pf_flags (fields_of p)) a)"

subsection \<open>Flags\<close>

definition flag_bit :: "nat \<Rightarrow> byte" where
  "flag_bit m = push_bit m 1"

lemma flag_consts_bit:
  "FLUX_MSGFLAG_TOPIC = flag_bit 0" "FLUX_MSGFLAG_PAYLOAD = flag_bit 1" "FLUX_MSGFLAG_ROUTE = flag_bit 3"
  "FLUX_MSGFLAG_UPSTREAM = flag_bit 4" "FLUX_MSGFLAG_PRIVATE = flag_bit 5"
  by (simp_all add: msgflag_consts flag_bit_def)

lemma has_flag_bit [simp]: "has_flag fl (flag_bit m) \<longleftrightarrow> bit fl m"
  by (simp add: has_flag_def flag_bit_def bit_iff_and_push_bit_not_eq_0)

lemma bit_flag_bit: "n < 8 \<Longrightarrow> bit (flag_bit m) n \<longleftrightarrow> m = n"
  by (auto simp: bit_simps flag_bit_def)

lemma bit_flag_upd:
  assumes "n < 8"
  shows "bit (fl OR flag_bit m) n \<longleftrightarrow> bit fl n \<or> m = n"
    "bit (fl AND NOT (flag_bit m)) n \<longleftrightarrow> bit fl n \<and> m \<noteq> n"
  using assms by (auto simp: bit_simps flag_bit_def)

lemma bit_own_flags:
  assumes "n < 8"
  shows "bit (own_flags fl) n \<longleftrightarrow> bit fl n \<and> n \<notin> {0, 1, 3}"
proof -
  from assms consider "n = 0" | "n = 1" | "n = 2" | "n = 3" | "n = 4" | "n = 5" | "n = 6" | "n = 7"
    by fastforce
  then have "bit (0x0b :: byte) n \<longleftrightarrow> n \<in> {0, 1, 3}" by cases simp_all
  with assms show ?thesis by (simp add: own_flags_def bit_simps)
qed

lemma own_flags_upd:
  assumes "m \<in> {0, 1, 3}"
  shows "own_flags (fl OR flag_bit m) = own_flags fl" "own_flags (fl AND NOT (flag_bit m)) = own_flags fl"
proof -
  have "bit (own_flags (fl OR flag_bit m)) n = bit (own_flags fl) n"
    "bit (own_flags (fl AND NOT (flag_bit m))) n = bit (own_flags fl) n" if "n < 8" for n
    using assms by (auto simp: bit_own_flags [OF that] bit_flag_upd [OF that])
  then show "own_flags (fl OR flag_bit m) = own_flags fl"
    "own_flags (fl AND NOT (flag_bit m)) = own_flags fl"
    by (auto intro!: bit_word_eqI)
qed

text \<open>Setting or clearing one of the three part flags, with the matching part of the message.\<close>

lemma flags_match_set:
  assumes "flags_match fl a"
  shows
    "flags_match (fl OR FLUX_MSGFLAG_TOPIC) (a\<lparr>a_topic := Some t\<rparr>)"
    "flags_match (fl AND NOT FLUX_MSGFLAG_TOPIC) (a\<lparr>a_topic := None\<rparr>)"
    "flags_match (fl OR FLUX_MSGFLAG_PAYLOAD) (a\<lparr>a_payload := Some p\<rparr>)"
    "flags_match (fl AND NOT FLUX_MSGFLAG_PAYLOAD) (a\<lparr>a_payload := None\<rparr>)"
    "flags_match (fl OR FLUX_MSGFLAG_ROUTE) (a\<lparr>a_routes := Some r\<rparr>)"
    "flags_match (fl AND NOT FLUX_MSGFLAG_ROUTE) (a\<lparr>a_routes := None\<rparr>)"
  using assms unfolding flags_match_def flag_consts_bit
  by (simp_all add: bit_flag_upd)

lemma own_flags_part [simp]:
  "own_flags (fl OR FLUX_MSGFLAG_TOPIC) = own_flags fl" "own_flags (fl AND NOT FLUX_MSGFLAG_TOPIC) = own_flags fl"
  "own_flags (fl OR FLUX_MSGFLAG_PAYLOAD) = own_flags fl" "own_flags (fl AND NOT FLUX_MSGFLAG_PAYLOAD) = own_flags fl"
  "own_flags (fl OR FLUX_MSGFLAG_ROUTE) = own_flags fl" "own_flags (fl AND NOT FLUX_MSGFLAG_ROUTE) = own_flags fl"
  unfolding flag_consts_bit by (rule own_flags_upd, simp)+

subsection \<open>The shape of a represented message\<close>

lemma zmsg_last_snoc [simp]: "zmsg_last (fs @ [p]) = Some p"
  by (simp add: zmsg_last_def)

lemma update_proto_snoc:
  "zmsg m = fs @ [p] \<Longrightarrow>
     update_proto e m f = (case f p of None \<Rightarrow> Inl e | Some p' \<Rightarrow> Inr (m\<lparr>zmsg := fs @ [p']\<rparr>))"
  by (simp add: update_proto_def set_last_def split: option.splits)

lemma read_proto_snoc:
  "zmsg m = fs @ [p] \<Longrightarrow> read_proto e m f = (case f p of None \<Rightarrow> Inl e | Some x \<Rightarrow> Inr x)"
  by (simp add: read_proto_def)

lemma representsE:
  assumes "represents m a"
  obtains p fs where "proto_ok p" "zmsg m = fs @ [p]"
    "fs = route_part (a_routes a) @ topic_part (a_topic a) @ payload_part (a_payload a)"
    "own_fields (fields_of p) = a_fields a" "flags_match (pf_flags (fields_of p)) a" "abs_ok a"
    "flux_msg_get_flags m = Inr (pf_flags (fields_of p))"
  using assms by (auto simp: represents_def flux_msg_get_flags_def read_proto_def zmsg_last_def proto_getters)

text \<open>Writing the flags of a message whose frames already have the new shape.\<close>

lemma represents_set_flags:
  assumes "proto_ok p" and "zmsg m = fs @ [p]" and "abs_ok a"
    and "fs = route_part (a_routes a) @ topic_part (a_topic a) @ payload_part (a_payload a)"
    and "own_fields (fields_of p) = a_fields a" and "own_flags fl = own_flags (pf_flags (fields_of p))"
    and "flags_match fl a"
  shows "\<exists>m'. flux_msg_set_flags m fl = Inr m' \<and> represents m' a \<and> json m' = json m"
proof -
  from proto_setters(5) [OF assms(1)] obtain p' where p': "proto_set_flags p fl = Some p'"
    "proto_upd p (\<lambda>q. q\<lparr>pf_flags := fl\<rparr>) p'" by blast
  have "flux_msg_set_flags m fl = Inr (m\<lparr>zmsg := fs @ [p']\<rparr>)"
    using p'(1) by (simp add: flux_msg_set_flags_def update_proto_snoc [OF assms(2)])
  moreover have "represents (m\<lparr>zmsg := fs @ [p']\<rparr>) a"
    using assms p'(2) by (auto simp: represents_def proto_upd_def own_fields_def)
  ultimately show ?thesis by simp
qed

lemma takeWhile_to_delim: "[] \<notin> set rs \<Longrightarrow> takeWhile (\<lambda>zf. zf \<noteq> []) (rs @ [] # rest) = rs"
  by (induction rs) auto

lemma takeWhile_nul [simp]: "0 \<notin> set t \<Longrightarrow> takeWhile (\<lambda>b. b \<noteq> 0) (t @ [0]) = t"
  by (induction t) auto

lemma skip_route_represented:
  assumes "flags_match fl a" and "abs_ok a"
  shows "skip_route fl (route_part (a_routes a) @ rest) = (route_part (a_routes a), rest)"
proof (cases "a_routes a")
  case None
  with assms show ?thesis by (simp add: skip_route_def flags_match_def route_part_def)
next
  case (Some rs)
  have "takeWhile (\<lambda>zf. zf \<noteq> []) (rs @ [] # rest) = rs"
    using assms(2) Some by (simp add: abs_ok_def takeWhile_to_delim)
  then show ?thesis
    using assms(1) Some by (simp add: skip_route_def flags_match_def route_part_def)
qed

lemma skip_topic_represented:
  assumes "flags_match fl a"
  shows "skip_topic fl (pre, topic_part (a_topic a) @ rest) = (pre @ topic_part (a_topic a), rest)"
  using assms by (cases "a_topic a") (simp_all add: skip_topic_def flags_match_def topic_part_def split: list.splits)

subsection \<open>Topic\<close>

lemma set_topic_refines:
  assumes "represents m a" and "\<And>t. topic = Some t \<Longrightarrow> 0 \<notin> set t"
  shows "\<exists>m'. flux_msg_set_topic m topic = Inr m' \<and> represents m' (a\<lparr>a_topic := topic\<rparr>)"
proof -
  obtain p fs where p: "proto_ok p" "zmsg m = fs @ [p]"
    "fs = route_part (a_routes a) @ topic_part (a_topic a) @ payload_part (a_payload a)"
    "own_fields (fields_of p) = a_fields a" "flags_match (pf_flags (fields_of p)) a" "abs_ok a"
    "flux_msg_get_flags m = Inr (pf_flags (fields_of p))"
    using assms(1) by (rule representsE)
  let ?fl = "pf_flags (fields_of p)" and ?a = "a\<lparr>a_topic := topic\<rparr>"
  let ?rest = "topic_part (a_topic a) @ payload_part (a_payload a) @ [p]"
  have skip: "skip_route ?fl (zmsg m) = (route_part (a_routes a), ?rest)"
    using skip_route_represented [OF p(5,6), of ?rest] p(2,3) by simp
  have ok: "abs_ok ?a" using p(6) assms(2) by (auto simp: abs_ok_def)
  have has: "has_flag ?fl FLUX_MSGFLAG_TOPIC \<longleftrightarrow> a_topic a \<noteq> None"
    "has_flag ?fl FLUX_MSGFLAG_PAYLOAD \<longleftrightarrow> a_payload a \<noteq> None"
    using p(5) by (auto simp: flags_match_def)
  consider (repl) t0 t where "a_topic a = Some t0" "topic = Some t"
    | (add) t where "a_topic a = None" "topic = Some t"
    | (del) t0 where "a_topic a = Some t0" "topic = None"
    | (none) "a_topic a = None" "topic = None"
    by (cases "a_topic a"; cases topic) auto
  then show ?thesis
  proof cases
    case repl
    let ?m = "m\<lparr>zmsg := route_part (a_routes a) @ (t @ [0]) # payload_part (a_payload a) @ [p]\<rparr>"
    have "flux_msg_set_topic m topic = Inr ?m"
      using repl p(7) skip has by (simp add: flux_msg_set_topic_def topic_part_def)
    moreover have "represents ?m ?a"
      using repl p ok by (auto simp: represents_def topic_part_def flags_match_def)
    ultimately show ?thesis by blast
  next
    case add
    let ?m = "m\<lparr>zmsg := (route_part (a_routes a) @ [t @ [0]] @ payload_part (a_payload a)) @ [p]\<rparr>"
    have "flux_msg_set_topic m topic = flux_msg_set_flags ?m (?fl OR FLUX_MSGFLAG_TOPIC)"
      using add p(7) skip has
      by (cases "a_payload a") (simp_all add: flux_msg_set_topic_def topic_part_def payload_part_def Let_def)
    moreover have "\<exists>m'. flux_msg_set_flags ?m (?fl OR FLUX_MSGFLAG_TOPIC) = Inr m' \<and> represents m' ?a \<and> json m' = json ?m"
      by (rule represents_set_flags [OF p(1)])
        (use ok p(4) flags_match_set(1) [OF p(5)] add in \<open>simp_all add: topic_part_def\<close>)
    ultimately show ?thesis by auto
  next
    case del
    let ?m = "m\<lparr>zmsg := (route_part (a_routes a) @ payload_part (a_payload a)) @ [p]\<rparr>"
    have "flux_msg_set_topic m topic = flux_msg_set_flags ?m (?fl AND NOT FLUX_MSGFLAG_TOPIC)"
      using del p(7) skip has by (simp add: flux_msg_set_topic_def topic_part_def)
    moreover have "\<exists>m'. flux_msg_set_flags ?m (?fl AND NOT FLUX_MSGFLAG_TOPIC) = Inr m' \<and> represents m' ?a \<and> json m' = json ?m"
      by (rule represents_set_flags [OF p(1)])
        (use ok p(4) flags_match_set(2) [OF p(5)] del in \<open>simp_all add: topic_part_def\<close>)
    ultimately show ?thesis by auto
  next
    case none
    then have "flux_msg_set_topic m topic = Inr m"
      using p(7) skip has
      by (cases "payload_part (a_payload a)") (simp_all add: flux_msg_set_topic_def topic_part_def)
    moreover have "a\<lparr>a_topic := topic\<rparr> = a" using none by (cases a) simp
    ultimately show ?thesis using assms(1) by simp
  qed
qed

lemma get_topic_refines:
  assumes "represents m a"
  shows "flux_msg_get_topic m = (case a_topic a of None \<Rightarrow> Inl EPROTO | Some t \<Rightarrow> Inr t)"
proof -
  obtain p fs where p: "proto_ok p" "zmsg m = fs @ [p]"
    "fs = route_part (a_routes a) @ topic_part (a_topic a) @ payload_part (a_payload a)"
    "own_fields (fields_of p) = a_fields a" "flags_match (pf_flags (fields_of p)) a" "abs_ok a"
    "flux_msg_get_flags m = Inr (pf_flags (fields_of p))"
    using assms(1) by (rule representsE)
  let ?rest = "topic_part (a_topic a) @ payload_part (a_payload a) @ [p]"
  have skip: "skip_route (pf_flags (fields_of p)) (zmsg m) = (route_part (a_routes a), ?rest)"
    using skip_route_represented [OF p(5,6), of ?rest] p(2,3) by simp
  have "takeWhile (\<lambda>b. b \<noteq> 0) (t @ [0]) = t" if "a_topic a = Some t" for t
    using p(6) that by (simp add: abs_ok_def takeWhile_nul)
  then show ?thesis
    using p(5,7) skip
    by (auto simp: flux_msg_get_topic_def zf_topic_def topic_part_def flags_match_def split: option.splits)
qed

subsection \<open>Payload\<close>

text \<open>The abstract payload a buffer argument stands for.\<close>

definition arg_payload :: "payload_arg \<Rightarrow> int \<Rightarrow> frame option" where
  "arg_payload buf sz = (case buf of ExtBuf bs \<Rightarrow> if sz > 0 then Some (take (nat sz) bs) else None | _ \<Rightarrow> None)"

text \<open>A buffer argument with memory for \<open>size\<close> bytes.\<close>

definition buf_holds :: "payload_arg \<Rightarrow> int \<Rightarrow> bool" where
  "buf_holds buf sz = (case buf of ExtBuf bs \<Rightarrow> nat sz \<le> length bs | _ \<Rightarrow> True)"

lemma payload_cursor:
  assumes "represents m a"
  obtains fl p where "flux_msg_get_flags m = Inr fl" "has_flag fl FLUX_MSGFLAG_PAYLOAD \<longleftrightarrow> a_payload a \<noteq> None"
    "skip_topic fl (skip_route fl (zmsg m)) =
      (route_part (a_routes a) @ topic_part (a_topic a), payload_part (a_payload a) @ [p])"
proof -
  obtain p fs where p: "zmsg m = fs @ [p]"
    "fs = route_part (a_routes a) @ topic_part (a_topic a) @ payload_part (a_payload a)"
    "flags_match (pf_flags (fields_of p)) a" "abs_ok a" "flux_msg_get_flags m = Inr (pf_flags (fields_of p))"
    using assms(1) by (rule representsE)
  show thesis
    by (rule that [OF p(5)])
      (use p(1-3) skip_route_represented [OF p(3,4), of "topic_part (a_topic a) @ payload_part (a_payload a) @ [p]"]
        skip_topic_represented [OF p(3), of "route_part (a_routes a)" "payload_part (a_payload a) @ [p]"]
       in \<open>auto simp: flags_match_def\<close>)
qed

lemma set_payload_short:
  assumes "represents m a" and "buf = ExtBuf bs" and "length bs < nat sz"
  shows "flux_msg_set_payload m buf sz = Inl OutOfBounds"
proof -
  obtain fl p where c: "flux_msg_get_flags m = Inr fl" "has_flag fl FLUX_MSGFLAG_PAYLOAD \<longleftrightarrow> a_payload a \<noteq> None"
    "skip_topic fl (skip_route fl (zmsg m)) =
      (route_part (a_routes a) @ topic_part (a_topic a), payload_part (a_payload a) @ [p])"
    using assms(1) by (rule payload_cursor)
  have "flux_msg_get_flags (m\<lparr>json := None\<rparr>) = Inr fl" using c(1) by (simp add: flux_msg_get_flags_def read_proto_def)
  then show ?thesis using c(2,3) assms(2,3)
    by (cases "a_payload a")
      (auto simp: flux_msg_set_payload_def payload_part_def payload_overlap_def buf_bytes_def Let_def)
qed

lemma set_payload_refines:
  assumes "represents m a" and "0 \<le> sz" and "\<And>off. buf \<noteq> SelfBuf off" and "buf_holds buf sz"
  shows "\<exists>m'. flux_msg_set_payload m buf sz = Inr m' \<and>
    represents m' (a\<lparr>a_payload := arg_payload buf sz\<rparr>) \<and> json m' = None"
proof -
  obtain p fs where p: "proto_ok p" "zmsg m = fs @ [p]"
    "fs = route_part (a_routes a) @ topic_part (a_topic a) @ payload_part (a_payload a)"
    "own_fields (fields_of p) = a_fields a" "flags_match (pf_flags (fields_of p)) a" "abs_ok a"
    "flux_msg_get_flags m = Inr (pf_flags (fields_of p))"
    using assms(1) by (rule representsE)
  let ?fl = "pf_flags (fields_of p)" and ?a = "a\<lparr>a_payload := arg_payload buf sz\<rparr>"
  let ?pre = "route_part (a_routes a) @ topic_part (a_topic a)"
  let ?m0 = "m\<lparr>json := None\<rparr>"
  have skip: "skip_topic ?fl (skip_route ?fl (zmsg m)) = (?pre, payload_part (a_payload a) @ [p])"
    using skip_route_represented [OF p(5,6), of "topic_part (a_topic a) @ payload_part (a_payload a) @ [p]"]
      skip_topic_represented [OF p(5), of "route_part (a_routes a)" "payload_part (a_payload a) @ [p]"] p(2,3)
    by simp
  have ok: "abs_ok ?a" using p(6) by (auto simp: abs_ok_def)
  have has: "has_flag ?fl FLUX_MSGFLAG_PAYLOAD \<longleftrightarrow> a_payload a \<noteq> None"
    using p(5) by (auto simp: flags_match_def)
  have fl: "flux_msg_get_flags ?m0 = Inr ?fl"
    using p(1,2) by (simp add: flux_msg_get_flags_def read_proto_def proto_getters)
  consider (repl) f bs where "a_payload a = Some f" "buf = ExtBuf bs" "sz > 0" "nat sz \<le> length bs"
    | (add) bs where "a_payload a = None" "buf = ExtBuf bs" "sz > 0" "nat sz \<le> length bs"
    | (del) f where "a_payload a = Some f" "arg_payload buf sz = None" "buf = NullBuf \<or> sz = 0"
    | (none) "a_payload a = None" "arg_payload buf sz = None" "buf = NullBuf \<or> sz = 0"
    using assms(2-4) by (cases "a_payload a"; cases buf; cases "sz = 0") (auto simp: arg_payload_def buf_holds_def)
  then show ?thesis
  proof cases
    case repl
    let ?m = "?m0\<lparr>zmsg := (?pre @ [take (nat sz) bs]) @ [p]\<rparr>"
    have "flux_msg_set_payload m buf sz = flux_msg_set_flags ?m ?fl"
      using repl fl skip has
      by (simp add: flux_msg_set_payload_def payload_part_def payload_overlap_def buf_bytes_def Let_def)
    moreover have "\<exists>m'. flux_msg_set_flags ?m ?fl = Inr m' \<and> represents m' ?a \<and> json m' = json ?m"
      by (rule represents_set_flags [OF p(1)])
        (use ok p(4,5) repl in \<open>simp_all add: payload_part_def arg_payload_def flags_match_def\<close>)
    ultimately show ?thesis by auto
  next
    case add
    let ?m = "?m0\<lparr>zmsg := (?pre @ [take (nat sz) bs]) @ [p]\<rparr>"
    have "flux_msg_set_payload m buf sz = flux_msg_set_flags ?m (?fl OR FLUX_MSGFLAG_PAYLOAD)"
      using add fl skip has by (simp add: flux_msg_set_payload_def payload_part_def buf_bytes_def Let_def)
    moreover have "\<exists>m'. flux_msg_set_flags ?m (?fl OR FLUX_MSGFLAG_PAYLOAD) = Inr m' \<and> represents m' ?a \<and> json m' = json ?m"
      by (rule represents_set_flags [OF p(1)])
        (use ok p(4) flags_match_set(3) [OF p(5)] add in \<open>simp_all add: payload_part_def arg_payload_def\<close>)
    ultimately show ?thesis by auto
  next
    case del
    let ?m = "?m0\<lparr>zmsg := ?pre @ [p]\<rparr>"
    have "flux_msg_set_payload m buf sz = flux_msg_set_flags ?m (?fl AND NOT FLUX_MSGFLAG_PAYLOAD)"
      using del fl skip has by (auto simp: flux_msg_set_payload_def payload_part_def Let_def)
    moreover have "\<exists>m'. flux_msg_set_flags ?m (?fl AND NOT FLUX_MSGFLAG_PAYLOAD) = Inr m' \<and> represents m' ?a \<and> json m' = json ?m"
      by (rule represents_set_flags [OF p(1)])
        (use ok p(4) flags_match_set(4) [OF p(5)] del in \<open>simp_all add: payload_part_def\<close>)
    ultimately show ?thesis by auto
  next
    case none
    have "flux_msg_set_payload m buf sz = Inr ?m0"
      using none(1,3) fl has by (simp add: flux_msg_set_payload_def Let_def)
    moreover have "a\<lparr>a_payload := arg_payload buf sz\<rparr> = a" using none(1,2) by (cases a) simp
    moreover have "represents ?m0 a" using assms(1) by (simp add: represents_def)
    ultimately show ?thesis by simp
  qed
qed

lemma get_payload_refines:
  assumes "represents m a"
  shows "flux_msg_get_payload m = (case a_payload a of None \<Rightarrow> Inl EPROTO | Some f \<Rightarrow> Inr f)"
    "flux_msg_has_payload m \<longleftrightarrow> a_payload a \<noteq> None"
proof -
  obtain fl p where c: "flux_msg_get_flags m = Inr fl" "has_flag fl FLUX_MSGFLAG_PAYLOAD \<longleftrightarrow> a_payload a \<noteq> None"
    "skip_topic fl (skip_route fl (zmsg m)) =
      (route_part (a_routes a) @ topic_part (a_topic a), payload_part (a_payload a) @ [p])"
    using assms by (rule payload_cursor)
  show "flux_msg_get_payload m = (case a_payload a of None \<Rightarrow> Inl EPROTO | Some f \<Rightarrow> Inr f)"
    using c by (auto simp: flux_msg_get_payload_def payload_part_def split: option.splits)
  show "flux_msg_has_payload m \<longleftrightarrow> a_payload a \<noteq> None"
    using c by (simp add: flux_msg_has_payload_def)
qed

subsection \<open>Route stack\<close>

lemma pop_to_delim_routes: "[] \<notin> set rs \<Longrightarrow> pop_to_delim (rs @ [] # rest) = rest"
  by (induction rs) auto

lemma route_refines:
  assumes "represents m a"
  shows
    "\<exists>m'. flux_msg_enable_route m = Inr m' \<and>
       represents m' (a\<lparr>a_routes := Some (case a_routes a of None \<Rightarrow> [] | Some rs \<Rightarrow> rs)\<rparr>)" (is ?enable)
    "\<exists>m'. flux_msg_clear_route m = Inr m' \<and> represents m' (a\<lparr>a_routes := None\<rparr>)" (is ?clear)
proof -
  obtain p fs where p: "proto_ok p" "zmsg m = fs @ [p]"
    "fs = route_part (a_routes a) @ topic_part (a_topic a) @ payload_part (a_payload a)"
    "own_fields (fields_of p) = a_fields a" "flags_match (pf_flags (fields_of p)) a" "abs_ok a"
    "flux_msg_get_flags m = Inr (pf_flags (fields_of p))"
    using assms(1) by (rule representsE)
  let ?fl = "pf_flags (fields_of p)" and ?tail = "topic_part (a_topic a) @ payload_part (a_payload a)"
  have has: "has_flag ?fl FLUX_MSGFLAG_ROUTE \<longleftrightarrow> a_routes a \<noteq> None"
    using p(5) by (auto simp: flags_match_def)
  show ?enable
  proof (cases "a_routes a")
    case None
    let ?m = "m\<lparr>zmsg := ([] # ?tail) @ [p]\<rparr>" and ?a = "a\<lparr>a_routes := Some []\<rparr>"
    have "flux_msg_enable_route m = flux_msg_set_flags ?m (?fl OR FLUX_MSGFLAG_ROUTE)"
      using None p(2,3,7) has by (simp add: flux_msg_enable_route_def route_part_def)
    moreover have "\<exists>m'. flux_msg_set_flags ?m (?fl OR FLUX_MSGFLAG_ROUTE) = Inr m' \<and> represents m' ?a \<and> json m' = json ?m"
      by (rule represents_set_flags [OF p(1)])
        (use p(4,6) flags_match_set(5) [OF p(5)] in \<open>simp_all add: route_part_def abs_ok_def\<close>)
    ultimately show ?thesis using None by auto
  next
    case (Some rs)
    have "a\<lparr>a_routes := Some rs\<rparr> = a" using Some by (cases a) simp
    then have "represents m (a\<lparr>a_routes := Some rs\<rparr>)" using assms by (rule ssubst)
    then show ?thesis using Some p(7) has by (simp add: flux_msg_enable_route_def)
  qed
  show ?clear
  proof (cases "a_routes a")
    case None
    have "a\<lparr>a_routes := None\<rparr> = a" using None by (cases a) simp
    then have "represents m (a\<lparr>a_routes := None\<rparr>)" using assms by (rule ssubst)
    then show ?thesis using None p(7) has by (simp add: flux_msg_clear_route_def)
  next
    case (Some rs)
    let ?m = "m\<lparr>zmsg := ?tail @ [p]\<rparr>" and ?a = "a\<lparr>a_routes := None\<rparr>"
    have "flux_msg_clear_route m = flux_msg_set_flags ?m (?fl AND NOT FLUX_MSGFLAG_ROUTE)"
      using Some p(2,3,6,7) has
      by (simp add: flux_msg_clear_route_def route_part_def abs_ok_def pop_to_delim_routes)
    moreover have "\<exists>m'. flux_msg_set_flags ?m (?fl AND NOT FLUX_MSGFLAG_ROUTE) = Inr m' \<and> represents m' ?a \<and> json m' = json ?m"
      by (rule represents_set_flags [OF p(1)])
        (use p(4,6) flags_match_set(6) [OF p(5)] in \<open>simp_all add: route_part_def abs_ok_def\<close>)
    ultimately show ?thesis by auto
  qed
qed

lemma push_route_refines:
  assumes "represents m a"
  shows "a_routes a = None \<Longrightarrow> flux_msg_push_route m rid = Inl EPROTO"
    "a_routes a = Some rs \<Longrightarrow> rid \<noteq> [] \<Longrightarrow>
       \<exists>m'. flux_msg_push_route m rid = Inr m' \<and> represents m' (a\<lparr>a_routes := Some (rid # rs)\<rparr>)"
proof -
  obtain p fs where p: "proto_ok p" "zmsg m = fs @ [p]"
    "fs = route_part (a_routes a) @ topic_part (a_topic a) @ payload_part (a_payload a)"
    "own_fields (fields_of p) = a_fields a" "flags_match (pf_flags (fields_of p)) a" "abs_ok a"
    "flux_msg_get_flags m = Inr (pf_flags (fields_of p))"
    using assms(1) by (rule representsE)
  show "a_routes a = None \<Longrightarrow> flux_msg_push_route m rid = Inl EPROTO"
    using p(5,7) by (simp add: flux_msg_push_route_def flags_match_def)
  show "a_routes a = Some rs \<Longrightarrow> rid \<noteq> [] \<Longrightarrow>
       \<exists>m'. flux_msg_push_route m rid = Inr m' \<and> represents m' (a\<lparr>a_routes := Some (rid # rs)\<rparr>)"
    using p by (auto simp: flux_msg_push_route_def flags_match_def represents_def route_part_def abs_ok_def)
qed

lemma pop_route_refines:
  assumes "represents m a"
  shows "a_routes a = None \<Longrightarrow> flux_msg_pop_route m = Inl EPROTO"
    "a_routes a = Some [] \<Longrightarrow> flux_msg_pop_route m = Inr (m, None)"
    "a_routes a = Some (r # rs) \<Longrightarrow>
       \<exists>m'. flux_msg_pop_route m = Inr (m', Some r) \<and> represents m' (a\<lparr>a_routes := Some rs\<rparr>)"
proof -
  obtain p fs where p: "proto_ok p" "zmsg m = fs @ [p]"
    "fs = route_part (a_routes a) @ topic_part (a_topic a) @ payload_part (a_payload a)"
    "own_fields (fields_of p) = a_fields a" "flags_match (pf_flags (fields_of p)) a" "abs_ok a"
    "flux_msg_get_flags m = Inr (pf_flags (fields_of p))"
    using assms(1) by (rule representsE)
  show "a_routes a = None \<Longrightarrow> flux_msg_pop_route m = Inl EPROTO"
    using p(5,7) by (simp add: flux_msg_pop_route_def flags_match_def)
  show "a_routes a = Some [] \<Longrightarrow> flux_msg_pop_route m = Inr (m, None)"
    using p by (simp add: flux_msg_pop_route_def flags_match_def route_part_def)
  show "a_routes a = Some (r # rs) \<Longrightarrow>
       \<exists>m'. flux_msg_pop_route m = Inr (m', Some r) \<and> represents m' (a\<lparr>a_routes := Some rs\<rparr>)"
    using p by (auto simp: flux_msg_pop_route_def flags_match_def represents_def route_part_def abs_ok_def)
qed

lemma route_loops:
  assumes "[] \<notin> set rs"
  shows "route_first_loop (rs @ [] # rest) = Some (if rs = [] then [] else last rs)"
    "route_count_loop (rs @ [] # rest) k = k + length rs"
    "route_size_loop (rs @ [] # rest) k = k + sum_list (map length rs)"
    "n < length rs \<Longrightarrow> route_nth_loop (rs @ [] # rest) k (k + n) = Some (rs ! n)"
  using assms
proof -
  show "route_first_loop (rs @ [] # rest) = Some (if rs = [] then [] else last rs)" using assms
  proof (induction rs)
    case (Cons r rs)
    then show ?case by (cases rs) auto
  qed simp
  show "route_count_loop (rs @ [] # rest) k = k + length rs"
    using assms by (induction rs arbitrary: k) auto
  show "route_size_loop (rs @ [] # rest) k = k + sum_list (map length rs)"
    using assms by (induction rs arbitrary: k) auto
  show "n < length rs \<Longrightarrow> route_nth_loop (rs @ [] # rest) k (k + n) = Some (rs ! n)" using assms
  proof (induction rs arbitrary: k n)
    case (Cons r rs)
    then show ?case using Cons.IH [of "n - 1" "Suc k"] by (cases n) auto
  qed simp
qed

text \<open>The printed route: the hops from the originator on, joined by \<open>!\<close>; a hop of 32 characters
  is a UUID and is cut to its first five.\<close>

definition hop_name :: "frame \<Rightarrow> byte list" where
  "hop_name r = (if length r = 32 then take 5 r else r)"

fun join_hops :: "byte list list \<Rightarrow> byte list" where
  "join_hops [] = []"
| "join_hops [r] = r"
| "join_hops (r # rs) = r @ cstr ''!'' @ join_hops rs"

lemma join_hops_snoc: "rs \<noteq> [] \<Longrightarrow> join_hops (rs @ [r]) = join_hops rs @ cstr ''!'' @ r"
  by (induction rs rule: join_hops.induct) auto

lemma join_hops_eq_Nil: "[] \<notin> set rs \<Longrightarrow> join_hops rs = [] \<longleftrightarrow> rs = []"
  by (induction rs rule: join_hops.induct) (auto simp: cstr_def)

lemma length_join_hops:
  "rs \<noteq> [] \<Longrightarrow> length (join_hops (map hop_name rs)) < sum_list (map length rs) + length rs"
proof (induction rs rule: list_nonempty_induct)
  case (single r)
  then show ?case by (simp add: hop_name_def)
next
  case (cons r rs)
  then show ?case by (cases rs) (auto simp: hop_name_def cstr_def)
qed

lemma route_get_refines:
  assumes "represents m a"
  shows
    "a_routes a = None \<Longrightarrow> flux_msg_get_route_last m = Inl EPROTO \<and> flux_msg_get_route_first m = Inl EPROTO \<and>
       flux_msg_get_route_count m = Inl EPROTO"
    "a_routes a = Some rs \<Longrightarrow> flux_msg_get_route_last m = Inr (if rs = [] then None else Some (hd rs))"
    "a_routes a = Some rs \<Longrightarrow> flux_msg_get_route_first m = Inr (if rs = [] then None else Some (last rs))"
    "a_routes a = Some rs \<Longrightarrow> flux_msg_get_route_count m = Inr (length rs)"
    "a_routes a = Some rs \<Longrightarrow> flux_msg_get_route_size m = Inr (sum_list (map length rs))"
    "a_routes a = Some rs \<Longrightarrow> n < length rs \<Longrightarrow> flux_msg_get_route_nth m n = Inr (rs ! n)"
proof -
  obtain p fs where p: "proto_ok p" "zmsg m = fs @ [p]"
    "fs = route_part (a_routes a) @ topic_part (a_topic a) @ payload_part (a_payload a)"
    "own_fields (fields_of p) = a_fields a" "flags_match (pf_flags (fields_of p)) a" "abs_ok a"
    "flux_msg_get_flags m = Inr (pf_flags (fields_of p))"
    using assms(1) by (rule representsE)
  let ?rest = "topic_part (a_topic a) @ payload_part (a_payload a) @ [p]"
  have has: "has_flag (pf_flags (fields_of p)) FLUX_MSGFLAG_ROUTE \<longleftrightarrow> a_routes a \<noteq> None"
    using p(5) by (auto simp: flags_match_def)
  show "a_routes a = None \<Longrightarrow> flux_msg_get_route_last m = Inl EPROTO \<and> flux_msg_get_route_first m = Inl EPROTO \<and>
       flux_msg_get_route_count m = Inl EPROTO"
    using p(7) has
    by (simp add: flux_msg_get_route_last_def flux_msg_get_route_first_def flux_msg_get_route_count_def)
  assume rs: "a_routes a = Some rs"
  have ne: "[] \<notin> set rs" using p(6) rs by (simp add: abs_ok_def)
  have z: "zmsg m = rs @ [] # ?rest" using p(2,3) rs by (simp add: route_part_def)
  note defs = flux_msg_get_route_first_def flux_msg_get_route_count_def
    flux_msg_get_route_size_def flux_msg_get_route_nth_def
  show "flux_msg_get_route_last m = Inr (if rs = [] then None else Some (hd rs))"
    using p(7) has rs ne z by (cases rs) (auto simp: flux_msg_get_route_last_def)
  show "flux_msg_get_route_first m = Inr (if rs = [] then None else Some (last rs))"
    using p(7) has rs ne last_in_set [of rs] by (cases "last rs = []") (auto simp: defs z route_loops)
  show "flux_msg_get_route_count m = Inr (length rs)"
    using p(7) has rs ne by (simp add: defs z route_loops)
  show "flux_msg_get_route_size m = Inr (sum_list (map length rs))"
    using p(7) has rs ne by (simp add: defs z route_loops)
  show "n < length rs \<Longrightarrow> flux_msg_get_route_nth m n = Inr (rs ! n)"
    using p(7) has rs ne route_loops(4) [OF ne, of n ?rest 0] by (simp add: defs z)
qed

lemma route_string_loop_correct:
  assumes "\<And>n. n < length rs \<Longrightarrow> flux_msg_get_route_nth m n = Inr (rs ! n)" and "[] \<notin> set rs"
    and "n \<le> length rs"
  shows "route_string_loop n m (sum_list (map length rs) + length rs) (join_hops (map hop_name (rev (drop n rs))))
           = Inr (join_hops (map hop_name (rev rs)))"
  using assms(3)
proof (induction n)
  case (Suc n)
  let ?done = "rev (drop (Suc n) rs)" and ?next = "rev (drop n rs)"
  let ?lim = "sum_list (map length rs) + length rs"
  have n: "n < length rs" using Suc.prems by simp
  have next_eq: "?next = ?done @ [rs ! n]" using n by (simp flip: Cons_nth_drop_Suc)
  have ne: "[] \<notin> set (map hop_name ?done)"
    using assms(2) set_drop_subset [of "Suc n" rs] by (auto simp: hop_name_def split: if_splits)
  have join: "(if 0 < length (join_hops (map hop_name ?done))
        then join_hops (map hop_name ?done) @ cstr ''!'' else join_hops (map hop_name ?done)) @ hop_name (rs ! n)
      = join_hops (map hop_name ?next)"
    using join_hops_eq_Nil [OF ne] join_hops_snoc [of "map hop_name ?done" "hop_name (rs ! n)"]
    by (cases "?done = []") (simp_all add: next_eq)
  have "sum_list (map length ?next) + length ?next \<le> ?lim"
    using n append_take_drop_id [of n rs]
    by (metis add_le_mono le_add2 length_drop length_rev diff_le_self map_append rev_map sum_list_append sum_list_rev)
  then have fits: "length (join_hops (map hop_name ?next)) < ?lim"
    using length_join_hops [of ?next] n by simp
  have cpy: "take (length (hop_name (rs ! n))) (rs ! n) = hop_name (rs ! n)"
    "(if length (rs ! n) = 32 then 5 else length (rs ! n)) = length (hop_name (rs ! n))"
    by (simp_all add: hop_name_def)
  show ?case
    using Suc.IH fits n unfolding route_string_loop.simps Let_def assms(1) [OF n] sum.case cpy join [symmetric]
    by (simp add: cpy)
qed simp

lemma route_string_refines:
  assumes "represents m a" and "a_routes a = Some rs"
  shows "flux_msg_get_route_string m = Inr (join_hops (map hop_name (rev rs)))"
proof -
  have ne: "[] \<notin> set rs" using assms by (simp add: represents_def abs_ok_def)
  show ?thesis
    using route_string_loop_correct [of rs m "length rs", OF route_get_refines(6) [OF assms] ne]
    by (simp add: flux_msg_get_route_string_def route_get_refines(4,5) [OF assms])
qed

subsection \<open>Fields of the protocol frame\<close>

lemma represents_upd_proto:
  assumes "represents m a" and "zmsg m = fs @ [p]" and "proto_upd p f p'"
    and "flags_match (pf_flags (f (fields_of p))) a"
    and "own_fields (f (fields_of p)) = g (own_fields (fields_of p))"
  shows "represents (m\<lparr>zmsg := fs @ [p']\<rparr>) (a\<lparr>a_fields := g (a_fields a)\<rparr>)"
  using assms by (auto simp: represents_def proto_upd_def abs_ok_def flags_match_def)

lemma own_fields_simps [simp]:
  "pf_type (own_fields f) = pf_type f" "pf_userid (own_fields f) = pf_userid f"
  "pf_rolemask (own_fields f) = pf_rolemask f" "pf_bigint (own_fields f) = pf_bigint f"
  "pf_bigint2 (own_fields f) = pf_bigint2 f" "pf_flags (own_fields f) = own_flags (pf_flags f)"
  by (simp_all add: own_fields_def)

text \<open>A setter that touches one of the fields below the flags succeeds and updates that field of
  the abstract message.\<close>

lemma update_field_refines:
  assumes "represents m a"
    and "\<And>d. proto_ok d \<Longrightarrow> \<exists>d'. upd d = Some d' \<and> proto_upd d f d'"
    and "\<And>q. own_fields (f q) = f (own_fields q)" and "\<And>q. pf_flags (f q) = pf_flags q"
  shows "\<exists>m'. update_proto e m upd = Inr m' \<and> represents m' (a\<lparr>a_fields := f (a_fields a)\<rparr>) \<and> json m' = json m"
proof -
  obtain p fs where p: "proto_ok p" "zmsg m = fs @ [p]" "flags_match (pf_flags (fields_of p)) a"
    using assms(1) by (rule representsE)
  obtain p' where p': "upd p = Some p'" "proto_upd p f p'" using assms(2) [OF p(1)] by blast
  have "represents (m\<lparr>zmsg := fs @ [p']\<rparr>) (a\<lparr>a_fields := f (a_fields a)\<rparr>)"
    by (rule represents_upd_proto [OF assms(1) p(2) p'(2)]) (simp_all add: assms(3,4) p(3))
  then show ?thesis using p' by (simp add: update_proto_snoc [OF p(2)])
qed

lemma read_field_refines:
  assumes "represents m a" and "\<And>d. proto_ok d \<Longrightarrow> get d = h (own_fields (fields_of d))"
  shows "read_proto e m get = (case h (a_fields a) of None \<Rightarrow> Inl e | Some x \<Rightarrow> Inr x)"
proof -
  obtain p fs where "proto_ok p" "zmsg m = fs @ [p]" "own_fields (fields_of p) = a_fields a"
    using assms(1) by (rule representsE)
  then show ?thesis using assms(2) [of p] by (simp add: read_proto_snoc)
qed

lemma bigint_if_refines:
  assumes "represents m a"
  shows
    "ok (pf_type (a_fields a)) \<Longrightarrow> \<exists>m'. update_proto e m (set_bigint_if ok x) = Inr m' \<and>
       represents m' (a\<lparr>a_fields := (a_fields a)\<lparr>pf_bigint := x\<rparr>\<rparr>) \<and> json m' = json m"
    "\<not> ok (pf_type (a_fields a)) \<Longrightarrow> update_proto e m (set_bigint_if ok x) = Inl e"
    "read_proto e m (get_bigint_if ok) =
       (if ok (pf_type (a_fields a)) then Inr (pf_bigint (a_fields a)) else Inl e)"
    "ok (pf_type (a_fields a)) \<Longrightarrow> \<exists>m'. update_proto e m (set_bigint2_if ok x) = Inr m' \<and>
       represents m' (a\<lparr>a_fields := (a_fields a)\<lparr>pf_bigint2 := x\<rparr>\<rparr>) \<and> json m' = json m"
    "\<not> ok (pf_type (a_fields a)) \<Longrightarrow> update_proto e m (set_bigint2_if ok x) = Inl e"
    "read_proto e m (get_bigint2_if ok) =
       (if ok (pf_type (a_fields a)) then Inr (pf_bigint2 (a_fields a)) else Inl e)"
proof -
  obtain p fs where p: "proto_ok p" "zmsg m = fs @ [p]" "own_fields (fields_of p) = a_fields a"
    using assms(1) by (rule representsE)
  have type: "proto_get_type p = Some (pf_type (a_fields a))"
    using proto_getters(5) [OF p(1)] by (simp flip: p(3))
  note defs = set_bigint_if_def set_bigint2_if_def get_bigint_if_def get_bigint2_if_def
  have up: "update_proto e m (set_bigint_if ok x) = update_proto e m (\<lambda>d. proto_set_bigint d x)"
    "update_proto e m (set_bigint2_if ok x) = update_proto e m (\<lambda>d. proto_set_bigint2 d x)"
    if "ok (pf_type (a_fields a))"
    using that type by (simp_all add: update_proto_snoc [OF p(2)] defs)
  show "ok (pf_type (a_fields a)) \<Longrightarrow> \<exists>m'. update_proto e m (set_bigint_if ok x) = Inr m' \<and>
       represents m' (a\<lparr>a_fields := (a_fields a)\<lparr>pf_bigint := x\<rparr>\<rparr>) \<and> json m' = json m"
    by (simp only: up) (rule update_field_refines [OF assms proto_setters(3)], simp_all add: own_fields_def)
  show "ok (pf_type (a_fields a)) \<Longrightarrow> \<exists>m'. update_proto e m (set_bigint2_if ok x) = Inr m' \<and>
       represents m' (a\<lparr>a_fields := (a_fields a)\<lparr>pf_bigint2 := x\<rparr>\<rparr>) \<and> json m' = json m"
    by (simp only: up) (rule update_field_refines [OF assms proto_setters(4)], simp_all add: own_fields_def)
  show "\<not> ok (pf_type (a_fields a)) \<Longrightarrow> update_proto e m (set_bigint_if ok x) = Inl e"
    "\<not> ok (pf_type (a_fields a)) \<Longrightarrow> update_proto e m (set_bigint2_if ok x) = Inl e"
    using type by (simp_all add: update_proto_snoc [OF p(2)] defs)
  show "read_proto e m (get_bigint_if ok) =
       (if ok (pf_type (a_fields a)) then Inr (pf_bigint (a_fields a)) else Inl e)"
    "read_proto e m (get_bigint2_if ok) =
       (if ok (pf_type (a_fields a)) then Inr (pf_bigint2 (a_fields a)) else Inl e)"
    using type proto_getters(3,4) [OF p(1)] by (simp_all add: read_proto_snoc [OF p(2)] defs flip: p(3))
qed

lemma identity_fields_refine:
  assumes "represents m a"
  shows
    "\<exists>m'. flux_msg_set_userid m x = Inr m' \<and>
       represents m' (a\<lparr>a_fields := (a_fields a)\<lparr>pf_userid := x\<rparr>\<rparr>) \<and> json m' = json m"
    "\<exists>m'. flux_msg_set_rolemask m x = Inr m' \<and>
       represents m' (a\<lparr>a_fields := (a_fields a)\<lparr>pf_rolemask := x\<rparr>\<rparr>) \<and> json m' = json m"
    "flux_msg_get_userid m = Inr (pf_userid (a_fields a))"
    "flux_msg_get_rolemask m = Inr (pf_rolemask (a_fields a))"
    "flux_msg_get_type m = Inr (pf_type (a_fields a))"
proof -
  show "\<exists>m'. flux_msg_set_userid m x = Inr m' \<and>
       represents m' (a\<lparr>a_fields := (a_fields a)\<lparr>pf_userid := x\<rparr>\<rparr>) \<and> json m' = json m"
    unfolding flux_msg_set_userid_def
    by (rule update_field_refines [OF assms proto_setters(1)]) (simp_all add: own_fields_def)
  show "\<exists>m'. flux_msg_set_rolemask m x = Inr m' \<and>
       represents m' (a\<lparr>a_fields := (a_fields a)\<lparr>pf_rolemask := x\<rparr>\<rparr>) \<and> json m' = json m"
    unfolding flux_msg_set_rolemask_def
    by (rule update_field_refines [OF assms proto_setters(2)]) (simp_all add: own_fields_def)
  show "flux_msg_get_userid m = Inr (pf_userid (a_fields a))"
    "flux_msg_get_rolemask m = Inr (pf_rolemask (a_fields a))"
    "flux_msg_get_type m = Inr (pf_type (a_fields a))"
    using read_field_refines [OF assms, of proto_get_userid "\<lambda>q. Some (pf_userid q)"]
      read_field_refines [OF assms, of proto_get_rolemask "\<lambda>q. Some (pf_rolemask q)"]
      read_field_refines [OF assms, of proto_get_type "\<lambda>q. Some (pf_type q)"]
    by (simp_all add: proto_getters flux_msg_get_userid_def flux_msg_get_rolemask_def flux_msg_get_type_def)
qed

lemma flux_msg_create_spec:
  "\<not> valid_msgtype t \<Longrightarrow> flux_msg_create t = (Inl EINVAL :: ('j, 'v) flux_msg result)"
  "valid_msgtype t \<Longrightarrow> \<exists>m :: ('j, 'v) flux_msg. flux_msg_create t = Inr m \<and> json m = None \<and>
     represents m \<lparr>a_routes = None, a_topic = None, a_payload = None,
       a_fields = type_reset t \<lparr>pf_type = 0, pf_flags = 0, pf_userid = 0xFFFFFFFF, pf_rolemask = 0,
         pf_bigint = 0, pf_bigint2 = 0\<rparr>\<rparr>"
proof -
  have "20 \<le> length (replicate PROTO_SIZE (0 :: byte))" by (simp add: proto_consts)
  then obtain d where d: "proto_init (replicate PROTO_SIZE 0) 0 = Inr d" "proto_ok d"
    "fields_of d = \<lparr>pf_type = 0, pf_flags = 0, pf_userid = 0xFFFFFFFF, pf_rolemask = 0,
       pf_bigint = 0, pf_bigint2 = 0\<rparr>"
    by (rule proto_init_spec)
  show "flux_msg_create t = (Inl EINVAL :: ('j, 'v) flux_msg result)" if "\<not> valid_msgtype t"
    using that proto_set_type_spec(1) [OF d(2), of t] by (simp add: flux_msg_create_def d(1) split: option.splits)
  show "\<exists>m :: ('j, 'v) flux_msg. flux_msg_create t = Inr m \<and> json m = None \<and>
     represents m \<lparr>a_routes = None, a_topic = None, a_payload = None,
       a_fields = type_reset t \<lparr>pf_type = 0, pf_flags = 0, pf_userid = 0xFFFFFFFF, pf_rolemask = 0,
         pf_bigint = 0, pf_bigint2 = 0\<rparr>\<rparr>" if t: "valid_msgtype t"
  proof -
    obtain d' where d'1: "proto_set_type d t = Some d'"
      using t proto_set_type_spec(1) [OF d(2), of t] by auto
    note d' = d'1 proto_set_type_spec(2) [OF d(2) d'1]
    have fl: "pf_flags (type_reset t q) = pf_flags q" for q by (simp add: type_reset_def)
    have own: "own_fields (type_reset t q) = type_reset t q" if "pf_flags q = 0" for q
      using that by (simp add: own_fields_def fl own_flags_def)
    have rep: "represents \<lparr>zmsg = [d'], json = None, msg_aux = []\<rparr>
      \<lparr>a_routes = None, a_topic = None, a_payload = None, a_fields = type_reset t (fields_of d)\<rparr>"
      using d'(2) d(3) own [of "fields_of d"] fl [of "fields_of d"]
      by (simp add: represents_def abs_ok_def route_part_def topic_part_def payload_part_def
          proto_upd_def flags_match_def has_flag_def)
    show ?thesis by (simp add: flux_msg_create_def d(1) d'(1) rep [unfolded d(3)])
  qed
qed

subsection \<open>Wire encoding\<close>

definition enc_frame :: "frame \<Rightarrow> byte list" where
  "enc_frame f = (if length f < 255 then of_nat (length f) # f
                  else 0xff # be32_bytes (of_nat (length f)) @ f)"

lemma encode_size_loop_eq: "encode_size_loop fs k = k + length (concat (map enc_frame fs))"
  by (induction fs arbitrary: k) (auto simp: enc_frame_def be32_bytes_def Let_def)

lemma encode_loop_eq:
  "length out \<le> sz \<Longrightarrow> encode_loop fs out sz =
     (if length out + length (concat (map enc_frame fs)) \<le> sz
      then Inr (out @ concat (map enc_frame fs)) else Inl EINVAL)"
proof (induction fs arbitrary: out)
  case (Cons f fs)
  let ?out = "out @ enc_frame f"
  have step: "encode_loop (f # fs) out sz =
      (if length ?out \<le> sz then encode_loop fs ?out sz else Inl EINVAL)"
    using Cons.prems by (auto simp: enc_frame_def be32_bytes_def Let_def)
  show ?case
    using Cons.IH [of ?out] unfolding step by (auto simp del: encode_loop.simps)
qed simp

lemma get_be32_bytes [simp]: "get_be32 (be32_bytes x @ rest) 0 = x"
  by (simp add: get_be32_def be32_bytes_def be32_join)

lemma unat_byte_less_255: "unat (b :: byte) < 255 \<longleftrightarrow> b \<noteq> 0xff"
proof -
  have "unat b < 256" using unsigned_less [of b] by simp
  moreover have "unat b = 255 \<longleftrightarrow> b = 0xff" by (simp only: word_unat_eq_iff unat_numeral) simp
  ultimately show ?thesis by linarith
qed

text \<open>A reference decoder that consumes a list of bytes. A buffer read up to a size that it has is
  decoded as the reference decodes that prefix of it; in particular no other byte is looked at.\<close>

function decode_bytes :: "byte list \<Rightarrow> frame list \<Rightarrow> frame list result" where
  "decode_bytes [] frames = Inr frames"
| "decode_bytes (b # p) frames =
     (if b = 0xff then
        (if length p < 4 then Inl EINVAL
         else
           let n = unat (get_be32 p 0); p' = drop 4 p in
           if length p' < n then Inl EINVAL
           else decode_bytes (drop n p') (frames @ [take n p']))
      else
        let n = unat b in
        if length p < n then Inl EINVAL
        else decode_bytes (drop n p) (frames @ [take n p]))"
  by pat_completeness auto
termination
  by (relation "measure (\<lambda>(p, frames). length p)") auto

lemma decode_loop_bytes:
  assumes "sz \<le> length buf" and "i \<le> sz"
  shows "decode_loop buf sz i acc = decode_bytes (drop i (take sz buf)) acc"
  using assms
proof (induction buf sz i acc rule: decode_loop.induct)
  case (1 buf sz i acc)
  let ?w = "take sz buf"
  have len: "length ?w = sz" using 1(2) by simp
  have frame: "decode_loop buf sz (j + n) (acc @ [take n (drop j buf)]) =
      decode_bytes (drop n (drop j ?w)) (acc @ [take n (drop j ?w)])"
    if "i < sz" "j = i + 1 \<and> buf ! i \<noteq> 0xff \<and> n = unat (buf ! i) \<or>
      j = i + 5 \<and> buf ! i = 0xff \<and> n = unat (get_be32 buf (i + 1))" "j + n \<le> sz" for j n
    using that 1(2) by (auto simp: drop_take add.commute intro!: 1(1) [THEN trans])
  show ?case
  proof (cases "i < sz")
    case True
    have w: "drop i ?w = buf ! i # drop (i + 1) ?w"
      using True 1(2) by (simp add: Cons_nth_drop_Suc [symmetric])
    have be: "get_be32 (drop (i + 1) ?w) 0 = get_be32 buf (i + 1)" if "i + 5 \<le> sz"
      using that 1(2) by (simp add: get_be32_def)
    show ?thesis
      using True 1(2) be frame unfolding w
      by (subst decode_loop.simps) (auto simp: Let_def len)
  qed (use 1(2) in \<open>subst decode_loop.simps, simp\<close>)
qed

lemma flux_msg_decode_bytes:
  "sz \<le> length buf \<Longrightarrow>
     flux_msg_decode buf sz = bind_result (decode_bytes (take sz buf) []) (\<lambda>fs. Inr \<lparr>zmsg = fs, json = None, msg_aux = []\<rparr>)"
  by (simp add: flux_msg_decode_def decode_loop_bytes)

lemma decode_bytes_enc:
  assumes "\<forall>f\<in>set fs. length f < 2 ^ 32"
  shows "decode_bytes (concat (map enc_frame fs)) acc = Inr (acc @ fs)"
  using assms
proof (induction fs arbitrary: acc)
  case (Cons f fs)
  show ?case
  proof (cases "length f < 255")
    case True
    have "unat (of_nat (length f) :: byte) = length f"
      using True by (simp add: unat_of_nat)
    moreover have "(of_nat (length f) :: byte) \<noteq> 0xff"
      using True calculation by (simp flip: unat_byte_less_255)
    ultimately show ?thesis using Cons True by (simp add: enc_frame_def)
  next
    case False
    have "unat (of_nat (length f) :: uint32) = length f"
      using Cons.prems by (simp add: unat_of_nat)
    then show ?thesis using Cons False
      by (simp add: enc_frame_def) (simp add: be32_bytes_def)
  qed
qed simp

lemma decode_bytes_size:
  "decode_bytes buf acc = Inr fs \<Longrightarrow>
     length (concat (map enc_frame fs)) \<le> length (concat (map enc_frame acc)) + length buf"
proof (induction buf acc rule: decode_bytes.induct)
  case (2 b p acc)
  show ?case
  proof (cases "b = 0xff")
    case True
    let ?n = "unat (get_be32 p 0)" and ?p = "drop 4 p"
    have ok: "4 \<le> length p" "?n \<le> length ?p" "decode_bytes (drop ?n ?p) (acc @ [take ?n ?p]) = Inr fs"
      using 2(3) True by (auto simp: Let_def split: if_splits)
    have "length (enc_frame (take ?n ?p)) \<le> 5 + ?n" using ok by (simp add: enc_frame_def be32_bytes_def)
    with 2(1) [OF True _ refl refl _ ok(3)] ok(1,2) show ?thesis by simp
  next
    case False
    let ?n = "unat b"
    have ok: "?n \<le> length p" "decode_bytes (drop ?n p) (acc @ [take ?n p]) = Inr fs"
      using 2(3) False by (auto simp: Let_def split: if_splits)
    have "?n < 255"
      using False by (simp add: unat_byte_less_255)
    then have "length (enc_frame (take ?n p)) = 1 + ?n" using ok by (simp add: enc_frame_def)
    with 2(2) [OF False refl _ ok(2)] ok(1) show ?thesis by simp
  qed
qed simp

lemma decode_bytes_error: "decode_bytes buf acc = Inl e \<Longrightarrow> e = EINVAL"
  by (induction buf acc rule: decode_bytes.induct) (auto simp: Let_def split: if_splits)

subsection \<open>Type, private flag and node id\<close>

lemma own_flags_other:
  "own_flags (fl OR FLUX_MSGFLAG_PRIVATE) = own_flags fl OR FLUX_MSGFLAG_PRIVATE"
  "own_flags (fl OR FLUX_MSGFLAG_UPSTREAM) = own_flags fl OR FLUX_MSGFLAG_UPSTREAM"
  by (simp_all add: own_flags_def msgflag_consts bit.conj_disj_distrib2)

lemma flags_match_other:
  assumes "flags_match fl a"
  shows "flags_match (fl OR FLUX_MSGFLAG_PRIVATE) a" "flags_match (fl OR FLUX_MSGFLAG_UPSTREAM) a"
  using assms unfolding flags_match_def flag_consts_bit by (simp_all add: bit_flag_upd)

lemma has_flag_own:
  "has_flag (own_flags fl) FLUX_MSGFLAG_PRIVATE = has_flag fl FLUX_MSGFLAG_PRIVATE"
  "has_flag (own_flags fl) FLUX_MSGFLAG_UPSTREAM = has_flag fl FLUX_MSGFLAG_UPSTREAM"
  unfolding flag_consts_bit has_flag_bit by (simp_all add: bit_own_flags)

lemma has_flag_set [simp]:
  "has_flag (fl OR FLUX_MSGFLAG_PRIVATE) FLUX_MSGFLAG_PRIVATE"
  "has_flag (fl OR FLUX_MSGFLAG_UPSTREAM) FLUX_MSGFLAG_UPSTREAM"
  unfolding flag_consts_bit has_flag_bit by (simp_all add: bit_flag_upd)

lemma set_type_refines:
  assumes "represents m a"
  shows "valid_msgtype t \<Longrightarrow> \<exists>m'. flux_msg_set_type m t = Inr m' \<and>
      represents m' (a\<lparr>a_fields := type_reset t (a_fields a)\<rparr>) \<and> json m' = json m"
    "\<not> valid_msgtype t \<Longrightarrow> flux_msg_set_type m t = Inl EINVAL"
proof -
  show "\<exists>m'. flux_msg_set_type m t = Inr m' \<and>
      represents m' (a\<lparr>a_fields := type_reset t (a_fields a)\<rparr>) \<and> json m' = json m"
    if t: "valid_msgtype t"
    unfolding flux_msg_set_type_def
  proof (rule update_field_refines [OF assms])
    fix d :: "byte list"
    assume d: "proto_ok d"
    then obtain d' where "proto_set_type d t = Some d'" using t proto_set_type_spec(1) [OF d, of t] by auto
    then show "\<exists>d'. proto_set_type d t = Some d' \<and> proto_upd d (type_reset t) d'"
      using proto_set_type_spec(2) [OF d] by blast
  qed (simp_all add: own_fields_def type_reset_def)
  obtain p fs where p: "proto_ok p" "zmsg m = fs @ [p]" using assms by (rule representsE)
  show "\<not> valid_msgtype t \<Longrightarrow> flux_msg_set_type m t = Inl EINVAL"
    using proto_set_type_spec(1) [OF p(1), of t]
    by (simp add: flux_msg_set_type_def update_proto_snoc [OF p(2)] split: option.splits)
qed

lemma set_private_refines:
  assumes "represents m a"
  shows "\<exists>m'. flux_msg_set_private m = Inr m' \<and>
      represents m' (a\<lparr>a_fields := (a_fields a)\<lparr>pf_flags := pf_flags (a_fields a) OR FLUX_MSGFLAG_PRIVATE\<rparr>\<rparr>) \<and>
      json m' = json m"
    "flux_msg_is_private m = has_flag (pf_flags (a_fields a)) FLUX_MSGFLAG_PRIVATE"
proof -
  obtain p fs where p: "proto_ok p" "zmsg m = fs @ [p]" "own_fields (fields_of p) = a_fields a"
    "flags_match (pf_flags (fields_of p)) a" "flux_msg_get_flags m = Inr (pf_flags (fields_of p))"
    using assms by (rule representsE)
  let ?f = "\<lambda>q. q\<lparr>pf_flags := pf_flags q OR FLUX_MSGFLAG_PRIVATE\<rparr>"
  obtain p' where p': "proto_set_flags p (pf_flags (fields_of p) OR FLUX_MSGFLAG_PRIVATE) = Some p'"
    "proto_upd p (\<lambda>q. q\<lparr>pf_flags := pf_flags (fields_of p) OR FLUX_MSGFLAG_PRIVATE\<rparr>) p'"
    using proto_setters(5) [OF p(1)] by blast
  have "represents (m\<lparr>zmsg := fs @ [p']\<rparr>) (a\<lparr>a_fields := ?f (a_fields a)\<rparr>)"
    by (rule represents_upd_proto [OF assms p(2) p'(2)])
      (simp_all add: flags_match_other [OF p(4)] own_fields_def own_flags_other)
  then show "\<exists>m'. flux_msg_set_private m = Inr m' \<and>
      represents m' (a\<lparr>a_fields := (a_fields a)\<lparr>pf_flags := pf_flags (a_fields a) OR FLUX_MSGFLAG_PRIVATE\<rparr>\<rparr>) \<and>
      json m' = json m"
    using p(5) p'(1) by (simp add: flux_msg_set_private_def flux_msg_set_flags_def update_proto_snoc [OF p(2)])
  show "flux_msg_is_private m = has_flag (pf_flags (a_fields a)) FLUX_MSGFLAG_PRIVATE"
    using p(5) by (simp add: flux_msg_is_private_def has_flag_own flip: p(3))
qed

text \<open>The node ids and flags \<open>flux_msg_set_nodeid\<close> takes.\<close>

definition nodeid_args_ok :: "uint32 \<Rightarrow> int \<Rightarrow> bool" where
  "nodeid_args_ok nodeid flags \<longleftrightarrow>
     nodeid \<noteq> FLUX_NODEID_UPSTREAM \<and> (flags = 0 \<or> flags = 16 \<and> nodeid \<noteq> FLUX_NODEID_ANY)"

definition nodeid_upd :: "uint32 \<Rightarrow> int \<Rightarrow> proto_fields \<Rightarrow> proto_fields" where
  "nodeid_upd nodeid flags q =
     q\<lparr>pf_bigint := nodeid, pf_flags := pf_flags q OR (if flags = 0 then 0 else FLUX_MSGFLAG_UPSTREAM)\<rparr>"

lemma set_nodeid_refines:
  assumes "represents m a"
  shows "nodeid_args_ok nid fl \<and> pf_type (a_fields a) = FLUX_MSGTYPE_REQUEST \<Longrightarrow>
      \<exists>m'. flux_msg_set_nodeid m nid fl = Inr m' \<and> represents m' (a\<lparr>a_fields := nodeid_upd nid fl (a_fields a)\<rparr>) \<and>
        json m' = json m"
    "\<not> (nodeid_args_ok nid fl \<and> pf_type (a_fields a) = FLUX_MSGTYPE_REQUEST) \<Longrightarrow>
      flux_msg_set_nodeid m nid fl = Inl EINVAL"
proof -
  obtain p fs where p: "proto_ok p" "zmsg m = fs @ [p]" "own_fields (fields_of p) = a_fields a"
    "flags_match (pf_flags (fields_of p)) a"
    using assms by (rule representsE)
  have type: "proto_get_type p = Some (pf_type (a_fields a))"
    using proto_getters(5) [OF p(1)] by (simp flip: p(3))
  show "flux_msg_set_nodeid m nid fl = Inl EINVAL"
    if "\<not> (nodeid_args_ok nid fl \<and> pf_type (a_fields a) = FLUX_MSGTYPE_REQUEST)"
    using that type
    by (auto simp: flux_msg_set_nodeid_def nodeid_args_ok_def FLUX_MSGFLAG_UPSTREAM_def update_proto_snoc [OF p(2)])
  assume ok: "nodeid_args_ok nid fl \<and> pf_type (a_fields a) = FLUX_MSGTYPE_REQUEST"
  let ?fl = "if fl = 0 then 0 else FLUX_MSGFLAG_UPSTREAM"
  obtain p1 where p1: "proto_set_bigint p nid = Some p1" "proto_upd p (\<lambda>q. q\<lparr>pf_bigint := nid\<rparr>) p1"
    using proto_setters(3) [OF p(1)] by blast
  have "proto_ok p1" using p1(2) by (simp add: proto_upd_def)
  from proto_setters(6) [OF this, of ?fl False] obtain p2 where
    p2: "proto_mod_flags p1 ?fl False = Some p2" "proto_upd p1 (\<lambda>q. q\<lparr>pf_flags := pf_flags q OR ?fl\<rparr>) p2"
    by auto
  have "represents (m\<lparr>zmsg := fs @ [p2]\<rparr>) (a\<lparr>a_fields := nodeid_upd nid fl (a_fields a)\<rparr>)"
    by (rule represents_upd_proto [OF assms p(2) proto_upd_trans [OF p1(2) p2(2)]])
      (simp_all add: flags_match_other [OF p(4)] p(4) own_fields_def own_flags_other nodeid_upd_def)
  moreover have "(word_of_int fl :: byte) = ?fl"
    using ok by (auto simp: nodeid_args_ok_def FLUX_MSGFLAG_UPSTREAM_def)
  then have "flux_msg_set_nodeid m nid fl = Inr (m\<lparr>zmsg := fs @ [p2]\<rparr>)"
    using ok p1(1) p2(1) type
    by (auto simp: flux_msg_set_nodeid_def nodeid_args_ok_def FLUX_MSGFLAG_UPSTREAM_def update_proto_snoc [OF p(2)])
  ultimately show "\<exists>m'. flux_msg_set_nodeid m nid fl = Inr m' \<and>
      represents m' (a\<lparr>a_fields := nodeid_upd nid fl (a_fields a)\<rparr>) \<and> json m' = json m" by simp
qed

lemma upstream_and: "uint (fl AND FLUX_MSGFLAG_UPSTREAM) = (if has_flag fl FLUX_MSGFLAG_UPSTREAM then 16 else 0)"
proof -
  have "fl AND FLUX_MSGFLAG_UPSTREAM = (if bit fl 4 then FLUX_MSGFLAG_UPSTREAM else 0)"
    by (rule bit_word_eqI) (auto simp: flag_consts_bit bit_and_iff bit_flag_bit)
  then show ?thesis by (auto simp: flag_consts_bit) (simp add: flag_bit_def)
qed

lemma get_nodeid_refines:
  assumes "represents m a"
  shows "flux_msg_get_nodeid m =
    (let q = a_fields a; up = has_flag (pf_flags q) FLUX_MSGFLAG_UPSTREAM; nid = pf_bigint q in
     if pf_type q \<noteq> FLUX_MSGTYPE_REQUEST \<or> nid = FLUX_NODEID_UPSTREAM \<or> (up \<and> nid = FLUX_NODEID_ANY)
     then Inl EPROTO else Inr (nid, if up then 16 else 0))"
proof -
  obtain p fs where p: "proto_ok p" "zmsg m = fs @ [p]" "own_fields (fields_of p) = a_fields a"
    using assms by (rule representsE)
  show ?thesis
    using proto_getters(3,5,6) [OF p(1)]
    by (auto simp: flux_msg_get_nodeid_def read_proto_snoc [OF p(2)] Let_def has_flag_own upstream_and
        simp flip: p(3))
qed

subsection \<open>Copies\<close>

lemma copy_loop_eq:
  "copy_loop fs skip sz k cpy =
     cpy @ (if skip \<and> k + 2 \<le> sz \<and> sz < k + 2 + length fs
            then take (sz - 2 - k) fs @ drop (Suc (sz - 2 - k)) fs else fs)"
proof (induction fs arbitrary: k cpy)
  case (Cons f fs)
  have "sz - 2 - k = Suc (sz - 2 - Suc k)" if "k + 2 < sz" using that by linarith
  then show ?case unfolding copy_loop.simps Cons.IH by auto
qed simp

lemma flux_msg_copy_refines:
  assumes "represents m a"
  shows "\<exists>m'. flux_msg_copy m payload = Inr m' \<and> json m' = None \<and> msg_aux m' = [] \<and>
    represents m' (a\<lparr>a_payload := if payload then a_payload a else None\<rparr>)"
proof -
  obtain p fs where p: "proto_ok p" "zmsg m = fs @ [p]"
    "fs = route_part (a_routes a) @ topic_part (a_topic a) @ payload_part (a_payload a)"
    "own_fields (fields_of p) = a_fields a" "flags_match (pf_flags (fields_of p)) a" "abs_ok a"
    "flux_msg_get_flags m = Inr (pf_flags (fields_of p))"
    using assms(1) by (rule representsE)
  let ?fl = "pf_flags (fields_of p)" and ?a = "a\<lparr>a_payload := if payload then a_payload a else None\<rparr>"
  let ?skip = "\<not> payload \<and> has_flag ?fl FLUX_MSGFLAG_PAYLOAD"
  let ?fl' = "if ?skip then ?fl AND NOT FLUX_MSGFLAG_PAYLOAD else ?fl"
  let ?fs = "route_part (a_routes a) @ topic_part (a_topic a) @ payload_part (a_payload ?a)"
  let ?m = "\<lparr>zmsg = ?fs @ [p], json = None, msg_aux = []\<rparr> :: ('a, 'b) flux_msg"
  have has: "has_flag ?fl FLUX_MSGFLAG_PAYLOAD \<longleftrightarrow> a_payload a \<noteq> None"
    using p(5) by (auto simp: flags_match_def)
  have "copy_loop (zmsg m) ?skip (length (zmsg m)) 0 [] = ?fs @ [p]"
    using has p(2,3) by (auto simp: copy_loop_eq payload_part_def)
  then have eq: "flux_msg_copy m payload = flux_msg_set_flags ?m ?fl'"
    using p(7) by (simp add: flux_msg_copy_def Let_def)
  have "flags_match ?fl' ?a"
    using flags_match_set(4) [OF p(5)] p(5) has by (auto simp: flags_match_def)
  moreover have "abs_ok ?a" using p(6) by (simp add: abs_ok_def)
  moreover have "own_flags ?fl' = own_flags ?fl" by simp
  ultimately obtain m' where "flux_msg_set_flags ?m ?fl' = Inr m'" "represents m' ?a" "json m' = None"
    using represents_set_flags [OF p(1), of ?m ?fs ?a ?fl'] p(4) by auto
  moreover from this(1) have "msg_aux m' = []"
    by (auto simp: flux_msg_set_flags_def update_proto_def set_last_def split: option.splits)
  ultimately show ?thesis using eq by simp
qed

subsection \<open>String and JSON payloads\<close>

lemma set_string_refines:
  assumes "represents m a"
  shows "\<exists>m'. flux_msg_set_string m s = Inr m' \<and> json m' = None \<and>
    represents m' (a\<lparr>a_payload := map_option (\<lambda>str. str @ [0]) s\<rparr>)"
  using set_payload_refines [OF assms, of 0 NullBuf]
    set_payload_refines [OF assms, of "int (length (the s)) + 1" "ExtBuf (the s @ [0])"]
  by (cases s) (auto simp: flux_msg_set_string_def arg_payload_def buf_holds_def nat_add_distrib)

lemma get_string_refines:
  assumes "represents m a"
  shows "flux_msg_get_string m =
    (case a_payload a of
       None \<Rightarrow> Inr None
     | Some f \<Rightarrow> if f = [] \<or> last f \<noteq> 0 then Inl EPROTO else Inr (Some (takeWhile (\<lambda>b. b \<noteq> 0) f)))"
  by (auto simp: flux_msg_get_string_def get_payload_refines [OF assms] last_conv_nth split: option.splits)

subsection \<open>Messages the interface can build\<close>

text \<open>Every message obtained from \<open>flux_msg_create\<close> by the setters, the route and payload operations
  and \<open>flux_msg_copy\<close>. Route ids are non-empty strings, topics have no zero byte, and a payload comes
  from a null pointer or from memory of the caller's own with a size that is not negative. Three ways
  to a message are left out because the layout does not follow from the calls: \<open>flux_msg_set_flags\<close>
  can announce parts that are not there, and \<open>flux_msg_decode\<close> and the receive functions take the
  frames from the peer.\<close>

inductive api_msg :: "('j, 'v) flux_msg \<Rightarrow> bool" where
  api_create: "flux_msg_create t = Inr m \<Longrightarrow> api_msg m"
| api_set_type: "api_msg m \<Longrightarrow> flux_msg_set_type m t = Inr m' \<Longrightarrow> api_msg m'"
| api_set_private: "api_msg m \<Longrightarrow> flux_msg_set_private m = Inr m' \<Longrightarrow> api_msg m'"
| api_set_userid: "api_msg m \<Longrightarrow> flux_msg_set_userid m x = Inr m' \<Longrightarrow> api_msg m'"
| api_set_rolemask: "api_msg m \<Longrightarrow> flux_msg_set_rolemask m x = Inr m' \<Longrightarrow> api_msg m'"
| api_set_nodeid: "api_msg m \<Longrightarrow> flux_msg_set_nodeid m x fl = Inr m' \<Longrightarrow> api_msg m'"
| api_set_errnum: "api_msg m \<Longrightarrow> flux_msg_set_errnum m e = Inr m' \<Longrightarrow> api_msg m'"
| api_set_seq: "api_msg m \<Longrightarrow> flux_msg_set_seq m x = Inr m' \<Longrightarrow> api_msg m'"
| api_set_matchtag: "api_msg m \<Longrightarrow> flux_msg_set_matchtag m x = Inr m' \<Longrightarrow> api_msg m'"
| api_set_status: "api_msg m \<Longrightarrow> flux_msg_set_status m e = Inr m' \<Longrightarrow> api_msg m'"
| api_enable_route: "api_msg m \<Longrightarrow> flux_msg_enable_route m = Inr m' \<Longrightarrow> api_msg m'"
| api_clear_route: "api_msg m \<Longrightarrow> flux_msg_clear_route m = Inr m' \<Longrightarrow> api_msg m'"
| api_push_route: "api_msg m \<Longrightarrow> rid \<noteq> [] \<Longrightarrow> flux_msg_push_route m rid = Inr m' \<Longrightarrow> api_msg m'"
| api_pop_route: "api_msg m \<Longrightarrow> flux_msg_pop_route m = Inr (m', rid) \<Longrightarrow> api_msg m'"
| api_set_topic: "api_msg m \<Longrightarrow> 0 \<notin> set (case topic of None \<Rightarrow> [] | Some t \<Rightarrow> t) \<Longrightarrow>
    flux_msg_set_topic m topic = Inr m' \<Longrightarrow> api_msg m'"
| api_set_payload: "api_msg m \<Longrightarrow> 0 \<le> sz \<Longrightarrow> buf = NullBuf \<or> buf = ExtBuf bs \<Longrightarrow>
    flux_msg_set_payload m buf sz = Inr m' \<Longrightarrow> api_msg m'"
| api_set_string: "api_msg m \<Longrightarrow> flux_msg_set_string m s = Inr m' \<Longrightarrow> api_msg m'"
| api_vpack: "api_msg m \<Longrightarrow> flux_msg_vpack is_obj dumps m packed = Inr m' \<Longrightarrow> api_msg m'"
| api_copy: "api_msg m \<Longrightarrow> flux_msg_copy m payload = Inr m' \<Longrightarrow> api_msg m'"

text \<open>The step of the induction: the successor of a represented message is represented.\<close>

lemma create_represented:
  fixes m :: "('a, 'b) flux_msg"
  shows "flux_msg_create t = Inr m \<Longrightarrow> \<exists>a. represents m a"
  using flux_msg_create_spec(1) [of t, where ?'j = 'a and ?'v = 'b]
    flux_msg_create_spec(2) [of t, where ?'j = 'a and ?'v = 'b]
  by (cases "valid_msgtype t") auto

lemma bigint_set_represented:
  assumes "represents m a"
  shows "update_proto e m (set_bigint_if ok x) = Inr m' \<Longrightarrow> \<exists>a. represents m' a"
    "update_proto e m (set_bigint2_if ok x) = Inr m' \<Longrightarrow> \<exists>a. represents m' a"
  using bigint_if_refines(1,2) [OF assms, where ok = ok and e = e and x = x]
    bigint_if_refines(4,5) [OF assms, where ok = ok and e = e and x = x]
  by (cases "ok (pf_type (a_fields a))"; auto)+

lemma route_succ_represented:
  assumes "represents m a"
  shows "rid \<noteq> [] \<Longrightarrow> flux_msg_push_route m rid = Inr m' \<Longrightarrow> \<exists>a. represents m' a"
    "flux_msg_pop_route m = Inr (m', r) \<Longrightarrow> \<exists>a. represents m' a"
proof -
  show "rid \<noteq> [] \<Longrightarrow> flux_msg_push_route m rid = Inr m' \<Longrightarrow> \<exists>a. represents m' a"
    using push_route_refines(1) [OF assms, of rid] push_route_refines(2) [OF assms, of "the (a_routes a)" rid]
    by (cases "a_routes a") auto
  consider "a_routes a = None" | "a_routes a = Some []" | r rs where "a_routes a = Some (r # rs)"
    by (metis list.exhaust option.exhaust)
  then show "flux_msg_pop_route m = Inr (m', r) \<Longrightarrow> \<exists>a. represents m' a"
    using pop_route_refines [OF assms] assms by cases auto
qed

lemma api_msg_represented: "api_msg m \<Longrightarrow> \<exists>a. represents m a"
proof (induction rule: api_msg.induct)
  case (api_create t m)
  then show ?case by (rule create_represented)
next
  case (api_set_type m t m')
  then show ?case using set_type_refines [of m _ t] by (cases "valid_msgtype t") fastforce+
next
  case (api_set_private m m')
  then show ?case using set_private_refines(1) by fastforce
next
  case (api_set_userid m x m')
  then obtain a where "represents m a" by blast
  with api_set_userid show ?case using identity_fields_refine(1) [of m a x] by auto
next
  case (api_set_rolemask m x m')
  then obtain a where "represents m a" by blast
  with api_set_rolemask show ?case using identity_fields_refine(2) [of m a x] by auto
next
  case (api_set_nodeid m x fl m')
  then show ?case using set_nodeid_refines [of m _ x fl] by fastforce
next
  case (api_enable_route m m')
  then show ?case using route_refines(1) by fastforce
next
  case (api_clear_route m m')
  then show ?case using route_refines(2) by fastforce
next
  case (api_set_topic m topic m')
  then obtain a where "represents m a" by blast
  with api_set_topic show ?case using set_topic_refines [of m a topic] by auto
next
  case (api_set_payload m sz buf bs m')
  then obtain a where "represents m a" by blast
  with api_set_payload show ?case
    using set_payload_refines [of m a sz buf] set_payload_short [of m a buf bs sz]
    by (cases "buf_holds buf sz") (auto simp: buf_holds_def)
next
  case (api_set_string m s m')
  then obtain a where "represents m a" by blast
  with api_set_string show ?case using set_string_refines [of m a s] by auto
next
  case (api_vpack m is_obj dumps packed m')
  then obtain a s where "represents m a" "flux_msg_set_string m (Some s) = Inr m'"
    by (auto simp: flux_msg_vpack_def split: option.splits if_splits)
  then show ?case using set_string_refines [of m a "Some s"] by auto
next
  case (api_copy m payload m')
  then obtain a where "represents m a" by blast
  with api_copy show ?case using flux_msg_copy_refines [of m a payload] by auto
qed (auto simp: flux_msg_set_errnum_def flux_msg_set_seq_def flux_msg_set_matchtag_def
    flux_msg_set_status_def intro: bigint_set_represented route_succ_represented)

subsection \<open>A sample message\<close>

text \<open>A fresh request, as \<open>flux_msg_create\<close> builds it, and one with a route stack, a topic and a
  payload, for the concrete instances of the theorems below.\<close>

definition sample_proto :: "byte \<Rightarrow> frame" where
  "sample_proto fl = [0x8e, 1, 1, fl, 0xff, 0xff, 0xff, 0xff, 0, 0, 0, 0, 0xff, 0xff, 0xff, 0xff, 0, 0, 0, 0]"

definition sample_fields :: proto_fields where
  "sample_fields = \<lparr>pf_type = 1, pf_flags = 0, pf_userid = 0xFFFFFFFF, pf_rolemask = 0,
     pf_bigint = 0xFFFFFFFF, pf_bigint2 = 0\<rparr>"

definition sample_request :: "(nat, nat) flux_msg" where
  "sample_request = \<lparr>zmsg = [sample_proto 0], json = None, msg_aux = []\<rparr>"

definition sample_full :: "(nat, nat) flux_msg" where
  "sample_full = \<lparr>zmsg = [[50], [49], [], [97, 0], [123, 0], sample_proto 0x0b], json = Some 7, msg_aux = []\<rparr>"

lemma be32_ones: "get_be32 (sample_proto fl) 4 = 0xFFFFFFFF" "get_be32 (sample_proto fl) 12 = 0xFFFFFFFF"
  by (simp_all add: get_be32_def sample_proto_def)

lemma sample_request_represents:
  "represents sample_request \<lparr>a_routes = None, a_topic = None, a_payload = None, a_fields = sample_fields\<rparr>"
  by (simp add: represents_def sample_request_def abs_ok_def route_part_def topic_part_def payload_part_def
      proto_ok_def proto_consts fields_of_def be32_ones own_fields_def own_flags_def flags_match_def
      has_flag_def sample_fields_def)
    (simp add: get_be32_def sample_proto_def)

lemma sample_full_represents:
  "represents sample_full
     \<lparr>a_routes = Some [[50], [49]], a_topic = Some [97], a_payload = Some [123, 0], a_fields = sample_fields\<rparr>"
  by (simp add: represents_def sample_full_def abs_ok_def route_part_def topic_part_def payload_part_def
      proto_ok_def proto_consts fields_of_def be32_ones own_fields_def own_flags_def flags_match_def
      has_flag_def sample_fields_def)
    (simp add: get_be32_def sample_proto_def msgflag_consts)

subsection \<open>Properties\<close>



text \<open>C8: \<open>flux_msg_encode\<close> into a buffer of \<open>flux_msg_encode_size\<close> bytes succeeds and fills the
  buffer exactly, any shorter buffer is refused with \<open>EINVAL\<close>, and \<open>flux_msg_decode\<close> of the
  bytes gives back the same frames, for frames of less than 2^32 bytes.\<close>

theorem flux_msg_encode_decode:
  fixes m :: "('j, 'v) flux_msg"
  assumes "\<forall>f\<in>set (zmsg m). length f < 2 ^ 32"
  shows "(\<exists>buf. flux_msg_encode m (flux_msg_encode_size m) = Inr buf \<and> length buf = flux_msg_encode_size m \<and>
      flux_msg_decode buf (length buf) = Inr (\<lparr>zmsg = zmsg m, json = None, msg_aux = []\<rparr> :: ('j, 'v) flux_msg)) \<and>
    (sz < flux_msg_encode_size m \<longrightarrow> flux_msg_encode m sz = Inl EINVAL)"
  using assms
  by (simp add: flux_msg_encode_def flux_msg_encode_size_def encode_size_loop_eq encode_loop_eq
      flux_msg_decode_bytes decode_bytes_enc)

theorem flux_msg_encode_decode_witness:
  "(\<exists>buf. flux_msg_encode sample_full (flux_msg_encode_size sample_full) = Inr buf \<and>
      flux_msg_decode buf (length buf) = Inr (\<lparr>zmsg = zmsg sample_full, json = None, msg_aux = []\<rparr> :: (nat, nat) flux_msg)) \<and>
   flux_msg_encode sample_full 3 = Inl EINVAL"
  using flux_msg_encode_decode [of sample_full 3]
  by (force simp: sample_full_def sample_proto_def flux_msg_encode_size_def)

text \<open>C23: \<open>flux_msg_decode\<close> stays inside the buffer and never invents data. Given a size that the
  buffer has, it reads no byte outside it, its answer depends only on the bytes before the size, the
  only error is \<open>EINVAL\<close>, and the frames it accepts need no more room to encode than those bytes.\<close>

theorem flux_msg_decode_bounded:
  assumes "sz \<le> length buf"
  shows "flux_msg_decode buf sz = (flux_msg_decode (take sz buf) sz :: ('j, 'v) flux_msg result) \<and>
    (flux_msg_decode buf sz = (Inl EINVAL :: ('j, 'v) flux_msg result) \<or>
     (\<exists>m :: ('j, 'v) flux_msg. flux_msg_decode buf sz = Inr m \<and> flux_msg_encode_size m \<le> sz))"
  using assms decode_bytes_size [of "take sz buf" "[]"] decode_bytes_error [of "take sz buf" "[]"]
  by (cases "decode_bytes (take sz buf) []")
    (auto simp: flux_msg_decode_bytes flux_msg_encode_size_def encode_size_loop_eq)

theorem flux_msg_decode_bounded_witness:
  "flux_msg_decode [1, 97, 0, 9] 3 = (flux_msg_decode [1, 97, 0] 3 :: (nat, nat) flux_msg result) \<and>
   (\<exists>m :: (nat, nat) flux_msg. flux_msg_decode [1, 97, 0, 9] 3 = Inr m \<and> flux_msg_encode_size m \<le> 3)"
  using flux_msg_decode_bounded [where buf = "[1, 97, 0, 9]" and sz = 3 and ?'j = nat and ?'v = nat]
  by (simp add: flux_msg_decode_bytes Let_def)

text \<open>C16: \<open>flux_msg_set_topic\<close> adds, replaces or removes the topic frame, the topic is read back,
  and routes, payload and protocol fields stay as they were.\<close>

theorem flux_msg_set_topic_correct:
  assumes "represents m a" and "0 \<notin> set (case topic of None \<Rightarrow> [] | Some t \<Rightarrow> t)"
  shows "\<exists>m'. flux_msg_set_topic m topic = Inr m' \<and> represents m' (a\<lparr>a_topic := topic\<rparr>) \<and>
    flux_msg_get_topic m' = (case topic of None \<Rightarrow> Inl EPROTO | Some t \<Rightarrow> Inr t) \<and>
    flux_msg_get_payload m' = flux_msg_get_payload m"
proof -
  obtain m' where m': "flux_msg_set_topic m topic = Inr m'" "represents m' (a\<lparr>a_topic := topic\<rparr>)"
    using set_topic_refines [OF assms(1), of topic] assms(2) by auto
  then show ?thesis
    using get_topic_refines [OF m'(2)] get_payload_refines(1) [OF m'(2)] get_payload_refines(1) [OF assms(1)]
    by simp
qed

theorem flux_msg_set_topic_correct_witness:
  "\<exists>m'. flux_msg_set_topic sample_full (Some [98, 99]) = Inr m' \<and> flux_msg_get_topic m' = Inr [98, 99] \<and>
     flux_msg_get_payload m' = flux_msg_get_payload sample_full"
  using flux_msg_set_topic_correct [OF sample_full_represents, of "Some [98, 99]"] by auto

text \<open>C17: \<open>flux_msg_set_payload\<close> with an outside buffer adds, replaces or (for a null or empty
  buffer) removes the payload frame, drops the cached JSON object, and leaves every other part of
  the message alone. A size beyond the buffer is what makes it read outside, and nothing else does.\<close>

theorem flux_msg_set_payload_correct:
  assumes "represents m a" and "0 \<le> sz" and "buf = NullBuf \<or> buf = ExtBuf bs"
  shows "if buf_holds buf sz
    then \<exists>m'. flux_msg_set_payload m buf sz = Inr m' \<and> json m' = None \<and>
      represents m' (a\<lparr>a_payload := arg_payload buf sz\<rparr>) \<and>
      flux_msg_get_payload m' = (case arg_payload buf sz of None \<Rightarrow> Inl EPROTO | Some f \<Rightarrow> Inr f) \<and>
      flux_msg_get_topic m' = flux_msg_get_topic m
    else flux_msg_set_payload m buf sz = Inl OutOfBounds"
proof (cases "buf_holds buf sz")
  case True
  obtain m' where m': "flux_msg_set_payload m buf sz = Inr m'" "json m' = None"
    "represents m' (a\<lparr>a_payload := arg_payload buf sz\<rparr>)"
    using set_payload_refines [OF assms(1,2), of buf] assms(3) True by auto
  then show ?thesis
    using True get_payload_refines(1) [OF m'(3)] get_topic_refines [OF m'(3)] get_topic_refines [OF assms(1)]
    by simp
next
  case False
  then show ?thesis using set_payload_short [OF assms(1), of buf bs sz] assms(3) by (auto simp: buf_holds_def)
qed

theorem flux_msg_set_payload_correct_witness:
  "\<exists>m'. flux_msg_set_payload sample_full (ExtBuf [1, 2, 3]) 2 = Inr m' \<and> json m' = None \<and>
     flux_msg_get_payload m' = Inr [1, 2] \<and> flux_msg_get_topic m' = Inr [97]"
  using flux_msg_set_payload_correct [OF sample_full_represents, of 2 "ExtBuf [1, 2, 3]"]
    get_topic_refines [OF sample_full_represents]
  by (auto simp: arg_payload_def buf_holds_def)

text \<open>C18: the route stack is last in, first out. Pushing a non-empty id onto a message with routing
  enabled makes it the last hop, adds one to the hop count, and popping returns that id and
  restores exactly the frames before the push.\<close>

theorem flux_msg_push_pop_route:
  assumes "represents m a" and "a_routes a = Some rs" and "rid \<noteq> []"
  shows "\<exists>m'. flux_msg_push_route m rid = Inr m' \<and>
    flux_msg_get_route_last m' = Inr (Some rid) \<and> flux_msg_get_route_count m' = Inr (Suc (length rs)) \<and>
    flux_msg_get_route_first m' = Inr (Some (if rs = [] then rid else last rs)) \<and>
    flux_msg_pop_route m' = Inr (m, Some rid)"
proof -
  obtain m' where m': "flux_msg_push_route m rid = Inr m'" "represents m' (a\<lparr>a_routes := Some (rid # rs)\<rparr>)"
    using push_route_refines(2) [OF assms] by blast
  have z: "m' = m\<lparr>zmsg := rid # zmsg m\<rparr>"
    using m'(1) by (auto simp: flux_msg_push_route_def bind_result_def split: sum.splits if_splits)
  obtain m'' where "flux_msg_pop_route m' = Inr (m'', Some rid)"
    using pop_route_refines(3) [OF m'(2), of rid rs] by auto
  moreover from this have "m'' = m"
    using z by (auto simp: flux_msg_pop_route_def bind_result_def split: sum.splits if_splits)
  ultimately show ?thesis
    using m'(1) route_get_refines(2,3,4) [OF m'(2), of "rid # rs"] by simp
qed

theorem flux_msg_push_pop_route_witness:
  "\<exists>m'. flux_msg_push_route sample_full [51] = Inr m' \<and> flux_msg_pop_route m' = Inr (sample_full, Some [51]) \<and>
     flux_msg_get_route_count m' = Inr 3"
  using flux_msg_push_pop_route [OF sample_full_represents, of "[[50], [49]]" "[51]"] by auto

text \<open>C19: \<open>flux_msg_get_route_string\<close> never trips its buffer assertion: it returns the hops from the
  originator to the last hop joined with exclamation marks, a 32 character UUID cut to five.\<close>

theorem flux_msg_get_route_string_correct:
  assumes "represents m a" and "a_routes a = Some rs"
  shows "flux_msg_get_route_string m = Inr (join_hops (map hop_name (rev rs)))"
  by (rule route_string_refines [OF assms])

theorem flux_msg_get_route_string_correct_witness:
  "flux_msg_get_route_string sample_full = Inr (cstr ''1!2'')"
  using flux_msg_get_route_string_correct [OF sample_full_represents, of "[[50], [49]]"]
  by (simp add: hop_name_def cstr_def of_char_def)

text \<open>C21: a JSON object packed into a message is what the next unpack sees, even when the message
  had an older object cached, provided that the JSON library's parser inverts its printer on it.\<close>

theorem flux_msg_vpack_vunpack:
  assumes "represents m a" and "json_is_object j" and "json_dumps j = Some s" and "0 \<notin> set s"
    and "json_loads s = Some j"
  shows "\<exists>m'. flux_msg_vpack json_is_object json_dumps m (Some j) = Inr m' \<and>
    flux_msg_vunpack json_loads json_is_object m' True unpack =
      (case unpack j of None \<Rightarrow> Inl EPROTO | Some r \<Rightarrow> Inr r, m'\<lparr>json := Some j\<rparr>)"
proof -
  obtain m' where m': "flux_msg_set_string m (Some s) = Inr m'" "json m' = None"
    "represents m' (a\<lparr>a_payload := Some (s @ [0])\<rparr>)"
    using set_string_refines [OF assms(1), of "Some s"] by auto
  have "flux_msg_get_string m' = Inr (Some s)"
    using get_string_refines [OF m'(3)] assms(4) by simp
  then show ?thesis
    using m' assms(2,3,5) by (simp add: flux_msg_vpack_def flux_msg_vunpack_def Let_def)
qed

theorem flux_msg_vpack_vunpack_witness:
  "\<exists>m'. flux_msg_vpack (\<lambda>j. True) (\<lambda>j. Some [123, 125]) sample_full (Some 5) = Inr m' \<and>
     fst (flux_msg_vunpack (\<lambda>s. if s = [123, 125] then Some 5 else None) (\<lambda>j. True) m' True (\<lambda>j. Some (j + 1))) = Inr 6"
  using flux_msg_vpack_vunpack [OF sample_full_represents, of "\<lambda>j. True" 5 "\<lambda>j. Some [123, 125]" "[123, 125]"
      "\<lambda>s. if s = [123, 125] then Some 5 else None" "\<lambda>j. Some (j + 1)"]
  by auto

text \<open>C36: the check that a payload is a JSON object is only made on the first unpack. A payload that
  parses to something else is refused once with \<open>EPROTO\<close>, but stays cached, and the same call
  made again on the same message succeeds.\<close>

theorem flux_msg_vunpack_caches_non_object:
  assumes "represents m a" and "json m = None" and "a_payload a = Some (s @ [0])" and "0 \<notin> set s"
    and "json_loads s = Some j" and "\<not> json_is_object j" and "unpack j = Some r"
  shows "fst (flux_msg_vunpack json_loads json_is_object m True unpack) = Inl EPROTO \<and>
    fst (flux_msg_vunpack json_loads json_is_object
           (snd (flux_msg_vunpack json_loads json_is_object m True unpack)) True unpack) = Inr r"
proof -
  have "flux_msg_get_string m = Inr (Some s)"
    using get_string_refines [OF assms(1)] assms(3,4) by simp
  then show ?thesis using assms(2,5,6,7) by (simp add: flux_msg_vunpack_def Let_def)
qed

theorem flux_msg_vunpack_caches_non_object_witness:
  "let m = sample_full\<lparr>json := None\<rparr>; unpack = flux_msg_vunpack (\<lambda>s. Some 3) (\<lambda>j. False) in
     fst (unpack m True (\<lambda>j. Some j)) = Inl EPROTO \<and>
     fst (unpack (snd (unpack m True (\<lambda>j. Some j))) True (\<lambda>j. Some j)) = Inr 3"
proof -
  have "represents (sample_full\<lparr>json := None\<rparr>)
     \<lparr>a_routes = Some [[50], [49]], a_topic = Some [97], a_payload = Some [123, 0], a_fields = sample_fields\<rparr>"
    using sample_full_represents by (simp add: represents_def)
  from flux_msg_vunpack_caches_non_object [OF this, of "[123]" "\<lambda>s. Some 3" 3 "\<lambda>j. False" Some 3]
  show ?thesis by (simp add: Let_def)
qed

text \<open>C20: \<open>flux_msg_copy\<close> gives a message with the same routes, topic and fields, with the payload
  exactly when asked for, and without the cached JSON object and the auxiliary data.\<close>

theorem flux_msg_copy_correct:
  assumes "represents m a"
  shows "\<exists>m'. flux_msg_copy m payload = Inr m' \<and> json m' = None \<and> msg_aux m' = [] \<and>
    represents m' (a\<lparr>a_payload := if payload then a_payload a else None\<rparr>) \<and>
    flux_msg_get_topic m' = flux_msg_get_topic m \<and>
    flux_msg_get_payload m' = (if payload then flux_msg_get_payload m else Inl EPROTO)"
proof -
  obtain m' where m': "flux_msg_copy m payload = Inr m'" "json m' = None" "msg_aux m' = []"
    "represents m' (a\<lparr>a_payload := if payload then a_payload a else None\<rparr>)"
    using flux_msg_copy_refines [OF assms] by blast
  then show ?thesis
    using get_topic_refines [OF m'(4)] get_topic_refines [OF assms]
      get_payload_refines(1) [OF m'(4)] get_payload_refines(1) [OF assms] by simp
qed

theorem flux_msg_copy_correct_witness:
  "\<exists>m'. flux_msg_copy sample_full False = Inr m' \<and> flux_msg_get_payload m' = Inl EPROTO \<and>
     flux_msg_get_topic m' = flux_msg_get_topic sample_full"
  using flux_msg_copy_correct [OF sample_full_represents, of False] by auto

text \<open>C22: a node id set on a request is read back unless the message was addressed upstream before.
  The upstream flag is never cleared: a request first addressed upstream of a rank and then
  readdressed to any node is accepted, but its node id can no longer be read.\<close>

theorem flux_msg_nodeid_roundtrip:
  assumes "represents m a" and "pf_type (a_fields a) = FLUX_MSGTYPE_REQUEST" and "nodeid_args_ok nid fl"
  shows "\<exists>m'. flux_msg_set_nodeid m nid fl = Inr m' \<and>
    flux_msg_get_nodeid m' =
      (if has_flag (pf_flags (a_fields a)) FLUX_MSGFLAG_UPSTREAM
       then (if nid = FLUX_NODEID_ANY then Inl EPROTO else Inr (nid, 16))
       else Inr (nid, fl))"
proof -
  obtain m' where m': "flux_msg_set_nodeid m nid fl = Inr m'"
    "represents m' (a\<lparr>a_fields := nodeid_upd nid fl (a_fields a)\<rparr>)"
    using set_nodeid_refines(1) [OF assms(1)] assms(2,3) by blast
  show ?thesis
    using m' assms(2,3) get_nodeid_refines [OF m'(2)]
    by (auto simp: Let_def nodeid_upd_def nodeid_args_ok_def)
qed

theorem flux_msg_nodeid_roundtrip_witness:
  "\<exists>m'. flux_msg_set_nodeid sample_request 5 16 = Inr m' \<and> flux_msg_get_nodeid m' = Inr (5, 16)"
proof -
  have "nodeid_args_ok 5 16" by (simp add: nodeid_args_ok_def FLUX_NODEID_UPSTREAM_def FLUX_NODEID_ANY_def)
  then show ?thesis
    using flux_msg_nodeid_roundtrip [OF sample_request_represents, of 5 16]
    by (simp add: sample_fields_def msgtype_consts has_flag_def)
qed

text \<open>\<open>flux_msg_get_topic\<close> reads the byte before the start of the topic frame when that frame
  is empty. Such a message can come from the wire: these 22 bytes decode to it.\<close>

lemma flux_msg_get_topic_out_of_bounds:
  "\<exists>m :: (nat, nat) flux_msg. flux_msg_decode (0 # 20 # sample_proto FLUX_MSGFLAG_TOPIC) 22 = Inr m \<and>
     flux_msg_get_topic m = Inl OutOfBounds"
  by (simp add: flux_msg_decode_bytes sample_proto_def Let_def flux_msg_get_topic_def zf_topic_def
      flux_msg_get_flags_def read_proto_def zmsg_last_def proto_get_flags_def proto_ok_def proto_consts
      has_flag_def msgflag_consts skip_route_def)

end
