(* ===== verification/Msg_Io.thy ===== *)
theory Msg_Io
  imports Message_Spec
begin

text \<open>
  Messages over a stream: \<open>flux_msg_sendfd\<close> and \<open>flux_msg_recvfd\<close> of
  \<^verbatim>\<open>src/common/libflux/message.c\<close> with their restartable \<open>struct flux_msg_iobuf\<close>.

  The buffer of an \<open>iobuf\<close> is the list of the bytes that are in it, \<open>None\<close> the null pointer. The
  system calls are modelled by what they return: \<open>write\<close> accepts some bytes or fails, \<open>read\<close>
  hands over at most so many bytes of the stream (none at the end of the stream) or fails. A list
  of such outcomes is consumed one per call; the value \<open>None\<close> says that the function is still
  waiting in a system call when the list is used up. The magic number is written in host byte
  order, here little endian. The sum \<open>ntohl (...) + 8\<close> is one of 32-bit unsigned integers and wraps.
\<close>

subsection \<open>Data\<close>

record flux_msg_iobuf =
  io_buf :: "byte list option"
  io_size :: nat
  io_done :: nat

definition IOBUF_MAGIC :: "byte list" where
  "IOBUF_MAGIC = [0x12, 0x00, 0xee, 0xff]"

definition IOBUF_FIXED :: nat where
  "IOBUF_FIXED = 4096"

datatype wres = WErr error | WCount nat
datatype rres = RErr error | RGive nat

definition flux_msg_iobuf_init :: flux_msg_iobuf where
  "flux_msg_iobuf_init = \<lparr>io_buf = None, io_size = 0, io_done = 0\<rparr>"

definition flux_msg_iobuf_clean :: "flux_msg_iobuf \<Rightarrow> flux_msg_iobuf" where
  "flux_msg_iobuf_clean io = \<lparr>io_buf = None, io_size = 0, io_done = 0\<rparr>"

text \<open>The exit of both functions: the buffer kept for a restart, or cleaned.\<close>

definition iobuf_exit :: "flux_msg_iobuf option \<Rightarrow> flux_msg_iobuf \<Rightarrow> 'a result \<Rightarrow> flux_msg_iobuf option \<times> 'a result" where
  "iobuf_exit iobuf io res =
     (case iobuf of
        Some _ \<Rightarrow> (Some (if res = Inl EAGAIN then io else flux_msg_iobuf_clean io), res)
      | None \<Rightarrow> (None, if res = Inl EAGAIN then Inl EPROTO else res))"

subsection \<open>Sending\<close>

text \<open>The third argument collects the bytes the stream accepted.\<close>

fun send_loop :: "flux_msg_iobuf \<Rightarrow> wres list \<Rightarrow> byte list
    \<Rightarrow> (flux_msg_iobuf \<times> byte list \<times> unit result \<times> wres list) option" where
  "send_loop io [] out = None"
| "send_loop io (WErr e # ws) out = Some (io, out, Inl e, ws)"
| "send_loop io (WCount rc # ws) out =
     (let out' = out @ take rc (drop (io_done io) (the (io_buf io)));
          io' = io\<lparr>io_done := io_done io + rc\<rparr>
      in if io_done io' < io_size io' then send_loop io' ws out' else Some (io', out', Inr (), ws))"

definition flux_msg_sendfd :: "('j, 'v) flux_msg \<Rightarrow> flux_msg_iobuf option \<Rightarrow> wres list
    \<Rightarrow> (flux_msg_iobuf option \<times> byte list \<times> unit result \<times> wres list) option" where
  "flux_msg_sendfd msg iobuf ws =
     (let io0 = (case iobuf of Some io \<Rightarrow> io | None \<Rightarrow> flux_msg_iobuf_init);
          size = flux_msg_encode_size msg + 8;
          prep = (case io_buf io0 of
                    Some _ \<Rightarrow> Inr io0
                  | None \<Rightarrow>
                      bind_result (flux_msg_encode msg (size - 8)) (\<lambda>enc.
                        Inr \<lparr>io_buf = Some (IOBUF_MAGIC @ be32_bytes (of_nat (size - 8)) @ enc),
                             io_size = size, io_done = 0\<rparr>))
      in case prep of
           Inl e \<Rightarrow> (let (iobuf', res) = iobuf_exit iobuf io0 (Inl e) in Some (iobuf', [], res, ws))
         | Inr io \<Rightarrow>
             (case send_loop io ws [] of
                None \<Rightarrow> None
              | Some (io', out, res, ws') \<Rightarrow>
                  (let (iobuf', res') = iobuf_exit iobuf io' res in Some (iobuf', out, res', ws'))))"

subsection \<open>Receiving\<close>

text \<open>The two halves of the loop body. Each returns the buffer, the rest of the stream, the rest of
  the outcomes and the error it leaves the loop with, if any.\<close>

type_synonym recv_state = "flux_msg_iobuf \<times> byte list \<times> rres list \<times> error option"

definition recv_header :: "flux_msg_iobuf \<Rightarrow> byte list \<Rightarrow> rres list \<Rightarrow> recv_state option" where
  "recv_header io st rs =
     (if io_done io < 8 then
        (case rs of
           [] \<Rightarrow> None
         | RErr e # rs' \<Rightarrow> Some (io, st, rs', Some e)
         | RGive n # rs' \<Rightarrow>
             (let rc = min (min n (8 - io_done io)) (length st);
                  io1 = io\<lparr>io_buf := Some (the (io_buf io) @ take rc st), io_done := io_done io + rc\<rparr>;
                  st1 = drop rc st
              in if rc = 0 then Some (io, st, rs', Some EPROTO)
                 else if io_done io1 = 8 then
                   (if take 4 (the (io_buf io1)) \<noteq> IOBUF_MAGIC then Some (io1, st1, rs', Some EPROTO)
                    else Some (io1\<lparr>io_size := unat (get_be32 (the (io_buf io1)) 4 + 8)\<rparr>, st1, rs', None))
                 else Some (io1, st1, rs', None)))
      else Some (io, st, rs, None))"

definition recv_body :: "flux_msg_iobuf \<Rightarrow> byte list \<Rightarrow> rres list \<Rightarrow> recv_state option" where
  "recv_body io st rs =
     (if 8 \<le> io_done io \<and> io_done io < io_size io then
        (case rs of
           [] \<Rightarrow> None
         | RErr e # rs' \<Rightarrow> Some (io, st, rs', Some e)
         | RGive n # rs' \<Rightarrow>
             (let rc = min (min n (io_size io - io_done io)) (length st);
                  io1 = io\<lparr>io_buf := Some (the (io_buf io) @ take rc st), io_done := io_done io + rc\<rparr>;
                  st1 = drop rc st
              in if rc = 0 then Some (io, st, rs', Some EPROTO) else Some (io1, st1, rs', None)))
      else Some (io, st, rs, None))"

lemma recv_header_consumes:
  "recv_header io st rs = Some (io1, st1, rs1, None) \<Longrightarrow>
     length rs1 \<le> length rs \<and> (length rs1 = length rs \<longrightarrow> io1 = io \<and> 8 \<le> io_done io)"
  by (auto simp: recv_header_def Let_def split: if_splits list.splits rres.splits)

lemma recv_body_consumes:
  "recv_body io st rs = Some (io1, st1, rs1, None) \<Longrightarrow>
     length rs1 \<le> length rs \<and> (length rs1 = length rs \<longrightarrow> io1 = io \<and> \<not> (8 \<le> io_done io \<and> io_done io < io_size io))"
  by (auto simp: recv_body_def Let_def split: if_splits list.splits rres.splits)

function recv_loop :: "flux_msg_iobuf \<Rightarrow> byte list \<Rightarrow> rres list \<Rightarrow> recv_state option" where
  "recv_loop io st rs =
     (case recv_header io st rs of
        None \<Rightarrow> None
      | Some (io1, st1, rs1, Some e) \<Rightarrow> Some (io1, st1, rs1, Some e)
      | Some (io1, st1, rs1, None) \<Rightarrow>
          (case recv_body io1 st1 rs1 of
             None \<Rightarrow> None
           | Some (io2, st2, rs2, Some e) \<Rightarrow> Some (io2, st2, rs2, Some e)
           | Some (io2, st2, rs2, None) \<Rightarrow>
               if io_done io2 < io_size io2 then recv_loop io2 st2 rs2 else Some (io2, st2, rs2, None)))"
  by pat_completeness auto
termination
proof (relation "measure (\<lambda>(io, st, rs). length rs)", simp)
qed (auto dest!: recv_header_consumes recv_body_consumes)

declare recv_loop.simps [simp del]

text \<open>\<open>flux_msg_decode\<close> is told that it has \<open>io->size - 8\<close> bytes, a difference of the type
  \<open>size_t\<close>, here of 64 bits, which wraps for a size below eight. What it has are the bytes received
  after the header; what lies behind them in memory counts as outside the buffer.\<close>

definition flux_msg_recvfd :: "flux_msg_iobuf option \<Rightarrow> byte list \<Rightarrow> rres list
    \<Rightarrow> (flux_msg_iobuf option \<times> byte list \<times> rres list \<times> ('j, 'v) flux_msg result) option" where
  "flux_msg_recvfd iobuf st rs =
     (let io0 = (case iobuf of Some io \<Rightarrow> io | None \<Rightarrow> flux_msg_iobuf_init);
          io = (case io_buf io0 of
                  Some _ \<Rightarrow> io0
                | None \<Rightarrow> io0\<lparr>io_buf := Some [], io_size := IOBUF_FIXED\<rparr>)
      in case recv_loop io st rs of
           None \<Rightarrow> None
         | Some (io', st', rs', exit) \<Rightarrow>
             (let res = (case exit of
                           Some e \<Rightarrow> Inl e
                         | None \<Rightarrow> flux_msg_decode (drop 8 (the (io_buf io')))
                                     (unat (of_nat (io_size io') - 8 :: uint64)));
                  (iobuf', res') = iobuf_exit iobuf io' res
              in Some (iobuf', st', rs', res')))"

subsection \<open>The invariant of a reception\<close>

definition wire :: "('j, 'v) flux_msg \<Rightarrow> byte list" where
  "wire m = IOBUF_MAGIC @ be32_bytes (of_nat (flux_msg_encode_size m)) @ concat (map enc_frame (zmsg m))"

text \<open>The bytes on the wire have a header that gives their number.\<close>

definition wire_ok :: "byte list \<Rightarrow> bool" where
  "wire_ok w \<longleftrightarrow> take 4 w = IOBUF_MAGIC \<and> 8 \<le> length w \<and> unat (get_be32 w 4 + 8) = length w"

definition recv_inv :: "byte list \<Rightarrow> byte list \<Rightarrow> flux_msg_iobuf \<Rightarrow> byte list \<Rightarrow> bool" where
  "recv_inv w rest io st \<longleftrightarrow>
     io_done io \<le> length w \<and> io_buf io = Some (take (io_done io) w) \<and> st = drop (io_done io) w @ rest \<and>
     io_size io = (if io_done io < 8 then IOBUF_FIXED else length w)"

text \<open>Outcomes of \<open>read\<close> on a live stream: some bytes, or \<open>EAGAIN\<close>. \<open>gives\<close> counts the former.\<close>

definition live :: "rres list \<Rightarrow> bool" where
  "live rs \<longleftrightarrow> list_all (\<lambda>r. case r of RErr e \<Rightarrow> e = EAGAIN | RGive n \<Rightarrow> 0 < n) rs"

definition gives :: "rres list \<Rightarrow> nat" where
  "gives rs = length (filter (\<lambda>r. r \<noteq> RErr EAGAIN) rs)"

lemma live_simps [simp]:
  "live []" "live (RErr e # rs) \<longleftrightarrow> e = EAGAIN \<and> live rs" "live (RGive n # rs) \<longleftrightarrow> 0 < n \<and> live rs"
  by (simp_all add: live_def)

lemma gives_simps [simp]:
  "gives [] = 0" "gives (RErr EAGAIN # rs) = gives rs" "gives (RGive n # rs) = Suc (gives rs)"
  by (simp_all add: gives_def)

lemma wire_ok_wire: "flux_msg_encode_size m < 2 ^ 32 - 8 \<Longrightarrow> wire_ok (wire m)"
proof -
  assume h: "flux_msg_encode_size m < 2 ^ 32 - 8"
  have len: "flux_msg_encode_size m = length (concat (map enc_frame (zmsg m)))"
    by (simp add: flux_msg_encode_size_def encode_size_loop_eq)
  have "get_be32 (wire m) 4 = of_nat (flux_msg_encode_size m)"
    using get_be32_bytes [of "of_nat (flux_msg_encode_size m)" "[]"]
    by (simp add: wire_def IOBUF_MAGIC_def get_be32_def be32_bytes_def)
  then have "get_be32 (wire m) 4 + 8 = of_nat (flux_msg_encode_size m + 8)" by simp
  then have "unat (get_be32 (wire m) 4 + 8) = flux_msg_encode_size m + 8"
    using h by (simp only: unat_of_nat) simp
  then show ?thesis
    by (simp add: wire_ok_def wire_def IOBUF_MAGIC_def be32_bytes_def len)
qed

lemma recv_take:
  assumes "recv_inv w rest io st" and "k \<le> length w - io_done io"
  shows "the (io_buf io) @ take k st = take (io_done io + k) w" "drop k st = drop (io_done io + k) w @ rest"
proof -
  have "k \<le> length (drop (io_done io) w)" using assms(2) by simp
  then show "the (io_buf io) @ take k st = take (io_done io + k) w"
    using assms(1) by (auto simp: recv_inv_def take_add)
  show "drop k st = drop (io_done io + k) w @ rest"
    using assms by (auto simp: recv_inv_def ac_simps)
qed

lemma get_be32_take: "off + 4 \<le> n \<Longrightarrow> get_be32 (take n w) off = get_be32 w off"
  by (simp add: get_be32_def)

text \<open>One read of the header or of the body.\<close>

definition recv_progress :: "byte list \<Rightarrow> byte list \<Rightarrow> flux_msg_iobuf \<Rightarrow> rres list \<Rightarrow> recv_state \<Rightarrow> bool" where
  "recv_progress w rest io rs = (\<lambda>(io1, st1, rs1, x).
     recv_inv w rest io1 st1 \<and> live rs1 \<and> gives rs + io_done io \<le> gives rs1 + io_done io1 \<and>
     length rs1 \<le> length rs \<and> (x = None \<or> x = Some EAGAIN \<and> length rs1 < length rs))"

lemma recv_header_progress:
  assumes inv: "recv_inv w rest io st" and w: "wire_ok w" and live: "live rs"
  shows "case recv_header io st rs of
      None \<Rightarrow> gives rs = 0 \<and> io_done io < length w
    | Some s \<Rightarrow> recv_progress w rest io rs s"
proof (cases "io_done io < 8")
  case True
  have len: "8 \<le> length w" using w by (simp add: wire_ok_def)
  show ?thesis
  proof (cases rs)
    case Nil
    then show ?thesis using True len by (simp add: recv_header_def)
  next
    case (Cons r rs')
    show ?thesis
    proof (cases r)
      case (RErr e)
      then show ?thesis using Cons True inv live by (simp add: recv_header_def recv_progress_def)
    next
      case (RGive n)
      let ?rc = "min (min n (8 - io_done io)) (length st)"
      have st: "length w - io_done io \<le> length st" using inv by (simp add: recv_inv_def)
      have n: "0 < n" "live rs'" using live Cons RGive by auto
      then have rc: "0 < ?rc" "?rc \<le> length w - io_done io" "io_done io + ?rc \<le> 8" using True st len by auto
      have magic: "take 4 (take 8 w) = IOBUF_MAGIC" "unat (get_be32 (take 8 w) 4 + 8) = length w"
        using w by (simp_all add: wire_ok_def get_be32_take)
      show ?thesis
      proof (cases "io_done io + ?rc = 8")
        case True8: True
        then have "recv_header io st rs =
            Some (io\<lparr>io_buf := Some (take 8 w), io_done := 8, io_size := length w\<rparr>, drop 8 w @ rest, rs', None)"
          using True Cons RGive rc(1) recv_take [OF inv rc(2)] magic
          by (simp add: recv_header_def Let_def)
        then show ?thesis using len n(2) Cons RGive True by (simp add: recv_progress_def recv_inv_def)
      next
        case False
        then have "recv_header io st rs =
            Some (io\<lparr>io_buf := Some (take (io_done io + ?rc) w), io_done := io_done io + ?rc\<rparr>,
                  drop (io_done io + ?rc) w @ rest, rs', None)"
          using True Cons RGive rc(1) recv_take [OF inv rc(2)]
          by (simp add: recv_header_def Let_def)
        moreover have "io_done io + ?rc < 8" using False rc(3) by linarith
        moreover have "io_size io = IOBUF_FIXED" using inv True by (simp add: recv_inv_def)
        ultimately show ?thesis using len n(2) Cons RGive rc
          by (auto simp: recv_progress_def recv_inv_def Suc_le_eq)
      qed
    qed
  qed
next
  case False
  then show ?thesis using inv live by (simp add: recv_header_def recv_progress_def)
qed

lemma recv_body_progress:
  assumes inv: "recv_inv w rest io st" and live: "live rs"
  shows "case recv_body io st rs of
      None \<Rightarrow> gives rs = 0 \<and> io_done io < length w
    | Some s \<Rightarrow> recv_progress w rest io rs s"
proof (cases "8 \<le> io_done io \<and> io_done io < io_size io")
  case True
  then have size: "io_size io = length w" using inv by (simp add: recv_inv_def)
  show ?thesis
  proof (cases rs)
    case Nil
    then show ?thesis using True size by (simp add: recv_body_def)
  next
    case (Cons r rs')
    show ?thesis
    proof (cases r)
      case (RErr e)
      then show ?thesis using Cons True inv live by (simp add: recv_body_def recv_progress_def)
    next
      case (RGive n)
      let ?rc = "min (min n (io_size io - io_done io)) (length st)"
      have st: "length w - io_done io \<le> length st" using inv by (simp add: recv_inv_def)
      have n: "0 < n" "live rs'" using live Cons RGive by auto
      then have rc: "0 < ?rc" "?rc \<le> length w - io_done io" using True st size by auto
      then have "recv_body io st rs =
          Some (io\<lparr>io_buf := Some (take (io_done io + ?rc) w), io_done := io_done io + ?rc\<rparr>,
                drop (io_done io + ?rc) w @ rest, rs', None)"
        using True Cons RGive recv_take [OF inv rc(2)] by (simp add: recv_body_def Let_def)
      then show ?thesis using n(2) Cons RGive rc True size
        by (auto simp: recv_progress_def recv_inv_def Suc_le_eq)
    qed
  qed
next
  case False
  then have "recv_body io st rs = Some (io, st, rs, None)" by (auto simp: recv_body_def)
  then show ?thesis using inv live by (simp add: recv_progress_def)
qed

lemma recv_progress_trans:
  "recv_progress w rest io rs (io1, st1, rs1, None) \<Longrightarrow> recv_progress w rest io1 rs1 s \<Longrightarrow>
     recv_progress w rest io rs s"
  by (cases s) (auto simp: recv_progress_def)

lemma recv_loop_progress:
  assumes "recv_inv w rest io st" and "wire_ok w" and "live rs"
  shows "case recv_loop io st rs of
      None \<Rightarrow> gives rs + io_done io < length w
    | Some (io', st', rs', x) \<Rightarrow> recv_progress w rest io rs (io', st', rs', x) \<and>
        (x = None \<longrightarrow> io_done io' = length w)"
  using assms
proof (induction io st rs rule: recv_loop.induct)
  case (1 io st rs)
  note inv = 1(2) and w = 1(3) and live = 1(4)
  note header = recv_header_progress [OF inv w live]
  note step = recv_loop.simps [of io st rs]
  show ?case
  proof (cases "recv_header io st rs")
    case None
    then show ?thesis using header by (simp add: step)
  next
    case (Some s)
    obtain io1 st1 rs1 x1 where s: "s = (io1, st1, rs1, x1)" by (cases s)
    have p1: "recv_progress w rest io rs (io1, st1, rs1, x1)" using header Some s by simp
    show ?thesis
    proof (cases x1)
      case (Some e)
      then show ?thesis using \<open>recv_header io st rs = Some s\<close> s p1 by (simp add: step)
    next
      case x1: None
      have inv1: "recv_inv w rest io1 st1" "live rs1" using p1 by (auto simp: recv_progress_def)
      note body = recv_body_progress [OF inv1]
      show ?thesis
      proof (cases "recv_body io1 st1 rs1")
        case None
        then show ?thesis using \<open>recv_header io st rs = Some s\<close> s x1 body p1 by (simp add: step recv_progress_def)
      next
        case body_some: (Some s2)
        obtain io2 st2 rs2 x2 where s2: "s2 = (io2, st2, rs2, x2)" by (cases s2)
        have "recv_progress w rest io1 rs1 (io2, st2, rs2, x2)" using body body_some s2 by simp
        then have p2: "recv_progress w rest io rs (io2, st2, rs2, x2)"
          using recv_progress_trans p1 x1 by blast
        have inv2: "recv_inv w rest io2 st2" "live rs2" using p2 by (auto simp: recv_progress_def)
        have fin: "\<not> io_done io2 < io_size io2 \<Longrightarrow> io_done io2 = length w"
          using inv2(1) by (auto simp: recv_inv_def IOBUF_FIXED_def split: if_splits)
        have ih: "x2 = None \<Longrightarrow> io_done io2 < io_size io2 \<Longrightarrow>
          case recv_loop io2 st2 rs2 of
            None \<Rightarrow> gives rs2 + io_done io2 < length w
          | Some (io', st', rs', x) \<Rightarrow> recv_progress w rest io2 rs2 (io', st', rs', x) \<and>
              (x = None \<longrightarrow> io_done io' = length w)"
          by (rule 1(1)) (use \<open>recv_header io st rs = Some s\<close> s x1 body_some s2 inv2 w in auto)
        show ?thesis
          using \<open>recv_header io st rs = Some s\<close> s x1 body_some s2 p2 fin ih
          by (cases x2; cases "io_done io2 < io_size io2"; cases "recv_loop io2 st2 rs2")
            (auto simp: step recv_progress_def)
      qed
    qed
  qed
qed

subsection \<open>Restarted calls\<close>

text \<open>A caller that calls again, with the same buffer, as long as it is told \<open>EAGAIN\<close>.\<close>

inductive recv_calls :: "flux_msg_iobuf \<Rightarrow> byte list \<Rightarrow> rres list \<Rightarrow> ('j, 'v) flux_msg result \<Rightarrow> byte list \<Rightarrow> bool" where
  recv_last: "flux_msg_recvfd (Some io) st rs = Some (iobuf, st', rs', res) \<Longrightarrow> res \<noteq> Inl EAGAIN \<Longrightarrow>
    recv_calls io st rs res st'"
| recv_again: "flux_msg_recvfd (Some io) st rs = Some (Some io', st', rs', Inl EAGAIN :: ('j, 'v) flux_msg result) \<Longrightarrow>
    recv_calls io' st' rs' res st'' \<Longrightarrow> recv_calls io st rs res st''"

text \<open>The last argument of \<open>send_calls\<close> is what all its calls together put on the stream.\<close>

inductive send_calls :: "('j, 'v) flux_msg \<Rightarrow> flux_msg_iobuf \<Rightarrow> wres list \<Rightarrow> unit result \<Rightarrow> byte list \<Rightarrow> bool" where
  send_last: "flux_msg_sendfd msg (Some io) ws = Some (iobuf, out, res, ws') \<Longrightarrow> res \<noteq> Inl EAGAIN \<Longrightarrow>
    send_calls msg io ws res out"
| send_again: "flux_msg_sendfd msg (Some io) ws = Some (Some io', out, Inl EAGAIN, ws') \<Longrightarrow>
    send_calls msg io' ws' res out' \<Longrightarrow> send_calls msg io ws res (out @ out')"

inductive_cases recv_callsE: "recv_calls io st rs res st'"
inductive_cases send_callsE: "send_calls msg io ws res out"

text \<open>A buffer that a reception can start or go on from.\<close>

definition recv_ready :: "byte list \<Rightarrow> byte list \<Rightarrow> flux_msg_iobuf \<Rightarrow> byte list \<Rightarrow> bool" where
  "recv_ready w rest io st \<longleftrightarrow> recv_inv w rest io st \<or> io = flux_msg_iobuf_init \<and> st = w @ rest"

lemma wire_ok_size:
  assumes "wire_ok w"
  shows "unat (of_nat (length w) - 8 :: uint64) = length w - 8"
proof -
  have "unat (get_be32 w 4 + 8) < 2 ^ 32" using unsigned_less [of "get_be32 w 4 + 8"] by simp
  then have "length w < 2 ^ 32" "8 \<le> length w" using assms by (simp_all add: wire_ok_def)
  then show ?thesis
    by (simp add: unat_sub word_le_nat_alt unat_of_nat)
qed

lemma recvfd_progress:
  assumes "recv_ready w rest io st" and "wire_ok w" and "live rs" and "length w \<le> gives rs + io_done io"
  shows "(\<exists>io' st' rs'. flux_msg_recvfd (Some io) st rs = Some (Some io', st', rs', Inl EAGAIN :: ('j, 'v) flux_msg result) \<and>
      recv_ready w rest io' st' \<and> live rs' \<and> length rs' < length rs \<and> length w \<le> gives rs' + io_done io') \<or>
    (\<exists>iobuf' rs'. flux_msg_recvfd (Some io) st rs =
        Some (iobuf', rest, rs', flux_msg_decode (drop 8 w) (length w - 8) :: ('j, 'v) flux_msg result))"
proof -
  let ?io = "case io_buf io of Some _ \<Rightarrow> io | None \<Rightarrow> io\<lparr>io_buf := Some [], io_size := IOBUF_FIXED\<rparr>"
  have inv: "recv_inv w rest ?io st" and d: "io_done ?io = io_done io"
    using assms(1) by (auto simp: recv_ready_def recv_inv_def flux_msg_iobuf_init_def)
  note p = recv_loop_progress [OF inv assms(2,3)]
  obtain io' st' rs' x where loop: "recv_loop ?io st rs = Some (io', st', rs', x)"
    using p assms(4) d by (cases "recv_loop ?io st rs") auto
  have eq: "(flux_msg_recvfd (Some io) st rs :: (_ \<times> _ \<times> _ \<times> ('j, 'v) flux_msg result) option) =
      (let (iobuf', res') = iobuf_exit (Some io) io'
             (case x of Some e \<Rightarrow> Inl e
              | None \<Rightarrow> flux_msg_decode (drop 8 (the (io_buf io'))) (unat (of_nat (io_size io') - 8 :: uint64)))
       in Some (iobuf', st', rs', res'))"
    using loop by (simp add: flux_msg_recvfd_def)
  have pr: "recv_progress w rest ?io rs (io', st', rs', x)" "x = None \<longrightarrow> io_done io' = length w"
    using p loop by auto
  show ?thesis
  proof (cases x)
    case None
    then have "io_buf io' = Some w" "io_size io' = length w" "st' = rest" "8 \<le> length w"
      using pr assms(2) by (auto simp: recv_progress_def recv_inv_def wire_ok_def)
    then show ?thesis using eq None wire_ok_size [OF assms(2)] by (simp add: iobuf_exit_def)
  next
    case (Some e)
    then have "e = EAGAIN" "recv_inv w rest io' st'" "live rs'" "length rs' < length rs"
      "length w \<le> gives rs' + io_done io'"
      using pr(1) assms(4) d by (auto simp: recv_progress_def)
    then show ?thesis using eq Some by (simp add: iobuf_exit_def recv_ready_def)
  qed
qed

lemma recv_calls_complete:
  fixes m' :: "('j, 'v) flux_msg"
  assumes "recv_ready w rest io st" and "wire_ok w" and "live rs" and "length w \<le> gives rs + io_done io"
    and m': "flux_msg_decode (drop 8 w) (length w - 8) = Inr m'"
  shows "recv_calls io st rs (Inr m') rest \<and>
    (\<forall>res :: ('j, 'v) flux_msg result. \<forall>st'. recv_calls io st rs res st' \<longrightarrow> res = Inr m' \<and> st' = rest)"
  using assms(1,3,4)
proof (induction "length rs" arbitrary: io st rs rule: less_induct)
  case less
  from recvfd_progress [OF less.prems(1) assms(2) less.prems(2,3), where ?'j = 'j and ?'v = 'v]
  show ?case
  proof (elim disjE exE conjE)
    fix io' st' rs'
    assume h: "flux_msg_recvfd (Some io) st rs = Some (Some io', st', rs', Inl EAGAIN :: ('j, 'v) flux_msg result)"
      "recv_ready w rest io' st'" "live rs'" "length rs' < length rs" "length w \<le> gives rs' + io_done io'"
    note ih = less.hyps [OF h(4,2,3,5)]
    have "res = Inr m' \<and> st'' = rest" if "recv_calls io st rs res st''" for res :: "('j, 'v) flux_msg result" and st''
      using that by (rule recv_callsE) (use h(1) ih in auto)
    moreover have "recv_calls io st rs (Inr m') rest" using recv_again [OF h(1)] ih by blast
    ultimately show ?thesis by blast
  next
    fix iobuf' rs'
    assume h: "flux_msg_recvfd (Some io) st rs =
        Some (iobuf', rest, rs', flux_msg_decode (drop 8 w) (length w - 8) :: ('j, 'v) flux_msg result)"
    have "res = Inr m' \<and> st'' = rest" if "recv_calls io st rs res st''" for res :: "('j, 'v) flux_msg result" and st''
      using that by (rule recv_callsE) (use h m' in auto)
    moreover have "recv_calls io st rs (Inr m') rest" using recv_last [OF h] m' by simp
    ultimately show ?thesis by blast
  qed
qed

subsection \<open>Sending with restarts\<close>

definition wlive :: "wres list \<Rightarrow> bool" where
  "wlive ws \<longleftrightarrow> list_all (\<lambda>r. case r of WErr e \<Rightarrow> e = EAGAIN | WCount n \<Rightarrow> 0 < n) ws"

definition wgives :: "wres list \<Rightarrow> nat" where
  "wgives ws = length (filter (\<lambda>r. r \<noteq> WErr EAGAIN) ws)"

lemma wlive_simps [simp]:
  "wlive []" "wlive (WErr e # ws) \<longleftrightarrow> e = EAGAIN \<and> wlive ws" "wlive (WCount n # ws) \<longleftrightarrow> 0 < n \<and> wlive ws"
  by (simp_all add: wlive_def)

lemma wgives_simps [simp]:
  "wgives [] = 0" "wgives (WErr EAGAIN # ws) = wgives ws" "wgives (WCount n # ws) = Suc (wgives ws)"
  by (simp_all add: wgives_def)

definition send_inv :: "byte list \<Rightarrow> flux_msg_iobuf \<Rightarrow> bool" where
  "send_inv w io \<longleftrightarrow> io_buf io = Some w \<and> io_size io = length w \<and> io_done io < length w"

lemma send_loop_progress:
  assumes "send_inv w io" and "wlive ws"
  shows "case send_loop io ws out of
      None \<Rightarrow> wgives ws + io_done io < length w
    | Some (io', out', res, ws') \<Rightarrow>
        res = Inr () \<and> out' = out @ drop (io_done io) w \<or>
        res = Inl EAGAIN \<and> send_inv w io' \<and> wlive ws' \<and> length ws' < length ws \<and>
          wgives ws + io_done io \<le> wgives ws' + io_done io' \<and>
          out' @ drop (io_done io') w = out @ drop (io_done io) w"
  using assms
proof (induction io ws out rule: send_loop.induct)
  case (3 io rc ws out)
  let ?io = "io\<lparr>io_done := io_done io + rc\<rparr>" and ?out = "out @ take rc (drop (io_done io) w)"
  have "0 < rc" using 3(3) by simp
  have buf: "the (io_buf io) = w" "io_size io = length w" using 3(2) by (auto simp: send_inv_def)
  have split: "?out @ drop (io_done io + rc) w = out @ drop (io_done io) w"
    by (metis append.assoc append_take_drop_id drop_drop add.commute)
  show ?case
  proof (cases "io_done io + rc < length w")
    case True
    then have "send_inv w ?io" "wlive ws" using 3(2,3) by (auto simp: send_inv_def)
    from 3(1) [OF refl refl _ this] True buf
    show ?thesis using split \<open>0 < rc\<close> by (auto split: option.splits prod.splits)
  next
    case False
    then show ?thesis using buf split by simp
  qed
qed (auto simp: send_inv_def)

definition send_ready :: "byte list \<Rightarrow> flux_msg_iobuf \<Rightarrow> bool" where
  "send_ready w io \<longleftrightarrow> send_inv w io \<or> io = flux_msg_iobuf_init"

lemma sendfd_progress:
  fixes m :: "('j, 'v) flux_msg"
  defines "w \<equiv> wire m"
  assumes "send_ready w io" and "wlive ws" and "length w \<le> wgives ws + io_done io"
  shows "(\<exists>iobuf' ws'. flux_msg_sendfd m (Some io) ws = Some (iobuf', drop (io_done io) w, Inr (), ws')) \<or>
    (\<exists>io' out ws'. flux_msg_sendfd m (Some io) ws = Some (Some io', out, Inl EAGAIN, ws') \<and>
       send_ready w io' \<and> wlive ws' \<and> length ws' < length ws \<and> length w \<le> wgives ws' + io_done io' \<and>
       out @ drop (io_done io') w = drop (io_done io) w)"
proof -
  let ?io = "case io_buf io of Some _ \<Rightarrow> io | None \<Rightarrow> \<lparr>io_buf = Some w, io_size = length w, io_done = 0\<rparr>"
  have len: "length w = flux_msg_encode_size m + 8"
    by (simp add: w_def wire_def IOBUF_MAGIC_def be32_bytes_def flux_msg_encode_size_def encode_size_loop_eq)
  have enc: "flux_msg_encode m (flux_msg_encode_size m) = Inr (concat (map enc_frame (zmsg m)))"
    by (simp add: flux_msg_encode_def flux_msg_encode_size_def encode_size_loop_eq encode_loop_eq)
  have inv: "send_inv w ?io" and d: "io_done ?io = io_done io"
    using assms(2) len by (auto simp: send_ready_def send_inv_def flux_msg_iobuf_init_def)
  note p = send_loop_progress [OF inv assms(3), of "[]"]
  obtain io' out res ws' where loop: "send_loop ?io ws [] = Some (io', out, res, ws')"
    using p assms(4) d by (cases "send_loop ?io ws []") auto
  have prep: "flux_msg_sendfd m (Some io) ws =
      (let (iobuf', res') = iobuf_exit (Some io) io' res in Some (iobuf', out, res', ws'))"
    using loop enc len by (cases "io_buf io") (simp_all add: flux_msg_sendfd_def w_def wire_def)
  show ?thesis
    using p loop prep d assms(4) by (auto simp: iobuf_exit_def send_ready_def)
qed

lemma send_calls_complete:
  assumes "send_ready (wire m) io" and "wlive ws" and "length (wire m) \<le> wgives ws + io_done io"
  shows "send_calls m io ws (Inr ()) (drop (io_done io) (wire m)) \<and>
    (\<forall>res out. send_calls m io ws res out \<longrightarrow> res = Inr () \<and> out = drop (io_done io) (wire m))"
  using assms
proof (induction "length ws" arbitrary: io ws rule: less_induct)
  case less
  from sendfd_progress [OF less.prems] show ?case
  proof (elim disjE exE conjE)
    fix iobuf' ws'
    assume h: "flux_msg_sendfd m (Some io) ws = Some (iobuf', drop (io_done io) (wire m), Inr (), ws')"
    have "res = Inr () \<and> out = drop (io_done io) (wire m)" if "send_calls m io ws res out" for res out
      using that by (rule send_callsE) (use h in auto)
    moreover have "send_calls m io ws (Inr ()) (drop (io_done io) (wire m))" using send_last [OF h] by simp
    ultimately show ?thesis by blast
  next
    fix io' out ws'
    assume h: "flux_msg_sendfd m (Some io) ws = Some (Some io', out, Inl EAGAIN, ws')"
      "send_ready (wire m) io'" "wlive ws'" "length ws' < length ws" "length (wire m) \<le> wgives ws' + io_done io'"
      and out: "out @ drop (io_done io') (wire m) = drop (io_done io) (wire m)"
    note ih = less.hyps [OF h(4,2,3,5)]
    have "res = Inr () \<and> out'' = drop (io_done io) (wire m)" if "send_calls m io ws res out''" for res out''
      using that by (rule send_callsE) (use h(1) ih out in auto)
    moreover have "send_calls m io ws (Inr ()) (drop (io_done io) (wire m))"
      using send_again [OF h(1)] ih out by metis
    ultimately show ?thesis by blast
  qed
qed

subsection \<open>Properties\<close>

text \<open>C9: restarting works. However \<open>write\<close> cuts up the bytes and however often it says \<open>EAGAIN\<close>,
  repeated \<open>flux_msg_sendfd\<close> calls with one buffer put exactly one copy of the encoded message on
  the stream; however \<open>read\<close> cuts it up, repeated \<open>flux_msg_recvfd\<close> calls return the message with
  the same frames and leave what follows on the stream unread. Both finish once the system calls
  have moved as many chunks as there are bytes.\<close>

theorem sendfd_recvfd_roundtrip:
  fixes m :: "('j, 'v) flux_msg"
  assumes "flux_msg_encode_size m < 2 ^ 32 - 8"
    and "wlive ws" and "flux_msg_encode_size m + 8 \<le> wgives ws"
    and "live rs" and "flux_msg_encode_size m + 8 \<le> gives rs"
  shows "\<exists>out. send_calls m flux_msg_iobuf_init ws (Inr ()) out \<and>
    (\<forall>res out'. send_calls m flux_msg_iobuf_init ws res out' \<longrightarrow> res = Inr () \<and> out' = out) \<and>
    (\<forall>rest. recv_calls flux_msg_iobuf_init (out @ rest) rs
      (Inr (\<lparr>zmsg = zmsg m, json = None, msg_aux = []\<rparr> :: ('j, 'v) flux_msg)) rest)"
proof -
  have len: "length (wire m) = flux_msg_encode_size m + 8"
    by (simp add: wire_def IOBUF_MAGIC_def be32_bytes_def flux_msg_encode_size_def encode_size_loop_eq)
  have small: "length f < 2 ^ 32" if "f \<in> set (zmsg m)" for f
  proof -
    have "length f \<le> length (enc_frame f)" by (simp add: enc_frame_def)
    also have "\<dots> \<le> flux_msg_encode_size m"
      using that by (simp add: flux_msg_encode_size_def encode_size_loop_eq length_concat member_le_sum_list)
    finally show ?thesis using assms(1) by simp
  qed
  then have dec: "flux_msg_decode (drop 8 (wire m)) (length (wire m) - 8) = Inr (\<lparr>zmsg = zmsg m, json = None, msg_aux = []\<rparr> :: ('j, 'v) flux_msg)"
    by (simp add: wire_def IOBUF_MAGIC_def be32_bytes_def flux_msg_decode_bytes decode_bytes_enc)
  have "send_ready (wire m) flux_msg_iobuf_init" by (simp add: send_ready_def)
  from send_calls_complete [OF this assms(2)] assms(3) len
  have send: "send_calls m flux_msg_iobuf_init ws (Inr ()) (wire m)"
    "\<forall>res out. send_calls m flux_msg_iobuf_init ws res out \<longrightarrow> res = Inr () \<and> out = wire m"
    by (auto simp: flux_msg_iobuf_init_def)
  have "recv_calls flux_msg_iobuf_init (wire m @ rest) rs
      (Inr (\<lparr>zmsg = zmsg m, json = None, msg_aux = []\<rparr> :: ('j, 'v) flux_msg)) rest" for rest
    using recv_calls_complete [OF _ wire_ok_wire [OF assms(1)] assms(4) _ dec, of rest flux_msg_iobuf_init "wire m @ rest"]
      assms(5) len by (simp add: recv_ready_def flux_msg_iobuf_init_def)
  with send show ?thesis by blast
qed

theorem sendfd_recvfd_roundtrip_witness:
  "\<exists>out. send_calls sample_request flux_msg_iobuf_init (WErr EAGAIN # replicate 29 (WCount 1)) (Inr ()) out \<and>
     recv_calls flux_msg_iobuf_init out (replicate 29 (RGive 3)) (Inr sample_request) []"
proof -
  define ws rs where "ws = WErr EAGAIN # replicate 29 (WCount 1)" and "rs = replicate 29 (RGive 3)"
  have size: "flux_msg_encode_size sample_request = 21"
    by (simp add: flux_msg_encode_size_def sample_request_def sample_proto_def)
  have "wlive ws" "wgives ws = 29" "live rs" "gives rs = 29"
    by (simp_all add: ws_def rs_def wlive_def wgives_def live_def gives_def list_all_iff)
  with sendfd_recvfd_roundtrip [of sample_request ws rs] size
  obtain out where out: "send_calls sample_request flux_msg_iobuf_init ws (Inr ()) out"
    "\<And>rest. recv_calls flux_msg_iobuf_init (out @ rest) rs
        (Inr (\<lparr>zmsg = zmsg sample_request, json = None, msg_aux = []\<rparr> :: (nat, nat) flux_msg)) rest"
    by auto
  have "\<lparr>zmsg = zmsg sample_request, json = None, msg_aux = []\<rparr> = sample_request"
    by (simp add: sample_request_def)
  with out(1) out(2) [of "[]"] show ?thesis unfolding ws_def rs_def by auto
qed

lemma announced_wraps:
  assumes "0xfffffff8 \<le> (x :: uint32)"
  shows "unat (x + 8) < 8" and "0 < unat (of_nat (unat (x + 8)) - 8 :: uint64)"
proof -
  have "unat x < 2 ^ 32" "0xfffffff8 \<le> unat x"
    using assms unsigned_less [of x] by (simp_all add: word_le_nat_alt)
  then show less: "unat (x + 8) < 8" by (simp add: unat_word_ariths(1) mod_if; linarith)
  have "of_nat n \<noteq> (8 :: uint64)" if "n < 8" for n
    using that by (simp add: word_unat_eq_iff unat_of_nat)
  with less have "of_nat (unat (x + 8)) \<noteq> (8 :: uint64)" by blast
  then show "0 < unat (of_nat (unat (x + 8)) - 8 :: uint64)"
    by (simp add: unat_gt_0)
qed



end
