(* ===== verification/Service.thy ===== *)
theory Service
  imports Message_Spec
begin

text \<open>
  The broker's service switch: \<^verbatim>\<open>src/broker/service.c\<close>. A service is a callback with its argument,
  here one value of type \<open>'cb\<close>, and the UUID of the module that registered it, if any. The switch
  is a hash table from service names to services. Sending returns the callback that the C code
  calls with the message.
\<close>

subsection \<open>Definitions\<close>

record 'cb service =
  svc_cb :: 'cb
  svc_uuid :: "cstring option"

type_synonym 'cb service_switch = "'cb service zhash"

definition service_switch_create :: "'cb service_switch" where
  "service_switch_create = []"

definition service_create :: "cstring option \<Rightarrow> 'cb \<Rightarrow> 'cb service" where
  "service_create uuid cb = \<lparr>svc_cb = cb, svc_uuid = uuid\<rparr>"

definition service_remove :: "'cb service_switch \<Rightarrow> cstring \<Rightarrow> 'cb service_switch" where
  "service_remove sw name = zhash_delete sw name"

definition service_get_uuid :: "'cb service_switch \<Rightarrow> cstring \<Rightarrow> cstring option" where
  "service_get_uuid sw name =
     (case map_of sw name of None \<Rightarrow> None | Some svc \<Rightarrow> svc_uuid svc)"

fun service_list_loop :: "'cb service_switch \<Rightarrow> cstring option \<Rightarrow> cstring list \<Rightarrow> cstring list" where
  "service_list_loop [] uuid svcs = svcs"
| "service_list_loop ((name, svc) # rest) uuid svcs =
     service_list_loop rest uuid
       (if uuid \<noteq> None \<and> svc_uuid svc \<noteq> None \<and> the uuid = the (svc_uuid svc) then svcs @ [name] else svcs)"

definition service_list_byuuid :: "'cb service_switch \<Rightarrow> cstring option \<Rightarrow> cstring list" where
  "service_list_byuuid sw uuid = service_list_loop sw uuid []"

text \<open>The names of the services to delete are pushed on a list first, then popped one by one.\<close>

fun trash_loop :: "'cb service_switch \<Rightarrow> cstring \<Rightarrow> cstring list \<Rightarrow> cstring list" where
  "trash_loop [] uuid trash = trash"
| "trash_loop ((name, svc) # rest) uuid trash =
     trash_loop rest uuid
       (if svc_uuid svc \<noteq> None \<and> the (svc_uuid svc) = uuid then name # trash else trash)"

fun delete_loop :: "'cb service_switch \<Rightarrow> cstring list \<Rightarrow> 'cb service_switch" where
  "delete_loop sw [] = sw"
| "delete_loop sw (key # trash) = delete_loop (zhash_delete sw key) trash"

definition service_remove_byuuid :: "'cb service_switch \<Rightarrow> cstring \<Rightarrow> 'cb service_switch" where
  "service_remove_byuuid sw uuid = delete_loop sw (trash_loop sw uuid [])"

definition service_add :: "'cb service_switch \<Rightarrow> cstring \<Rightarrow> cstring option \<Rightarrow> 'cb \<Rightarrow> 'cb service_switch result" where
  "service_add sw name uuid cb =
     (if 0x2e \<in> set name then Inl EINVAL
      else if map_of sw name \<noteq> None then Inl EEXIST
      else case zhash_insert sw name (service_create uuid cb) of
        None \<Rightarrow> Inl ENOMEM
      | Some sw' \<Rightarrow> Inr sw')"

definition service_lookup_subtopic :: "'cb service_switch \<Rightarrow> cstring \<Rightarrow> nat \<Rightarrow> 'cb service result" where
  "service_lookup_subtopic sw topic len =
     (case map_of sw (take len topic) of None \<Rightarrow> Inl ENOSYS | Some svc \<Rightarrow> Inr svc)"

definition service_send :: "'cb service_switch \<Rightarrow> ('j, 'v) flux_msg \<Rightarrow> 'cb result" where
  "service_send sw msg =
     bind_result (flux_msg_get_topic msg) (\<lambda>topic.
       let len = (if 0x2e \<in> set topic then length (takeWhile (\<lambda>c. c \<noteq> 0x2e) topic) else length topic)
       in bind_result (service_lookup_subtopic sw topic len) (\<lambda>svc. Inr (svc_cb svc)))"

subsection \<open>Contract of a directory of services\<close>

text \<open>What a client of the switch relies on: names resolve to what was registered last under them,
  and removing an owner removes exactly the owner's entries.\<close>

locale service_directory =
  fixes resolve :: "'d \<Rightarrow> cstring \<Rightarrow> 's option"
    and register :: "'d \<Rightarrow> cstring \<Rightarrow> 's \<Rightarrow> 'd option"
    and drop_name :: "'d \<Rightarrow> cstring \<Rightarrow> 'd"
    and drop_owner :: "'d \<Rightarrow> cstring \<Rightarrow> 'd"
    and owner :: "'s \<Rightarrow> cstring option"
    and ok :: "'d \<Rightarrow> bool"
  assumes register: "ok d \<Longrightarrow> register d n s = Some d' \<Longrightarrow>
      ok d' \<and> resolve d n = None \<and> resolve d' = (resolve d)(n \<mapsto> s)"
    and drop_name: "ok d \<Longrightarrow> ok (drop_name d n) \<and> resolve (drop_name d n) = (resolve d)(n := None)"
    and drop_owner: "ok d \<Longrightarrow> ok (drop_owner d u) \<and>
      resolve (drop_owner d u) = (\<lambda>n. case resolve d n of None \<Rightarrow> None | Some s \<Rightarrow> if owner s = Some u then None else Some s)"
begin

lemma register_drop_name:
  assumes "ok d" and "register d n s = Some d'"
  shows "resolve (drop_name d' n) = resolve d"
  using register [OF assms] drop_name [of d' n] by (auto simp: fun_eq_iff)

lemma drop_owner_gone:
  assumes "ok d" and "resolve (drop_owner d u) n = Some s"
  shows "owner s \<noteq> Some u \<and> resolve d n = Some s"
  using drop_owner [OF assms(1), of u] assms(2) by (auto split: option.splits if_splits)

lemma drop_owner_keeps:
  assumes "ok d" and "resolve d n = Some s" and "owner s \<noteq> Some u"
  shows "resolve (drop_owner d u) n = Some s"
  using drop_owner [OF assms(1), of u] assms(2,3) by auto

lemma drop_owner_frees_name:
  assumes "ok d" and "register d n s = Some d'" and "owner s = Some u"
  shows "resolve (drop_owner d' u) n = None"
  using register [OF assms(1,2)] drop_owner [of d' u] assms(3) by simp

end

lemma trash_loop_eq:
  "set (trash_loop sw uuid trash) = set trash \<union> {name. \<exists>svc. (name, svc) \<in> set sw \<and> svc_uuid svc = Some uuid}"
  by (induction sw uuid trash rule: trash_loop.induct) auto

lemma delete_loop_lookup:
  "map_of (delete_loop sw trash) = (\<lambda>n. if n \<in> set trash then None else map_of sw n)"
  by (induction sw trash rule: delete_loop.induct) (auto simp: zhash_delete_lookup fun_eq_iff)

lemma delete_loop_ok: "zhash_ok sw \<Longrightarrow> zhash_ok (delete_loop sw trash)"
  by (induction sw trash rule: delete_loop.induct) auto

lemma service_remove_byuuid_ok: "zhash_ok sw \<Longrightarrow> zhash_ok (service_remove_byuuid sw uuid)"
  by (simp add: service_remove_byuuid_def delete_loop_ok)

lemma service_remove_byuuid_lookup:
  assumes "zhash_ok sw"
  shows "map_of (service_remove_byuuid sw uuid) n =
    (case map_of sw n of None \<Rightarrow> None | Some svc \<Rightarrow> if svc_uuid svc = Some uuid then None else Some svc)"
proof -
  have "n \<in> set (trash_loop sw uuid []) \<longleftrightarrow> (\<exists>svc. map_of sw n = Some svc \<and> svc_uuid svc = Some uuid)"
    using assms by (auto simp: trash_loop_eq zhash_ok_def)
  then show ?thesis by (auto simp: service_remove_byuuid_def delete_loop_lookup split: option.splits)
qed

text \<open>Registration of a service value: \<open>service_add\<close> with the parts of the service.\<close>

definition switch_register :: "'cb service_switch \<Rightarrow> cstring \<Rightarrow> 'cb service \<Rightarrow> 'cb service_switch option" where
  "switch_register sw n svc = (case service_add sw n (svc_uuid svc) (svc_cb svc) of Inl _ \<Rightarrow> None | Inr sw' \<Rightarrow> Some sw')"

lemma service_add_Inr:
  assumes "service_add sw name uuid cb = Inr sw'"
  shows "0x2e \<notin> set name" "map_of sw name = None"
    "map_of sw' = (map_of sw)(name \<mapsto> \<lparr>svc_cb = cb, svc_uuid = uuid\<rparr>)" "zhash_ok sw \<Longrightarrow> zhash_ok sw'"
  using assms
  by (auto simp: service_add_def service_create_def zhash_insert_lookup split: if_splits option.splits)

interpretation switch: service_directory map_of switch_register service_remove service_remove_byuuid svc_uuid zhash_ok
proof unfold_locales
  fix d d' :: "'cb service_switch" and n and s :: "'cb service"
  assume "zhash_ok d" "switch_register d n s = Some d'"
  then show "zhash_ok d' \<and> map_of d n = None \<and> map_of d' = (map_of d)(n \<mapsto> s)"
    using service_add_Inr [of d n "svc_uuid s" "svc_cb s" d']
    by (auto simp: switch_register_def split: sum.splits)
qed (auto simp: service_remove_def zhash_delete_lookup service_remove_byuuid_lookup fun_eq_iff
    service_remove_byuuid_ok)

subsection \<open>Dispatch\<close>

text \<open>The name a topic selects: everything before the first dot.\<close>

definition topic_service :: "cstring \<Rightarrow> cstring" where
  "topic_service topic = takeWhile (\<lambda>c. c \<noteq> 0x2e) topic"

lemma topic_service_plain: "0x2e \<notin> set name \<Longrightarrow> topic_service name = name"
  by (induction name) (auto simp: topic_service_def)

lemma service_send_topic:
  assumes "flux_msg_get_topic msg = Inr topic"
  shows "service_send sw msg =
    (case map_of sw (topic_service topic) of None \<Rightarrow> Inl ENOSYS | Some svc \<Rightarrow> Inr (svc_cb svc))"
proof -
  have "take (if 0x2e \<in> set topic then length (takeWhile (\<lambda>c. c \<noteq> 0x2e) topic) else length topic) topic
      = topic_service topic"
  proof (cases "0x2e \<in> set topic")
    case True
    have "take (length (takeWhile (\<lambda>c. c \<noteq> 0x2e) topic)) topic = takeWhile (\<lambda>c. c \<noteq> 0x2e) topic"
      by (rule takeWhile_eq_take [symmetric])
    with True show ?thesis by (simp add: topic_service_def)
  next
    case False
    then show ?thesis by (simp add: topic_service_plain)
  qed
  then show ?thesis
    using assms by (simp add: service_send_def service_lookup_subtopic_def Let_def split: option.splits)
qed

lemma topic_service_method: "0x2e \<notin> set name \<Longrightarrow> topic_service (name @ 0x2e # meth) = name"
  by (induction name) (auto simp: topic_service_def)

lemma service_list_loop_eq:
  "service_list_loop sw uuid svcs =
     svcs @ map fst (filter (\<lambda>(n, svc). uuid \<noteq> None \<and> svc_uuid svc = uuid) sw)"
  by (induction sw uuid svcs rule: service_list_loop.induct) auto

subsection \<open>Properties\<close>

text \<open>C24: registration and dispatch agree. A name that \<open>service_add\<close> accepts was free and has no dot;
  afterwards the topics \<open>name\<close> and \<open>name.meth\<close> reach exactly the registered callback, and every
  topic that selects another name is dispatched as before.\<close>

theorem service_add_send:
  fixes msg :: "('j, 'v) flux_msg"
  assumes "service_add sw name uuid cb = Inr sw'" and "flux_msg_get_topic msg = Inr topic"
  shows "(topic = name \<or> topic = name @ 0x2e # meth \<longrightarrow> service_send sw' msg = Inr cb) \<and>
    (topic_service topic \<noteq> name \<longrightarrow> service_send sw' msg = service_send sw msg)"
  using service_add_Inr [OF assms(1)] service_send_topic [OF assms(2), of sw'] service_send_topic [OF assms(2), of sw]
    topic_service_method [of name meth] topic_service_plain [of name]
  by auto

theorem service_add_send_witness:
  "\<exists>sw'. service_add [] [97] None (7 :: nat) = Inr sw' \<and> service_send sw' sample_full = Inr 7"
proof -
  have t: "flux_msg_get_topic sample_full = Inr [97]" using get_topic_refines [OF sample_full_represents] by simp
  obtain sw' where sw': "service_add [] [97] None (7 :: nat) = Inr sw'"
    by (simp add: service_add_def zhash_insert_def)
  with service_add_send [OF sw' t, of "[]"] show ?thesis by simp
qed

text \<open>C25: when a module goes away, \<open>service_remove_byuuid\<close> removes every service it registered and
  no other: nothing owned by the UUID is listed or dispatched any more, a service of another owner
  is dispatched as before, and a topic that reached the module gets \<open>ENOSYS\<close>.\<close>

theorem service_remove_byuuid_correct:
  fixes msg :: "('j, 'v) flux_msg"
  assumes "zhash_ok sw" and "flux_msg_get_topic msg = Inr topic"
  shows "zhash_ok (service_remove_byuuid sw uuid) \<and>
    service_list_byuuid (service_remove_byuuid sw uuid) (Some uuid) = [] \<and>
    service_send (service_remove_byuuid sw uuid) msg =
      (if service_get_uuid sw (topic_service topic) = Some uuid then Inl ENOSYS else service_send sw msg)"
proof -
  let ?sw = "service_remove_byuuid sw uuid"
  have ok: "zhash_ok ?sw" using switch.drop_owner [OF assms(1), of uuid] by blast
  have "svc_uuid svc \<noteq> Some uuid" if "(n, svc) \<in> set ?sw" for n svc
    using switch.drop_owner_gone [OF assms(1), of uuid n svc] that ok by (simp add: zhash_ok_def)
  then have "service_list_byuuid ?sw (Some uuid) = []"
    by (auto simp: service_list_byuuid_def service_list_loop_eq filter_empty_conv)
  moreover have "service_send ?sw msg =
      (if service_get_uuid sw (topic_service topic) = Some uuid then Inl ENOSYS else service_send sw msg)"
    using service_remove_byuuid_lookup [OF assms(1), of uuid "topic_service topic"]
    by (simp add: service_send_topic [OF assms(2)] service_get_uuid_def split: option.splits)
  ultimately show ?thesis using ok by simp
qed

theorem service_remove_byuuid_correct_witness:
  "service_send (service_remove_byuuid [([97], \<lparr>svc_cb = 7 :: nat, svc_uuid = Some [49]\<rparr>)] [49]) sample_full = Inl ENOSYS"
proof -
  have t: "flux_msg_get_topic sample_full = Inr [97]" using get_topic_refines [OF sample_full_represents] by simp
  show ?thesis
    using service_remove_byuuid_correct [OF _ t, of "[([97], \<lparr>svc_cb = 7 :: nat, svc_uuid = Some [49]\<rparr>)]" "[49]"]
    by (simp add: zhash_ok_def service_get_uuid_def topic_service_def)
qed

end
