(* ===== verification/Overlay.thy ===== *)
theory Overlay
  imports Message_Spec Kary
begin

text \<open>
  The broker's connections: the overlay network of \<^verbatim>\<open>src/broker/overlay.c\<close> and the comms modules of
  \<^verbatim>\<open>src/broker/module.c\<close>, as far as messages pass through them. A socket is closed or open; an open
  socket takes messages, or fails with an error number. What is put on a socket is recorded as an
  \<open>action\<close>, in the order of the calls.
\<close>

subsection \<open>Sockets\<close>

datatype zsock = ZClosed | ZOpen "error option"

datatype ('j, 'v) action =
    ToParent "('j, 'v) flux_msg"
  | ToChild "('j, 'v) flux_msg"
  | ToModule cstring "('j, 'v) flux_msg"
  | ToHandle "('j, 'v) flux_msg"

definition flux_msg_sendzsock :: "zsock \<Rightarrow> (('j, 'v) flux_msg \<Rightarrow> ('j, 'v) action) \<Rightarrow> ('j, 'v) flux_msg
    \<Rightarrow> ('j, 'v) action list \<times> unit result" where
  "flux_msg_sendzsock sock dest msg =
     (case sock of
        ZClosed \<Rightarrow> ([], Inl EINVAL)
      | ZOpen (Some e) \<Rightarrow> ([], Inl e)
      | ZOpen None \<Rightarrow> ([dest msg], Inr ()))"

subsection \<open>Overlay network\<close>

record overlay =
  ov_rank :: uint32
  ov_size :: uint32
  ov_parent :: zsock
  ov_child :: zsock
  ov_children :: "int zhash"
  ov_epoch :: int
  ov_parent_lastsent :: int
  ov_idle_warning :: int

definition overlay_create :: overlay where
  "overlay_create = \<lparr>ov_rank = FLUX_NODEID_ANY, ov_size = 0, ov_parent = ZClosed, ov_child = ZClosed,
     ov_children = [], ov_epoch = 0, ov_parent_lastsent = -1, ov_idle_warning = 0\<rparr>"

definition overlay_checkin_child :: "overlay \<Rightarrow> cstring \<Rightarrow> overlay" where
  "overlay_checkin_child ov uuid =
     ov\<lparr>ov_children := zhash_update (ov_children ov) uuid (ov_epoch ov)\<rparr>"

definition overlay_sendmsg_parent :: "overlay \<Rightarrow> ('j, 'v) flux_msg \<Rightarrow> overlay \<times> ('j, 'v) action list \<times> unit result" where
  "overlay_sendmsg_parent ov msg =
     (if ov_parent ov = ZClosed then (ov, [], Inl EHOSTUNREACH)
      else
        let (acts, rc) = flux_msg_sendzsock (ov_parent ov) ToParent msg
        in (if rc = Inr () then ov\<lparr>ov_parent_lastsent := ov_epoch ov\<rparr> else ov, acts, rc))"

definition flux_keepalive_encode :: "int \<Rightarrow> int \<Rightarrow> ('j, 'v) flux_msg result" where
  "flux_keepalive_encode errnum status =
     bind_result (flux_msg_create FLUX_MSGTYPE_KEEPALIVE) (\<lambda>msg.
     bind_result (flux_msg_set_errnum msg errnum) (\<lambda>msg.
       flux_msg_set_status msg status))"

definition flux_keepalive_decode :: "('j, 'v) flux_msg \<Rightarrow> (int \<times> int) result" where
  "flux_keepalive_decode msg =
     bind_result (flux_msg_get_errnum msg) (\<lambda>errnum.
     bind_result (flux_msg_get_status msg) (\<lambda>status. Inr (errnum, status)))"

definition overlay_keepalive_parent :: "overlay \<Rightarrow> ('j, 'v) action list \<times> unit result" where
  "overlay_keepalive_parent ov =
     (let idle = ov_epoch ov - ov_parent_lastsent ov in
      if ov_parent ov = ZClosed \<or> idle \<le> 1 then ([], Inr ())
      else case bind_result (flux_keepalive_encode 0 0) flux_msg_enable_route of
        Inl e \<Rightarrow> ([], Inl e)
      | Inr msg \<Rightarrow> flux_msg_sendzsock (ov_parent ov) ToParent msg)"

text \<open>The children that are logged as idle, with the number of heartbeats.\<close>

definition overlay_log_idle_children :: "overlay \<Rightarrow> (cstring \<times> int) list" where
  "overlay_log_idle_children ov =
     (if ov_idle_warning ov > 0 then
        filter (\<lambda>(uuid, idle). idle \<ge> ov_idle_warning ov)
          (map (\<lambda>(uuid, lastseen). (uuid, ov_epoch ov - lastseen)) (ov_children ov))
      else [])"

text \<open>\<open>decoded\<close> is what \<open>flux_heartbeat_decode\<close> read from the heartbeat event.\<close>

definition heartbeat_handler :: "overlay \<Rightarrow> int option \<Rightarrow> overlay \<times> ('j, 'v) action list \<times> (cstring \<times> int) list" where
  "heartbeat_handler ov decoded =
     (case decoded of
        None \<Rightarrow> (ov, [], [])
      | Some epoch \<Rightarrow>
          let ov' = ov\<lparr>ov_epoch := epoch\<rparr>
          in (ov', fst (overlay_keepalive_parent ov'), overlay_log_idle_children ov'))"

definition overlay_sendmsg_child :: "overlay \<Rightarrow> ('j, 'v) flux_msg \<Rightarrow> ('j, 'v) action list \<times> unit result" where
  "overlay_sendmsg_child ov msg =
     (if ov_child ov = ZClosed then ([], Inl EINVAL)
      else flux_msg_sendzsock (ov_child ov) ToChild msg)"

fun mcast_loop :: "zsock \<Rightarrow> int zhash \<Rightarrow> ('j, 'v) flux_msg \<Rightarrow> ('j, 'v) action list \<times> unit result" where
  "mcast_loop sock [] msg = ([], Inr ())"
| "mcast_loop sock ((uuid, child) # rest) msg =
     (case bind_result (flux_msg_copy msg True) (\<lambda>cpy.
           bind_result (flux_msg_enable_route cpy) (\<lambda>cpy. flux_msg_push_route cpy uuid)) of
        Inl e \<Rightarrow> ([], Inl e)
      | Inr cpy \<Rightarrow>
          (case flux_msg_sendzsock sock ToChild cpy of
             (acts, Inl e) \<Rightarrow> (acts, Inl e)
           | (acts, Inr _) \<Rightarrow>
               let (acts', rc) = mcast_loop sock rest msg in (acts @ acts', rc)))"

definition overlay_mcast_child :: "overlay \<Rightarrow> ('j, 'v) flux_msg \<Rightarrow> ('j, 'v) action list \<times> unit result" where
  "overlay_mcast_child ov msg =
     (if ov_child ov = ZClosed then ([], Inr ())
      else mcast_loop (ov_child ov) (ov_children ov) msg)"

subsection \<open>Comms modules\<close>

definition FLUX_MODSTATE_INIT :: int where "FLUX_MODSTATE_INIT = 0"
definition FLUX_MODSTATE_EXITED :: int where "FLUX_MODSTATE_EXITED = 4"
definition FLUX_ROLE_OWNER :: uint32 where "FLUX_ROLE_OWNER = 1"

record ('j, 'v) module_t =
  mod_rank :: uint32
  mod_sock :: zsock
  mod_userid :: uint32
  mod_rolemask :: uint32
  mod_uuid :: cstring
  mod_name :: cstring
  mod_status :: int
  mod_errnum :: int
  mod_rmmod :: "('j, 'v) flux_msg list"
  mod_insmod :: "('j, 'v) flux_msg option"
  mod_subs :: "cstring list"

type_synonym ('j, 'v) modhash = "('j, 'v) module_t zhash"

definition module_get_uuid :: "('j, 'v) module_t \<Rightarrow> cstring" where
  "module_get_uuid p = mod_uuid p"

text \<open>\<open>module_recvmsg\<close> on the message that came from the module's socket.\<close>

definition module_recvmsg :: "('j, 'v) module_t \<Rightarrow> ('j, 'v) flux_msg \<Rightarrow> ('j, 'v) flux_msg result" where
  "module_recvmsg p msg0 =
     bind_result (flux_msg_get_type msg0) (\<lambda>type.
     bind_result
       (if type = FLUX_MSGTYPE_RESPONSE then
          bind_result (flux_msg_pop_route msg0) (\<lambda>(msg, _). Inr msg)
        else if type = FLUX_MSGTYPE_REQUEST \<or> type = FLUX_MSGTYPE_EVENT then
          flux_msg_push_route msg0 (module_get_uuid p)
        else Inr msg0) (\<lambda>msg.
     if and (mod_rolemask p) FLUX_ROLE_OWNER = 0 then Inl AssertFailed
     else
       bind_result (flux_msg_get_userid msg) (\<lambda>userid.
       bind_result (flux_msg_get_rolemask msg) (\<lambda>rolemask.
         let userid' = (if userid = FLUX_USERID_UNKNOWN then mod_userid p else userid);
             rolemask' = (if rolemask = FLUX_ROLE_NONE then mod_rolemask p else rolemask)
         in bind_result (flux_msg_set_userid msg userid') (\<lambda>msg. flux_msg_set_rolemask msg rolemask')))))"

definition module_sendmsg :: "('j, 'v) module_t \<Rightarrow> ('j, 'v) flux_msg \<Rightarrow> ('j, 'v) action list \<times> unit result" where
  "module_sendmsg p msg =
     (let send = flux_msg_sendzsock (mod_sock p) (ToModule (mod_uuid p)) in
      case flux_msg_get_type msg of
        Inl e \<Rightarrow> ([], Inl e)
      | Inr type \<Rightarrow>
          if type = FLUX_MSGTYPE_REQUEST then
            (case bind_result (flux_msg_copy msg True) (\<lambda>cpy. flux_msg_push_route cpy (dec (unat (mod_rank p)))) of
               Inl e \<Rightarrow> ([], Inl e)
             | Inr cpy \<Rightarrow> send cpy)
          else if type = FLUX_MSGTYPE_RESPONSE then
            (case bind_result (flux_msg_copy msg True) flux_msg_pop_route of
               Inl e \<Rightarrow> ([], Inl e)
             | Inr (cpy, _) \<Rightarrow> send cpy)
          else send msg)"

definition module_lookup :: "('j, 'v) modhash \<Rightarrow> cstring \<Rightarrow> ('j, 'v) module_t option" where
  "module_lookup mh uuid = map_of mh uuid"

definition module_response_sendmsg :: "('j, 'v) modhash \<Rightarrow> ('j, 'v) flux_msg \<Rightarrow> ('j, 'v) action list \<times> unit result" where
  "module_response_sendmsg mh msg =
     (case flux_msg_get_route_last msg of
        Inl e \<Rightarrow> ([], Inl e)
      | Inr None \<Rightarrow> ([], Inl EPROTO)
      | Inr (Some uuid) \<Rightarrow>
          (case map_of mh uuid of
             None \<Rightarrow> ([], Inl ENOSYS)
           | Some p \<Rightarrow> module_sendmsg p msg))"

definition module_lookup_byname :: "('j, 'v) modhash \<Rightarrow> cstring \<Rightarrow> ('j, 'v) module_t option" where
  "module_lookup_byname mh name = map_option snd (find (\<lambda>(uuid, p). mod_name p = name) mh)"

text \<open>The status of a module: \<open>Inl AssertFailed\<close> is an illegal transition. The callback that the C
  code calls is the broker's, in the theory that uses this one.\<close>

definition module_set_status :: "('j, 'v) module_t \<Rightarrow> int \<Rightarrow> (int \<times> ('j, 'v) module_t) result" where
  "module_set_status p new_status =
     (if mod_status p = new_status \<or> new_status = FLUX_MODSTATE_INIT \<or> mod_status p = FLUX_MODSTATE_EXITED
      then Inl AssertFailed
      else Inr (mod_status p, p\<lparr>mod_status := new_status\<rparr>))"

definition module_set_errnum :: "('j, 'v) module_t \<Rightarrow> int \<Rightarrow> ('j, 'v) module_t" where
  "module_set_errnum p errnum = p\<lparr>mod_errnum := errnum\<rparr>"

definition module_push_rmmod :: "('j, 'v) module_t \<Rightarrow> ('j, 'v) flux_msg \<Rightarrow> ('j, 'v) module_t result" where
  "module_push_rmmod p msg =
     bind_result (flux_msg_copy msg False) (\<lambda>cpy. Inr (p\<lparr>mod_rmmod := cpy # mod_rmmod p\<rparr>))"

definition module_push_insmod :: "('j, 'v) module_t \<Rightarrow> ('j, 'v) flux_msg \<Rightarrow> ('j, 'v) module_t result" where
  "module_push_insmod p msg =
     bind_result (flux_msg_copy msg False) (\<lambda>cpy. Inr (p\<lparr>mod_insmod := Some cpy\<rparr>))"

definition module_pop_rmmod :: "('j, 'v) module_t \<Rightarrow> ('j, 'v) module_t \<times> ('j, 'v) flux_msg option" where
  "module_pop_rmmod p =
     (case mod_rmmod p of [] \<Rightarrow> (p, None) | msg # rest \<Rightarrow> (p\<lparr>mod_rmmod := rest\<rparr>, Some msg))"

definition module_pop_insmod :: "('j, 'v) module_t \<Rightarrow> ('j, 'v) module_t \<times> ('j, 'v) flux_msg option" where
  "module_pop_insmod p = (p\<lparr>mod_insmod := None\<rparr>, mod_insmod p)"

definition module_remove :: "('j, 'v) modhash \<Rightarrow> ('j, 'v) module_t \<Rightarrow> ('j, 'v) modhash" where
  "module_remove mh p = zhash_delete mh (module_get_uuid p)"

definition module_subscribe :: "('j, 'v) modhash \<Rightarrow> cstring \<Rightarrow> cstring \<Rightarrow> ('j, 'v) modhash result" where
  "module_subscribe mh uuid topic =
     (case map_of mh uuid of
        None \<Rightarrow> Inl ENOENT
      | Some p \<Rightarrow> Inr (zhash_update mh uuid (p\<lparr>mod_subs := topic # mod_subs p\<rparr>)))"

definition module_unsubscribe :: "('j, 'v) modhash \<Rightarrow> cstring \<Rightarrow> cstring \<Rightarrow> ('j, 'v) modhash result" where
  "module_unsubscribe mh uuid topic =
     (case map_of mh uuid of
        None \<Rightarrow> Inl ENOENT
      | Some p \<Rightarrow> Inr (zhash_update mh uuid (p\<lparr>mod_subs := remove1 topic (mod_subs p)\<rparr>)))"

text \<open>\<open>strncmp (topic, s, strlen (s)) == 0\<close>: the subscription is a prefix of the topic.\<close>

definition strncmp_prefix :: "cstring \<Rightarrow> cstring \<Rightarrow> bool" where
  "strncmp_prefix s topic \<longleftrightarrow> take (length s) topic = s"

fun match_sub_loop :: "cstring list \<Rightarrow> cstring \<Rightarrow> bool" where
  "match_sub_loop [] topic = False"
| "match_sub_loop (s # rest) topic = (if strncmp_prefix s topic then True else match_sub_loop rest topic)"

definition match_sub :: "('j, 'v) module_t \<Rightarrow> cstring \<Rightarrow> bool" where
  "match_sub p topic = match_sub_loop (mod_subs p) topic"

fun event_mcast_loop :: "('j, 'v) modhash \<Rightarrow> cstring \<Rightarrow> ('j, 'v) flux_msg \<Rightarrow> ('j, 'v) action list \<times> unit result" where
  "event_mcast_loop [] topic msg = ([], Inr ())"
| "event_mcast_loop ((uuid, p) # rest) topic msg =
     (case (if match_sub p topic then module_sendmsg p msg else ([], Inr ())) of
        (acts, Inl e) \<Rightarrow> (acts, Inl e)
      | (acts, Inr _) \<Rightarrow> (let (acts', rc) = event_mcast_loop rest topic msg in (acts @ acts', rc)))"

definition module_event_mcast :: "('j, 'v) modhash \<Rightarrow> ('j, 'v) flux_msg \<Rightarrow> ('j, 'v) action list \<times> unit result" where
  "module_event_mcast mh msg =
     (case flux_msg_get_topic msg of
        Inl e \<Rightarrow> ([], Inl e)
      | Inr topic \<Rightarrow> event_mcast_loop mh topic msg)"

end
