(* ===== verification/Broker.thy ===== *)
theory Broker
  imports Overlay Service
begin

text \<open>
  Message routing in the broker: \<^verbatim>\<open>src/broker/broker.c\<close> with the publisher of
  \<^verbatim>\<open>src/broker/publisher.c\<close> and the responses of \<^verbatim>\<open>src/common/libflux/response.c\<close>. A handler
  takes the broker context and the message and returns the new context, the messages it put on
  sockets or on the broker's own handle, and the result. \<open>flux_requeue\<close> and memory allocation
  succeed; log messages are not recorded.

  An error is answered with its Linux error number. The two error values that stand for undefined
  behaviour of the C code are never answered: they end the handler.
\<close>

unbundle bit_operations_syntax

subsection \<open>Context\<close>

datatype svc_target = RouteToHandle | ModSvc cstring

record ('j, 'v) broker_ctx =
  overlay :: overlay
  bc_userid :: uint32
  bc_rolemask :: uint32
  modhash :: "('j, 'v) modhash"
  event_recv_seq :: uint32
  services :: "svc_target service_switch"
  subscriptions :: "cstring list"
  pub_seq :: uint32
  tbon_k :: int

type_synonym ('j, 'v) outcome = "('j, 'v) broker_ctx \<times> ('j, 'v) action list \<times> unit result"

definition is_crash :: "error \<Rightarrow> bool" where
  "is_crash e \<longleftrightarrow> e = AssertFailed \<or> e = OutOfBounds \<or> e = UndefinedShift \<or> e = SignedOverflow"

fun errno_of :: "error \<Rightarrow> int" where
  "errno_of EINVAL = 22" | "errno_of ENOMEM = 12" | "errno_of EPROTO = 71" | "errno_of ENOENT = 2"
| "errno_of EEXIST = 17" | "errno_of ENOSYS = 38" | "errno_of EAGAIN = 11" | "errno_of EOVERFLOW = 75"
| "errno_of EHOSTUNREACH = 113" | "errno_of EPERM = 1" | "errno_of AssertFailed = 0" | "errno_of OutOfBounds = 0"
| "errno_of UndefinedShift = 0" | "errno_of SignedOverflow = 0"

subsection \<open>Local delivery\<close>

definition mod_svc_cb :: "('j, 'v) broker_ctx \<Rightarrow> ('j, 'v) flux_msg \<Rightarrow> cstring \<Rightarrow> ('j, 'v) action list \<times> unit result" where
  "mod_svc_cb ctx msg uuid =
     (case map_of (modhash ctx) uuid of
        None \<Rightarrow> ([], Inl OutOfBounds)
      | Some p \<Rightarrow> module_sendmsg p msg)"

definition route_to_handle :: "('j, 'v) flux_msg \<Rightarrow> ('j, 'v) action list \<times> unit result" where
  "route_to_handle msg = ([ToHandle msg], Inr ())"

text \<open>\<open>service_send\<close> with the callback it finds.\<close>

definition broker_service_send :: "('j, 'v) broker_ctx \<Rightarrow> ('j, 'v) flux_msg \<Rightarrow> ('j, 'v) action list \<times> unit result" where
  "broker_service_send ctx msg =
     (case service_send (services ctx) msg of
        Inl e \<Rightarrow> ([], Inl e)
      | Inr RouteToHandle \<Rightarrow> route_to_handle msg
      | Inr (ModSvc uuid) \<Rightarrow> mod_svc_cb ctx msg uuid)"

definition send_parent :: "('j, 'v) broker_ctx \<Rightarrow> ('j, 'v) flux_msg \<Rightarrow> ('j, 'v) outcome" where
  "send_parent ctx msg =
     (let (ov, acts, rc) = overlay_sendmsg_parent (overlay ctx) msg in (ctx\<lparr>overlay := ov\<rparr>, acts, rc))"

subsection \<open>Responses\<close>

definition broker_response_sendmsg :: "('j, 'v) broker_ctx \<Rightarrow> ('j, 'v) flux_msg \<Rightarrow> ('j, 'v) outcome" where
  "broker_response_sendmsg ctx msg =
     (case flux_msg_get_route_last msg of
        Inl e \<Rightarrow> (ctx, [], Inl e)
      | Inr None \<Rightarrow> (ctx, [ToHandle msg], Inr ())
      | Inr (Some uuid) \<Rightarrow>
          let parent = kary_parentof (tbon_k ctx) (ov_rank (overlay ctx));
              puuid = dec (unat parent)
          in if parent \<noteq> KARY_NONE \<and> puuid = uuid then send_parent ctx msg
             else
               let (acts, rc) = module_response_sendmsg (modhash ctx) msg
               in if rc = Inl ENOSYS then
                    let (acts', rc') = overlay_sendmsg_child (overlay ctx) msg in (ctx, acts @ acts', rc')
                  else (ctx, acts, rc))"

subsection \<open>Events\<close>

fun subscribed :: "cstring list \<Rightarrow> cstring \<Rightarrow> bool" where
  "subscribed [] topic = False"
| "subscribed (s # rest) topic = (if strncmp_prefix s topic then True else subscribed rest topic)"

definition handle_event :: "('j, 'v) broker_ctx \<Rightarrow> ('j, 'v) flux_msg \<Rightarrow> ('j, 'v) outcome" where
  "handle_event ctx msg =
     (case bind_result (flux_msg_get_seq msg) (\<lambda>seq.
           bind_result (flux_msg_get_topic msg) (\<lambda>topic. Inr (seq, topic))) of
        Inl e \<Rightarrow> (ctx, [], Inl e)
      | Inr (seq, topic) \<Rightarrow>
          if seq \<le> event_recv_seq ctx then (ctx, [], Inl EINVAL)
          else
            let ctx' = ctx\<lparr>event_recv_seq := seq\<rparr>;
                (acts1, _) = overlay_mcast_child (overlay ctx) msg;
                acts2 = (if subscribed (subscriptions ctx) topic then [ToHandle msg] else []);
                (acts3, rc) = module_event_mcast (modhash ctx) msg
            in (ctx', acts1 @ acts2 @ acts3, rc))"

text \<open>The publisher of the broker has one sender, \<open>handle_event\<close>, whose failure is only logged.\<close>

definition send_event :: "('j, 'v) broker_ctx \<Rightarrow> ('j, 'v) flux_msg \<Rightarrow> ('j, 'v) broker_ctx \<times> ('j, 'v) action list" where
  "send_event ctx msg = (let (ctx', acts, _) = handle_event ctx msg in (ctx', acts))"

definition publisher_send :: "('j, 'v) broker_ctx \<Rightarrow> ('j, 'v) flux_msg \<Rightarrow> ('j, 'v) outcome" where
  "publisher_send ctx msg =
     (case bind_result (flux_msg_copy msg True) flux_msg_clear_route of
        Inl e \<Rightarrow> (ctx, [], Inl e)
      | Inr cpy \<Rightarrow>
          (let ctx1 = ctx\<lparr>pub_seq := pub_seq ctx + 1\<rparr> in
           case flux_msg_set_seq cpy (pub_seq ctx1) of
             Inl e \<Rightarrow> (ctx1\<lparr>pub_seq := pub_seq ctx1 - 1\<rparr>, [], Inl e)
           | Inr cpy' \<Rightarrow> (let (ctx2, acts) = send_event ctx1 cpy' in (ctx2, acts, Inr ()))))"

definition broker_event_sendmsg :: "('j, 'v) broker_ctx \<Rightarrow> ('j, 'v) flux_msg \<Rightarrow> ('j, 'v) outcome" where
  "broker_event_sendmsg ctx msg =
     (if ov_rank (overlay ctx) > 0 then
        (case bind_result (flux_msg_copy msg True) flux_msg_enable_route of
           Inl e \<Rightarrow> (ctx, [], Inl e)
         | Inr cpy \<Rightarrow> send_parent ctx cpy)
      else publisher_send ctx msg)"

subsection \<open>Requests\<close>

definition subvert_sendmsg_child :: "('j, 'v) broker_ctx \<Rightarrow> ('j, 'v) flux_msg \<Rightarrow> uint32 \<Rightarrow> ('j, 'v) action list \<times> unit result" where
  "subvert_sendmsg_child ctx msg nodeid =
     (case bind_result (flux_msg_copy msg True) (\<lambda>cpy.
           bind_result (flux_msg_push_route cpy (dec (unat (ov_rank (overlay ctx))))) (\<lambda>cpy.
             flux_msg_push_route cpy (dec (unat nodeid)))) of
        Inl e \<Rightarrow> ([], Inl e)
      | Inr cpy \<Rightarrow> overlay_sendmsg_child (overlay ctx) cpy)"

text \<open>Try the local service, and the parent when there is no such service here.\<close>

definition service_or_parent :: "('j, 'v) broker_ctx \<Rightarrow> ('j, 'v) flux_msg \<Rightarrow> ('j, 'v) outcome" where
  "service_or_parent ctx msg =
     (let (acts, rc) = broker_service_send ctx msg in
      if rc = Inl ENOSYS then
        (let (ctx', acts', rc') = send_parent ctx msg in
         (ctx', acts @ acts', if rc' = Inl EHOSTUNREACH then Inl ENOSYS else rc'))
      else (ctx, acts, rc))"

text \<open>\<open>broker_request_sendmsg\<close> up to its label \<open>error\<close>.\<close>

definition broker_request_route :: "('j, 'v) broker_ctx \<Rightarrow> ('j, 'v) flux_msg \<Rightarrow> ('j, 'v) outcome" where
  "broker_request_route ctx msg =
     (let rank = ov_rank (overlay ctx); size = ov_size (overlay ctx) in
      case flux_msg_get_nodeid msg of
        Inl e \<Rightarrow> (ctx, [], Inl e)
      | Inr (nodeid, flags) \<Rightarrow>
          let upstream = (flags AND uint FLUX_MSGFLAG_UPSTREAM \<noteq> 0) in
          if upstream \<and> nodeid = rank then send_parent ctx msg
          else if upstream \<and> nodeid \<noteq> rank then service_or_parent ctx msg
          else if nodeid = FLUX_NODEID_ANY then service_or_parent ctx msg
          else if nodeid = rank then (let (acts, rc) = broker_service_send ctx msg in (ctx, acts, rc))
          else
            let gw = kary_child_route (tbon_k ctx) size rank nodeid in
            if gw \<noteq> KARY_NONE then (let (acts, rc) = subvert_sendmsg_child ctx msg gw in (ctx, acts, rc))
            else send_parent ctx msg)"

definition broker_send :: "('j, 'v) broker_ctx \<Rightarrow> ('j, 'v) flux_msg \<Rightarrow> ('j, 'v) outcome" where
  "broker_send ctx msg =
     (case bind_result (flux_msg_copy msg True) (\<lambda>cpy.
           bind_result (flux_msg_get_type cpy) (\<lambda>type.
           bind_result (flux_msg_get_userid cpy) (\<lambda>userid.
           bind_result (flux_msg_get_rolemask cpy) (\<lambda>rolemask.
             let userid' = (if userid = FLUX_USERID_UNKNOWN then bc_userid ctx else userid);
                 rolemask' = (if rolemask = FLUX_ROLE_NONE then bc_rolemask ctx else rolemask)
             in bind_result (flux_msg_set_userid cpy userid') (\<lambda>cpy.
                bind_result (flux_msg_set_rolemask cpy rolemask') (\<lambda>cpy. Inr (type, cpy))))))) of
        Inl e \<Rightarrow> (ctx, [], Inl e)
      | Inr (type, cpy) \<Rightarrow>
          if type = FLUX_MSGTYPE_REQUEST then broker_request_route ctx cpy
          else if type = FLUX_MSGTYPE_RESPONSE then broker_response_sendmsg ctx cpy
          else if type = FLUX_MSGTYPE_EVENT then broker_event_sendmsg ctx cpy
          else (ctx, [], Inl EINVAL))"

definition derive_response :: "('j, 'v) flux_msg \<Rightarrow> int \<Rightarrow> ('j, 'v) flux_msg result" where
  "derive_response request errnum =
     bind_result (flux_msg_copy request False) (\<lambda>msg.
     bind_result (flux_msg_set_type msg FLUX_MSGTYPE_RESPONSE) (\<lambda>msg.
     bind_result (flux_msg_set_userid msg FLUX_USERID_UNKNOWN) (\<lambda>msg.
     bind_result (flux_msg_set_rolemask msg FLUX_ROLE_NONE) (\<lambda>msg.
       if errnum \<noteq> 0 then flux_msg_set_errnum msg errnum else Inr msg))))"

definition flux_respond :: "('j, 'v) broker_ctx \<Rightarrow> ('j, 'v) flux_msg \<Rightarrow> int \<Rightarrow> cstring option \<Rightarrow> ('j, 'v) outcome" where
  "flux_respond ctx request errnum s =
     (case bind_result (derive_response request errnum) (\<lambda>msg.
           if errnum = 0 \<and> s \<noteq> None then flux_msg_set_string msg s else Inr msg) of
        Inl e \<Rightarrow> (ctx, [], Inl e)
      | Inr msg \<Rightarrow> broker_send ctx msg)"

datatype request_error_mode = ERROR_MODE_RESPOND | ERROR_MODE_RETURN

definition broker_request_sendmsg :: "('j, 'v) broker_ctx \<Rightarrow> ('j, 'v) flux_msg \<Rightarrow> request_error_mode \<Rightarrow> ('j, 'v) outcome" where
  "broker_request_sendmsg ctx msg errmode =
     (case broker_request_route ctx msg of
        (ctx', acts, Inr _) \<Rightarrow> (ctx', acts, Inr ())
      | (ctx', acts, Inl e) \<Rightarrow>
          if errmode = ERROR_MODE_RETURN \<or> is_crash e then (ctx', acts, Inl e)
          else (let (ctx'', acts', _) = flux_respond ctx' msg (errno_of e) None in (ctx'', acts @ acts', Inr ())))"

subsection \<open>Messages from peers\<close>

text \<open>A failing \<open>flux_msg_pop_route\<close> leaves the message as it is; its result is ignored.\<close>

definition pop_route_void :: "('j, 'v) flux_msg \<Rightarrow> ('j, 'v) flux_msg" where
  "pop_route_void msg = (case flux_msg_pop_route msg of Inl _ \<Rightarrow> msg | Inr (msg', _) \<Rightarrow> msg')"

text \<open>A message from a child. \<open>overlay_checkin_child\<close> is given a null pointer when the route stack is
  there but empty.\<close>

definition child_cb :: "('j, 'v) broker_ctx \<Rightarrow> ('j, 'v) flux_msg \<Rightarrow> ('j, 'v) outcome" where
  "child_cb ctx0 msg =
     (case bind_result (flux_msg_get_type msg) (\<lambda>type.
           bind_result (flux_msg_get_route_last msg) (\<lambda>uuid. Inr (type, uuid))) of
        Inl e \<Rightarrow> (ctx0, [], Inl e)
      | Inr (type, None) \<Rightarrow> (ctx0, [], Inl OutOfBounds)
      | Inr (type, Some uuid) \<Rightarrow>
          let ctx = ctx0\<lparr>overlay := overlay_checkin_child (overlay ctx0) uuid\<rparr> in
          if type = FLUX_MSGTYPE_KEEPALIVE then (ctx, [], Inr ())
          else if type = FLUX_MSGTYPE_REQUEST then broker_request_sendmsg ctx msg ERROR_MODE_RESPOND
          else if type = FLUX_MSGTYPE_RESPONSE then
            broker_response_sendmsg ctx (pop_route_void (pop_route_void msg))
          else if type = FLUX_MSGTYPE_EVENT then broker_event_sendmsg ctx msg
          else (ctx, [], Inr ()))"

definition parent_cb :: "('j, 'v) broker_ctx \<Rightarrow> ('j, 'v) flux_msg \<Rightarrow> ('j, 'v) outcome" where
  "parent_cb ctx msg =
     (case flux_msg_get_type msg of
        Inl e \<Rightarrow> (ctx, [], Inl e)
      | Inr type \<Rightarrow>
          if type = FLUX_MSGTYPE_RESPONSE then broker_response_sendmsg ctx msg
          else if type = FLUX_MSGTYPE_EVENT then
            (case flux_msg_clear_route msg of
               Inl e \<Rightarrow> (ctx, [], Inl e)
             | Inr msg' \<Rightarrow> handle_event ctx msg')
          else if type = FLUX_MSGTYPE_REQUEST then broker_request_sendmsg ctx msg ERROR_MODE_RESPOND
          else (ctx, [], Inr ()))"

subsection \<open>Messages from modules\<close>

fun respond_rmmod :: "('j, 'v) broker_ctx \<Rightarrow> ('j, 'v) flux_msg list \<Rightarrow> ('j, 'v) broker_ctx \<times> ('j, 'v) action list" where
  "respond_rmmod ctx [] = (ctx, [])"
| "respond_rmmod ctx (msg # rest) =
     (let (ctx1, acts1, _) = flux_respond ctx msg 0 None;
          (ctx2, acts2) = respond_rmmod ctx1 rest
      in (ctx2, acts1 @ acts2))"

text \<open>The module is looked up by its UUID each time, as the C code goes through its pointer.\<close>

definition set_module :: "('j, 'v) broker_ctx \<Rightarrow> ('j, 'v) module_t \<Rightarrow> ('j, 'v) broker_ctx" where
  "set_module ctx p = ctx\<lparr>modhash := zhash_update (modhash ctx) (mod_uuid p) p\<rparr>"

definition module_status_cb :: "('j, 'v) broker_ctx \<Rightarrow> ('j, 'v) module_t \<Rightarrow> int \<Rightarrow> ('j, 'v) broker_ctx \<times> ('j, 'v) action list" where
  "module_status_cb ctx p prev_status =
     (let (ctx1, acts1, p1) =
        (if prev_status = FLUX_MODSTATE_INIT then
           (case module_pop_insmod p of
              (p', None) \<Rightarrow> (ctx, [], p')
            | (p', Some msg) \<Rightarrow>
                let errnum = (if mod_status p' = FLUX_MODSTATE_EXITED then mod_errnum p' else 0);
                    (ctx', acts, _) = flux_respond (set_module ctx p') msg errnum None
                in (ctx', acts, p'))
         else (ctx, [], p))
      in if mod_status p1 = FLUX_MODSTATE_EXITED then
           let ctx2 = ctx1\<lparr>services := service_remove_byuuid (services ctx1) (module_get_uuid p1)\<rparr>;
               (ctx3, acts3) = respond_rmmod ctx2 (mod_rmmod p1)
           in (ctx3\<lparr>modhash := module_remove (modhash ctx3) p1\<rparr>, acts1 @ acts3)
         else (ctx1, acts1))"

text \<open>\<open>raw\<close> is the message read from the module's socket.\<close>

definition module_cb :: "('j, 'v) broker_ctx \<Rightarrow> ('j, 'v) module_t \<Rightarrow> ('j, 'v) flux_msg \<Rightarrow> ('j, 'v) outcome" where
  "module_cb ctx p raw =
     (case bind_result (module_recvmsg p raw) (\<lambda>msg.
           bind_result (flux_msg_get_type msg) (\<lambda>type. Inr (msg, type))) of
        Inl e \<Rightarrow> (ctx, [], Inl e)
      | Inr (msg, type) \<Rightarrow>
          if type = FLUX_MSGTYPE_RESPONSE then broker_response_sendmsg ctx msg
          else if type = FLUX_MSGTYPE_REQUEST then broker_request_sendmsg ctx msg ERROR_MODE_RESPOND
          else if type = FLUX_MSGTYPE_EVENT then broker_event_sendmsg ctx msg
          else if type = FLUX_MSGTYPE_KEEPALIVE then
            (case flux_keepalive_decode msg of
               Inl e \<Rightarrow> (ctx, [], Inl e)
             | Inr (ka_errnum, ka_status) \<Rightarrow>
                 let p1 = (if ka_status = FLUX_MODSTATE_EXITED then module_set_errnum p ka_errnum else p) in
                 case module_set_status p1 ka_status of
                   Inl e \<Rightarrow> (ctx, [], Inl e)
                 | Inr (prev, p2) \<Rightarrow>
                     let (ctx', acts) = module_status_cb (set_module ctx p2) p2 prev in (ctx', acts, Inr ()))
          else (ctx, [], Inr ()))"

subsection \<open>Requests to the broker itself\<close>

text \<open>The first argument after the message is what \<open>flux_request_unpack\<close> read from the payload.
  \<open>service_add_cb\<close> and \<open>service_remove_cb\<close> do not check for a sender without a route: they hand
  the null pointer on.\<close>

definition respond_result :: "('j, 'v) broker_ctx \<Rightarrow> ('j, 'v) flux_msg \<Rightarrow> unit result \<Rightarrow> ('j, 'v) outcome" where
  "respond_result ctx msg rc =
     (case rc of
        Inl e \<Rightarrow> if is_crash e then (ctx, [], Inl e) else flux_respond ctx msg (errno_of e) None
      | Inr _ \<Rightarrow> flux_respond ctx msg 0 None)"

definition service_add_cb :: "('j, 'v) broker_ctx \<Rightarrow> ('j, 'v) flux_msg \<Rightarrow> cstring result \<Rightarrow> ('j, 'v) outcome" where
  "service_add_cb ctx msg unpacked =
     (case unpacked of
        Inl _ \<Rightarrow> respond_result ctx msg (Inl EPROTO)
      | Inr name \<Rightarrow>
          (case flux_msg_get_route_first msg of
             Inl _ \<Rightarrow> respond_result ctx msg (Inl EPROTO)
           | Inr None \<Rightarrow> respond_result ctx msg (Inl OutOfBounds)
           | Inr (Some sender) \<Rightarrow>
               (case module_lookup (modhash ctx) sender of
                  None \<Rightarrow> respond_result ctx msg (Inl ENOENT)
                | Some p \<Rightarrow>
                    (case service_add (services ctx) name (Some sender) (ModSvc (mod_uuid p)) of
                       Inl e \<Rightarrow> respond_result ctx msg (Inl e)
                     | Inr sw \<Rightarrow> respond_result (ctx\<lparr>services := sw\<rparr>) msg (Inr ())))))"

definition service_remove_cb :: "('j, 'v) broker_ctx \<Rightarrow> ('j, 'v) flux_msg \<Rightarrow> cstring result \<Rightarrow> ('j, 'v) outcome" where
  "service_remove_cb ctx msg unpacked =
     (case unpacked of
        Inl _ \<Rightarrow> respond_result ctx msg (Inl EPROTO)
      | Inr name \<Rightarrow>
          (case flux_msg_get_route_first msg of
             Inl _ \<Rightarrow> respond_result ctx msg (Inl EPROTO)
           | Inr sender \<Rightarrow>
               (case service_get_uuid (services ctx) name of
                  None \<Rightarrow> respond_result ctx msg (Inl ENOENT)
                | Some uuid \<Rightarrow>
                    (case sender of
                       None \<Rightarrow> respond_result ctx msg (Inl OutOfBounds)
                     | Some sndr \<Rightarrow>
                         if uuid \<noteq> sndr then respond_result ctx msg (Inl EINVAL)
                         else respond_result (ctx\<lparr>services := service_remove (services ctx) name\<rparr>) msg (Inr ())))))"

definition cmb_sub_cb :: "('j, 'v) broker_ctx \<Rightarrow> ('j, 'v) flux_msg \<Rightarrow> cstring result \<Rightarrow> ('j, 'v) outcome" where
  "cmb_sub_cb ctx msg unpacked =
     (case bind_result unpacked (\<lambda>topic.
           bind_result (flux_msg_get_route_first msg) (\<lambda>uuid.
             case uuid of None \<Rightarrow> Inl EPROTO | Some u \<Rightarrow> module_subscribe (modhash ctx) u topic)) of
        Inl e \<Rightarrow> respond_result ctx msg (Inl e)
      | Inr mh \<Rightarrow> respond_result (ctx\<lparr>modhash := mh\<rparr>) msg (Inr ()))"

definition cmb_unsub_cb :: "('j, 'v) broker_ctx \<Rightarrow> ('j, 'v) flux_msg \<Rightarrow> cstring result \<Rightarrow> ('j, 'v) outcome" where
  "cmb_unsub_cb ctx msg unpacked =
     (case bind_result unpacked (\<lambda>topic.
           bind_result (flux_msg_get_route_first msg) (\<lambda>uuid.
             case uuid of None \<Rightarrow> Inl EPROTO | Some u \<Rightarrow> module_unsubscribe (modhash ctx) u topic)) of
        Inl e \<Rightarrow> respond_result ctx msg (Inl e)
      | Inr mh \<Rightarrow> respond_result (ctx\<lparr>modhash := mh\<rparr>) msg (Inr ()))"

definition broker_subscribe :: "('j, 'v) broker_ctx \<Rightarrow> cstring \<Rightarrow> ('j, 'v) broker_ctx" where
  "broker_subscribe ctx topic = ctx\<lparr>subscriptions := subscriptions ctx @ [topic]\<rparr>"

definition broker_unsubscribe :: "('j, 'v) broker_ctx \<Rightarrow> cstring \<Rightarrow> ('j, 'v) broker_ctx" where
  "broker_unsubscribe ctx topic = ctx\<lparr>subscriptions := remove1 topic (subscriptions ctx)\<rparr>"

text \<open>The services of the broker itself, with the ranks they are on. \<open>member\<close> is \<open>nodeset_member\<close>;
  a registration that fails ends the broker.\<close>

definition internal_services :: "(cstring \<times> cstring option) list" where
  "internal_services =
     [(cstr ''cmb'', None), (cstr ''log'', None), (cstr ''seq'', Some (cstr ''[0]'')), (cstr ''content'', None),
      (cstr ''hello'', None), (cstr ''attr'', None), (cstr ''heaptrace'', None), (cstr ''event'', Some (cstr ''[0]'')),
      (cstr ''service'', None)]"

fun add_services_loop :: "(cstring option \<Rightarrow> uint32 \<Rightarrow> bool) \<Rightarrow> uint32 \<Rightarrow> (cstring \<times> cstring option) list
    \<Rightarrow> svc_target service_switch \<Rightarrow> svc_target service_switch result" where
  "add_services_loop member rank [] sw = Inr sw"
| "add_services_loop member rank ((name, nodeset) # rest) sw =
     (if \<not> member nodeset rank then add_services_loop member rank rest sw
      else bind_result (service_add sw name None RouteToHandle) (add_services_loop member rank rest))"

definition broker_add_services :: "(cstring option \<Rightarrow> uint32 \<Rightarrow> bool) \<Rightarrow> ('j, 'v) broker_ctx \<Rightarrow> ('j, 'v) broker_ctx result" where
  "broker_add_services member ctx =
     bind_result (add_services_loop member (ov_rank (overlay ctx)) internal_services (services ctx))
       (\<lambda>sw. Inr (ctx\<lparr>services := sw\<rparr>))"

text \<open>Loading a module: \<open>p\<close> is the module that \<open>module_add\<close> made of the shared object, \<open>started\<close> the
  result of \<open>module_start\<close>. Module UUIDs are unique; \<open>module_add\<close> asserts it.\<close>

definition load_module_bypath :: "('j, 'v) broker_ctx \<Rightarrow> ('j, 'v) module_t \<Rightarrow> ('j, 'v) flux_msg option \<Rightarrow> unit result
    \<Rightarrow> ('j, 'v) broker_ctx \<times> unit result" where
  "load_module_bypath ctx p request started =
     (case zhash_insert (modhash ctx) (module_get_uuid p) p of
        None \<Rightarrow> (ctx, Inl AssertFailed)
      | Some mh \<Rightarrow>
          (case service_add (services ctx) (mod_name p) (Some (module_get_uuid p)) (ModSvc (module_get_uuid p)) of
             Inl e \<Rightarrow> (ctx\<lparr>modhash := module_remove mh p\<rparr>, Inl e)
           | Inr sw \<Rightarrow>
               (let undo = ctx\<lparr>services := service_remove_byuuid sw (module_get_uuid p), modhash := module_remove mh p\<rparr> in
                case (case request of None \<Rightarrow> Inr p | Some msg \<Rightarrow> module_push_insmod p msg) of
                  Inl e \<Rightarrow> (undo, Inl e)
                | Inr p' \<Rightarrow>
                    (case started of
                       Inl e \<Rightarrow> (undo, Inl e)
                     | Inr _ \<Rightarrow> (ctx\<lparr>services := sw, modhash := zhash_update mh (module_get_uuid p) p'\<rparr>, Inr ())))))"

text \<open>Unloading a module: \<open>stopped\<close> is the result of \<open>module_stop\<close>, which asks the module to shut down.\<close>

definition unload_module_byname :: "('j, 'v) broker_ctx \<Rightarrow> cstring \<Rightarrow> ('j, 'v) flux_msg option \<Rightarrow> bool \<Rightarrow> unit result
    \<Rightarrow> ('j, 'v) broker_ctx \<times> unit result" where
  "unload_module_byname ctx name request async stopped =
     (case module_lookup_byname (modhash ctx) name of
        None \<Rightarrow> (ctx, Inl ENOENT)
      | Some p \<Rightarrow>
          (case stopped of
             Inl e \<Rightarrow> (ctx, Inl e)
           | Inr _ \<Rightarrow>
               if async then
                 (case request of
                    None \<Rightarrow> (ctx, Inr ())
                  | Some msg \<Rightarrow>
                      (case module_push_rmmod p msg of
                         Inl e \<Rightarrow> (ctx, Inl e)
                       | Inr p' \<Rightarrow> (set_module ctx p', Inr ())))
               else if request \<noteq> None then (ctx, Inl AssertFailed)
               else
                 let ctx1 = ctx\<lparr>services := service_remove_byuuid (services ctx) (module_get_uuid p)\<rparr>
                 in (ctx1\<lparr>modhash := module_remove (modhash ctx1) p\<rparr>, Inr ())))"

definition cmb_rmmod_cb :: "('j, 'v) broker_ctx \<Rightarrow> ('j, 'v) flux_msg \<Rightarrow> cstring result \<Rightarrow> unit result \<Rightarrow> ('j, 'v) outcome" where
  "cmb_rmmod_cb ctx msg unpacked stopped =
     (case unpacked of
        Inl e \<Rightarrow> respond_result ctx msg (Inl e)
      | Inr name \<Rightarrow>
          (case unload_module_byname ctx name (Some msg) True stopped of
             (ctx', Inl e) \<Rightarrow> respond_result ctx' msg (Inl e)
           | (ctx', Inr _) \<Rightarrow> (ctx', [], Inr ())))"

subsection \<open>What routing leaves alone\<close>

text \<open>Routing a message never touches the modules, the services or the shape of the network.\<close>

definition same_config :: "('j, 'v) broker_ctx \<Rightarrow> ('j, 'v) broker_ctx \<Rightarrow> bool" where
  "same_config ctx ctx' \<longleftrightarrow>
     modhash ctx' = modhash ctx \<and> services ctx' = services ctx \<and> subscriptions ctx' = subscriptions ctx \<and>
     tbon_k ctx' = tbon_k ctx \<and> bc_userid ctx' = bc_userid ctx \<and> bc_rolemask ctx' = bc_rolemask ctx \<and>
     ov_rank (overlay ctx') = ov_rank (overlay ctx) \<and> ov_size (overlay ctx') = ov_size (overlay ctx) \<and>
     ov_parent (overlay ctx') = ov_parent (overlay ctx) \<and> ov_child (overlay ctx') = ov_child (overlay ctx)"

named_theorems config \<open>routing steps leave the configuration alone\<close>

lemma same_config_refl [config]: "same_config ctx ctx"
  by (simp add: same_config_def)

lemma same_config_trans: "same_config a b \<Longrightarrow> same_config b c \<Longrightarrow> same_config a c"
  by (simp add: same_config_def)

lemma same_config_seq [config]: "same_config (ctx\<lparr>pub_seq := x\<rparr>) c = same_config ctx c"
  "same_config ctx (c\<lparr>pub_seq := x\<rparr>) = same_config ctx c"
  "same_config ctx (c\<lparr>event_recv_seq := x\<rparr>) = same_config ctx c"
  by (simp_all add: same_config_def)

lemma send_parent_config [config]: "same_config ctx (fst (send_parent ctx msg))"
  by (auto simp: send_parent_def overlay_sendmsg_parent_def same_config_def Let_def split: prod.splits)

lemma response_config [config]: "same_config ctx (fst (broker_response_sendmsg ctx msg))"
  by (simp add: broker_response_sendmsg_def Let_def case_prod_beta config split: sum.splits option.splits)

lemma handle_event_config [config]: "same_config ctx (fst (handle_event ctx msg))"
  by (simp add: handle_event_def Let_def case_prod_beta config split: sum.splits)

lemma publisher_config [config]: "same_config ctx (fst (publisher_send ctx msg))"
proof -
  have "same_config ctx (fst (handle_event (ctx\<lparr>pub_seq := x\<rparr>) m))" for x m
    using handle_event_config [of "ctx\<lparr>pub_seq := x\<rparr>" m] by (simp only: same_config_seq)
  then show ?thesis
    by (simp add: publisher_send_def send_event_def Let_def case_prod_beta config split: sum.splits)
qed

lemma event_config [config]: "same_config ctx (fst (broker_event_sendmsg ctx msg))"
  by (simp add: broker_event_sendmsg_def config split: sum.splits)

lemma service_or_parent_config [config]: "same_config ctx (fst (service_or_parent ctx msg))"
  by (simp add: service_or_parent_def Let_def case_prod_beta config)

lemma request_config [config]: "same_config ctx (fst (broker_request_route ctx msg))"
  by (simp add: broker_request_route_def Let_def case_prod_beta config split: sum.splits)

lemma broker_send_config [config]: "same_config ctx (fst (broker_send ctx msg))"
  by (simp add: broker_send_def case_prod_beta config split: sum.splits)

lemma flux_respond_config [config]: "same_config ctx (fst (flux_respond ctx msg e s))"
  by (simp add: flux_respond_def config split: sum.splits)

lemma request_sendmsg_config [config]: "same_config ctx (fst (broker_request_sendmsg ctx msg mode))"
proof -
  have "same_config ctx (fst (flux_respond (fst (broker_request_route ctx msg)) msg e None))" for e
    by (rule same_config_trans [OF request_config flux_respond_config])
  then show ?thesis
    by (simp add: broker_request_sendmsg_def Let_def case_prod_beta config split: sum.splits)
qed

lemma respond_result_config [config]: "same_config ctx (fst (respond_result ctx msg rc))"
  by (simp add: respond_result_def config split: sum.splits)

lemma respond_rmmod_config [config]: "same_config ctx (fst (respond_rmmod ctx msgs))"
proof (induction ctx msgs rule: respond_rmmod.induct)
  case (2 ctx msg rest)
  obtain c1 a1 r1 where 1: "flux_respond ctx msg 0 None = (c1, a1, r1)" by (metis prod_cases3)
  have "same_config c1 (fst (respond_rmmod c1 rest))" using 2 1 by auto
  moreover have "same_config ctx c1" using flux_respond_config [of ctx msg 0 None] by (simp only: 1 fst_conv)
  ultimately show ?case using same_config_trans by (simp add: 1 Let_def case_prod_beta) blast
qed (simp add: config)

subsection \<open>No service outlives its module\<close>

definition svc_ok :: "('j, 'v) modhash \<Rightarrow> svc_target service \<Rightarrow> bool" where
  "svc_ok mh svc \<longleftrightarrow>
     (case svc_cb svc of
        RouteToHandle \<Rightarrow> svc_uuid svc = None
      | ModSvc u \<Rightarrow> svc_uuid svc = Some u \<and> map_of mh u \<noteq> None)"

definition svc_inv :: "('j, 'v) broker_ctx \<Rightarrow> bool" where
  "svc_inv ctx \<longleftrightarrow>
     zhash_ok (services ctx) \<and> zhash_ok (modhash ctx) \<and>
     (\<forall>u p. map_of (modhash ctx) u = Some p \<longrightarrow> mod_uuid p = u) \<and>
     (\<forall>n svc. map_of (services ctx) n = Some svc \<longrightarrow> svc_ok (modhash ctx) svc)"

lemma svc_inv_config: "same_config ctx ctx' \<Longrightarrow> svc_inv ctx' = svc_inv ctx"
  by (simp add: same_config_def svc_inv_def)

lemma svc_inv_set_module:
  assumes "svc_inv ctx" and "map_of (modhash ctx) (mod_uuid p) \<noteq> None"
  shows "svc_inv (set_module ctx p)"
  using assms by (auto simp: svc_inv_def set_module_def zhash_update_lookup svc_ok_def split: svc_target.splits)

lemma svc_inv_drop_module:
  assumes "svc_inv ctx" and "services ctx = service_remove_byuuid sw (mod_uuid p)" and "zhash_ok sw"
  shows "svc_inv (ctx\<lparr>modhash := module_remove (modhash ctx) p\<rparr>)"
proof -
  have "svc_uuid svc \<noteq> Some (mod_uuid p)" if "map_of (services ctx) n = Some svc" for n svc
    using switch.drop_owner_gone [OF assms(3)] that assms(2) by metis
  then have "svc_ok (module_remove (modhash ctx) p) svc" if "map_of (services ctx) n = Some svc" for n svc
    using assms(1) that
    by (fastforce simp: svc_inv_def svc_ok_def module_remove_def module_get_uuid_def zhash_delete_lookup
        split: svc_target.splits)
  then show ?thesis
    using assms(1) by (auto simp: svc_inv_def module_remove_def zhash_delete_lookup split: if_splits)
qed

lemma svc_inv_remove_byuuid:
  assumes "svc_inv ctx"
  shows "svc_inv (ctx\<lparr>services := service_remove_byuuid (services ctx) uuid\<rparr>)"
proof -
  have ok: "zhash_ok (services ctx)" using assms by (simp add: svc_inv_def)
  show ?thesis
    using assms switch.drop_owner_gone [OF ok] service_remove_byuuid_ok [OF ok]
    by (simp add: svc_inv_def) blast
qed

lemma module_status_cb_inv:
  assumes "svc_inv ctx" and "map_of (modhash ctx) (mod_uuid p) \<noteq> None"
  shows "svc_inv (fst (module_status_cb ctx p prev))"
proof -
  define r where "r =
    (if prev = FLUX_MODSTATE_INIT then
       (case module_pop_insmod p of
          (p', None) \<Rightarrow> (ctx, [], p')
        | (p', Some msg) \<Rightarrow>
            let errnum = (if mod_status p' = FLUX_MODSTATE_EXITED then mod_errnum p' else 0);
                (ctx', acts, _) = flux_respond (set_module ctx p') msg errnum None
            in (ctx', acts, p'))
     else (ctx, [], p))"
  obtain ctx1 acts1 p1 where r: "r = (ctx1, acts1, p1)" by (metis prod_cases3)
  have "svc_inv (set_module ctx (p\<lparr>mod_insmod := None\<rparr>))"
    by (rule svc_inv_set_module) (use assms in simp_all)
  then have inv1: "svc_inv ctx1" and u: "mod_uuid p1 = mod_uuid p"
    using r assms svc_inv_config [OF flux_respond_config]
    by (auto simp: r_def module_pop_insmod_def Let_def case_prod_beta split: if_splits option.splits)
  let ?ctx2 = "ctx1\<lparr>services := service_remove_byuuid (services ctx1) (mod_uuid p1)\<rparr>"
  let ?ctx3 = "fst (respond_rmmod ?ctx2 (mod_rmmod p1))"
  have c3: "same_config ?ctx2 ?ctx3" by (rule respond_rmmod_config)
  have "svc_inv ?ctx3" using svc_inv_config [OF c3] svc_inv_remove_byuuid [OF inv1] by blast
  moreover have "services ?ctx3 = service_remove_byuuid (services ctx1) (mod_uuid p1)"
    using c3 by (simp add: same_config_def)
  ultimately have "svc_inv (?ctx3\<lparr>modhash := module_remove (modhash ?ctx3) p1\<rparr>)"
    using svc_inv_drop_module inv1 by (metis svc_inv_def)
  then show ?thesis
    using inv1 by (simp add: module_status_cb_def r r_def [symmetric] Let_def case_prod_beta module_get_uuid_def)
qed

lemma service_add_inv:
  assumes "svc_inv ctx" and "service_add (services ctx) name (Some u) (ModSvc u) = Inr sw"
    and "map_of (modhash ctx) u \<noteq> None"
  shows "svc_inv (ctx\<lparr>services := sw\<rparr>)"
proof -
  note add = service_add_Inr [OF assms(2)]
  have "svc_ok (modhash ctx) \<lparr>svc_cb = ModSvc u, svc_uuid = Some u\<rparr>" using assms(3) by (simp add: svc_ok_def)
  then show ?thesis using assms(1) add(3,4) by (simp add: svc_inv_def)
qed

lemma respond_result_inv: "svc_inv (fst (respond_result ctx msg rc)) = svc_inv ctx"
  by (rule svc_inv_config [OF respond_result_config])

lemma service_cb_inv:
  assumes "svc_inv ctx"
  shows "svc_inv (fst (service_add_cb ctx msg unpacked))" "svc_inv (fst (service_remove_cb ctx msg unpacked))"
proof -
  have mod: "mod_uuid p = u" if "map_of (modhash ctx) u = Some p" for u p
    using assms that by (simp add: svc_inv_def)
  show "svc_inv (fst (service_add_cb ctx msg unpacked))"
    using assms service_add_inv [OF assms] mod
    by (auto simp: service_add_cb_def respond_result_inv module_lookup_def split: sum.splits option.splits)
  have "svc_inv (ctx\<lparr>services := service_remove (services ctx) name\<rparr>)" for name
    using assms by (auto simp: svc_inv_def service_remove_def zhash_delete_lookup split: if_splits)
  then show "svc_inv (fst (service_remove_cb ctx msg unpacked))"
    using assms by (auto simp: service_remove_cb_def respond_result_inv split: sum.splits option.splits)
qed

lemma subscribe_inv:
  assumes "svc_inv ctx" and "module_subscribe (modhash ctx) u t = Inr mh \<or> module_unsubscribe (modhash ctx) u t = Inr mh"
  shows "svc_inv (ctx\<lparr>modhash := mh\<rparr>)"
proof -
  obtain p subs where p: "map_of (modhash ctx) u = Some p" "mh = zhash_update (modhash ctx) u (p\<lparr>mod_subs := subs\<rparr>)"
    using assms(2) by (auto simp: module_subscribe_def module_unsubscribe_def split: option.splits)
  have u: "mod_uuid p = u" using assms(1) p(1) by (simp add: svc_inv_def)
  have "svc_inv (set_module ctx (p\<lparr>mod_subs := subs\<rparr>))"
    by (rule svc_inv_set_module [OF assms(1)]) (use p(1) u in simp)
  then show ?thesis using p(2) u by (simp add: set_module_def)
qed

lemma sub_cb_inv:
  assumes "svc_inv ctx"
  shows "svc_inv (fst (cmb_sub_cb ctx msg unpacked))" "svc_inv (fst (cmb_unsub_cb ctx msg unpacked))"
proof -
  let ?r = "\<lambda>f. bind_result unpacked (\<lambda>topic. bind_result (flux_msg_get_route_first msg) (\<lambda>uuid.
    case uuid of None \<Rightarrow> Inl EPROTO | Some u \<Rightarrow> f (modhash ctx) u topic))"
  have upd: "\<exists>u t. f (modhash ctx) u t = Inr mh" if "?r f = Inr mh" for f :: "_ \<Rightarrow> _ \<Rightarrow> _ \<Rightarrow> ('a, 'b) modhash result" and mh
    using that by (auto simp: bind_result_eq_Inr_iff split: option.splits)
  show "svc_inv (fst (cmb_sub_cb ctx msg unpacked))"
  proof (cases "?r module_subscribe")
    case (Inr mh)
    then show ?thesis using upd [of module_subscribe, OF Inr] subscribe_inv [OF assms] by (auto simp: cmb_sub_cb_def respond_result_inv)
  qed (simp add: cmb_sub_cb_def respond_result_inv assms)
  show "svc_inv (fst (cmb_unsub_cb ctx msg unpacked))"
  proof (cases "?r module_unsubscribe")
    case (Inr mh)
    then show ?thesis using upd [of module_unsubscribe, OF Inr] subscribe_inv [OF assms] by (auto simp: cmb_unsub_cb_def respond_result_inv)
  qed (simp add: cmb_unsub_cb_def respond_result_inv assms)
qed

lemma checkin_config: "same_config ctx (ctx\<lparr>overlay := overlay_checkin_child (overlay ctx) uuid\<rparr>)"
  by (simp add: same_config_def overlay_checkin_child_def)

lemma peer_cb_config [config]:
  "same_config ctx (fst (child_cb ctx msg))" "same_config ctx (fst (parent_cb ctx msg))"
proof -
  show "same_config ctx (fst (parent_cb ctx msg))"
    by (simp add: parent_cb_def config split: sum.splits)
  note via = same_config_trans [OF checkin_config]
  note steps = via [OF request_sendmsg_config] via [OF response_config] via [OF event_config] checkin_config
  show "same_config ctx (fst (child_cb ctx msg))"
    by (simp add: child_cb_def Let_def config steps split: sum.splits option.splits prod.splits)
qed

lemma module_cb_inv:
  assumes "svc_inv ctx" and "map_of (modhash ctx) u = Some p"
  shows "svc_inv (fst (module_cb ctx p raw))"
proof -
  have u: "mod_uuid p = u" using assms by (simp add: svc_inv_def)
  have "svc_inv (fst (module_status_cb (set_module ctx p2) p2 prev))" if "mod_uuid p2 = u" for p2 prev
  proof (rule module_status_cb_inv)
    show "svc_inv (set_module ctx p2)" by (rule svc_inv_set_module) (use assms that in simp_all)
    show "map_of (modhash (set_module ctx p2)) (mod_uuid p2) \<noteq> None" by (simp add: set_module_def zhash_update_lookup)
  qed
  moreover have "svc_inv (fst (broker_response_sendmsg ctx m))" "svc_inv (fst (broker_event_sendmsg ctx m))"
    "svc_inv (fst (broker_request_sendmsg ctx m e))" for m e
    using assms(1) svc_inv_config [OF response_config] svc_inv_config [OF event_config]
      svc_inv_config [OF request_sendmsg_config] by blast+
  ultimately show ?thesis
    using assms(1) u
    by (auto simp: module_cb_def module_set_status_def module_set_errnum_def Let_def case_prod_beta
        split: sum.splits if_splits)
qed

lemma load_module_inv:
  assumes "svc_inv ctx"
  shows "svc_inv (fst (load_module_bypath ctx p request started))"
proof (cases "zhash_insert (modhash ctx) (mod_uuid p) p")
  case None
  then show ?thesis using assms by (simp add: load_module_bypath_def module_get_uuid_def)
next
  case (Some mh)
  let ?u = "mod_uuid p" and ?c1 = "ctx\<lparr>modhash := mh\<rparr>"
  have fresh: "map_of (modhash ctx) ?u = None" and mh: "map_of mh = (map_of (modhash ctx))(?u \<mapsto> p)"
    using Some zhash_insert_lookup [OF Some] by (auto simp: zhash_insert_def split: if_splits)
  have inv1: "svc_inv ?c1"
    using assms mh zhash_ok_ops(2) [OF _ Some]
    by (fastforce simp: svc_inv_def svc_ok_def split: svc_target.splits)
  have un: "svc_inv (ctx\<lparr>modhash := module_remove mh p\<rparr>)"
    using assms fresh mh zhash_ok_ops(2) [OF _ Some]
    by (fastforce simp: svc_inv_def svc_ok_def module_remove_def module_get_uuid_def zhash_delete_lookup
        split: svc_target.splits if_splits)
  show ?thesis
  proof (cases "service_add (services ctx) (mod_name p) (Some ?u) (ModSvc ?u)")
    case (Inl e)
    then show ?thesis using Some un by (simp add: load_module_bypath_def module_get_uuid_def)
  next
    case (Inr sw)
    have "map_of (modhash ?c1) ?u = Some p" using mh by simp
    then have inv2: "svc_inv (?c1\<lparr>services := sw\<rparr>)" using service_add_inv [OF inv1] Inr by simp
    have "zhash_ok sw" using inv2 by (simp add: svc_inv_def)
    then have undo: "svc_inv (ctx\<lparr>services := service_remove_byuuid sw ?u, modhash := module_remove mh p\<rparr>)"
      using svc_inv_drop_module [of "?c1\<lparr>services := service_remove_byuuid sw ?u\<rparr>" sw p]
        svc_inv_remove_byuuid [OF inv2, of ?u] by simp
    have "svc_inv (ctx\<lparr>services := sw, modhash := zhash_update mh ?u p'\<rparr>)" if "mod_uuid p' = ?u" for p'
      using svc_inv_set_module [OF inv2, of p'] that mh by (simp add: set_module_def)
    then show ?thesis using Some Inr undo
      by (auto simp: load_module_bypath_def module_get_uuid_def module_push_insmod_def bind_result_eq_Inr_iff Let_def
          split: sum.splits option.splits)
  qed
qed

lemma add_services_inv:
  assumes "add_services_loop member rank svcs sw = Inr sw'" and "zhash_ok sw"
    and "\<forall>n svc. map_of sw n = Some svc \<longrightarrow> svc_ok mh svc"
  shows "zhash_ok sw' \<and> (\<forall>n svc. map_of sw' n = Some svc \<longrightarrow> svc_ok mh svc)"
  using assms
proof (induction member rank svcs sw rule: add_services_loop.induct)
  case (2 member rank name nodeset rest sw)
  show ?case
  proof (cases "member nodeset rank")
    case True
    then obtain sw1 where sw1: "service_add sw name None RouteToHandle = Inr sw1"
      "add_services_loop member rank rest sw1 = Inr sw'"
      using 2(3) by (auto simp: bind_result_eq_Inr_iff)
    note add = service_add_Inr [OF sw1(1)]
    have "svc_ok mh \<lparr>svc_cb = RouteToHandle, svc_uuid = None\<rparr>" by (simp add: svc_ok_def)
    then have "zhash_ok sw1" "\<forall>n svc. map_of sw1 n = Some svc \<longrightarrow> svc_ok mh svc"
      using add(3,4) 2(4,5) by auto
    then show ?thesis using 2(2) True sw1 by blast
  next
    case False
    then show ?thesis using 2 by simp
  qed
qed simp

lemma unload_module_inv:
  assumes inv: "svc_inv ctx"
  shows "svc_inv (fst (unload_module_byname ctx name request async stopped))"
proof (cases "module_lookup_byname (modhash ctx) name")
  case None
  then show ?thesis using inv by (simp add: unload_module_byname_def)
next
  case (Some p)
  obtain u where "(u, p) \<in> set (modhash ctx)"
    using Some by (auto simp: module_lookup_byname_def find_Some_iff dest!: nth_mem)
  then have "map_of (modhash ctx) u = Some p" using inv by (simp add: svc_inv_def zhash_ok_def)
  then have p: "map_of (modhash ctx) (mod_uuid p) = Some p" using inv by (auto simp: svc_inv_def)
  have pushed: "svc_inv (set_module ctx p')" if "module_push_rmmod p msg = Inr p'" for msg p'
    using that p inv by (auto simp: module_push_rmmod_def bind_result_eq_Inr_iff intro!: svc_inv_set_module)
  let ?ctx1 = "ctx\<lparr>services := service_remove_byuuid (services ctx) (mod_uuid p)\<rparr>"
  have "svc_inv (?ctx1\<lparr>modhash := module_remove (modhash ?ctx1) p\<rparr>)"
    by (rule svc_inv_drop_module [where sw = "services ctx", OF svc_inv_remove_byuuid [OF inv]])
      (use inv in \<open>simp_all add: svc_inv_def\<close>)
  then show ?thesis
    using Some inv pushed
    by (auto simp: unload_module_byname_def module_get_uuid_def split: sum.splits option.splits)
qed

lemma rmmod_cb_inv:
  assumes "svc_inv ctx"
  shows "svc_inv (fst (cmb_rmmod_cb ctx msg unpacked stopped))"
proof (cases unpacked)
  case (Inr name)
  then show ?thesis
    using unload_module_inv [OF assms, of name "Some msg" True stopped]
    by (auto simp: cmb_rmmod_cb_def respond_result_inv split: sum.splits prod.splits)
qed (use assms in \<open>simp add: cmb_rmmod_cb_def respond_result_inv\<close>)

text \<open>The contexts a broker goes through: it boots without modules, loads and unloads them, and handles
  messages in any order.\<close>

inductive broker_reach :: "(cstring option \<Rightarrow> uint32 \<Rightarrow> bool) \<Rightarrow> ('j, 'v) broker_ctx \<Rightarrow> bool" for member where
  reach_boot: "services ctx = service_switch_create \<Longrightarrow> modhash ctx = [] \<Longrightarrow>
    broker_add_services member ctx = Inr ctx' \<Longrightarrow> broker_reach member ctx'"
| reach_load: "broker_reach member ctx \<Longrightarrow> broker_reach member (fst (load_module_bypath ctx p request started))"
| reach_unload: "broker_reach member ctx \<Longrightarrow>
    broker_reach member (fst (unload_module_byname ctx name request async stopped))"
| reach_rmmod: "broker_reach member ctx \<Longrightarrow> broker_reach member (fst (cmb_rmmod_cb ctx msg unpacked stopped))"
| reach_child: "broker_reach member ctx \<Longrightarrow> broker_reach member (fst (child_cb ctx msg))"
| reach_parent: "broker_reach member ctx \<Longrightarrow> broker_reach member (fst (parent_cb ctx msg))"
| reach_module: "broker_reach member ctx \<Longrightarrow> map_of (modhash ctx) u = Some p \<Longrightarrow>
    broker_reach member (fst (module_cb ctx p raw))"
| reach_send: "broker_reach member ctx \<Longrightarrow> broker_reach member (fst (broker_send ctx msg))"
| reach_service_add: "broker_reach member ctx \<Longrightarrow> broker_reach member (fst (service_add_cb ctx msg unpacked))"
| reach_service_remove: "broker_reach member ctx \<Longrightarrow> broker_reach member (fst (service_remove_cb ctx msg unpacked))"
| reach_sub: "broker_reach member ctx \<Longrightarrow> broker_reach member (fst (cmb_sub_cb ctx msg unpacked))"
| reach_unsub: "broker_reach member ctx \<Longrightarrow> broker_reach member (fst (cmb_unsub_cb ctx msg unpacked))"
| reach_subscribe: "broker_reach member ctx \<Longrightarrow> broker_reach member (broker_subscribe ctx topic)"
| reach_unsubscribe: "broker_reach member ctx \<Longrightarrow> broker_reach member (broker_unsubscribe ctx topic)"

lemma broker_reach_inv: "broker_reach member ctx \<Longrightarrow> svc_inv ctx"
proof (induction rule: broker_reach.induct)
  case (reach_boot ctx ctx')
  then obtain sw where "add_services_loop member (ov_rank (overlay ctx)) internal_services [] = Inr sw"
    "ctx' = ctx\<lparr>services := sw\<rparr>"
    by (auto simp: broker_add_services_def bind_result_eq_Inr_iff service_switch_create_def)
  then show ?case
    using add_services_inv [of member "ov_rank (overlay ctx)" internal_services "[]" sw "modhash ctx"] reach_boot(2)
    by (auto simp: svc_inv_def zhash_ok_def)
qed (auto simp: svc_inv_config [OF peer_cb_config(1)] svc_inv_config [OF peer_cb_config(2)]
    svc_inv_config [OF broker_send_config] service_cb_inv sub_cb_inv load_module_inv unload_module_inv rmmod_cb_inv broker_subscribe_def
    broker_unsubscribe_def svc_inv_def [of "_\<lparr>subscriptions := _\<rparr>"] svc_inv_def [THEN iffD1] intro: module_cb_inv)

subsection \<open>Properties\<close>

text \<open>C3: no service outlives its module. In every context a broker can reach by booting, loading and
  unloading modules and handling messages in any order, including module exits, dynamic registration and
  removal of services, a topic that resolves to a module service resolves to a module that is still
  loaded, and the message goes to that module: the callback never gets a dangling module.\<close>

theorem broker_no_dangling_service:
  assumes "broker_reach member ctx" and "service_send (services ctx) msg = Inr (ModSvc u)"
  shows "\<exists>p. map_of (modhash ctx) u = Some p \<and> mod_uuid p = u \<and> broker_service_send ctx msg = module_sendmsg p msg"
proof -
  have inv: "svc_inv ctx" by (rule broker_reach_inv [OF assms(1)])
  obtain topic where topic: "flux_msg_get_topic msg = Inr topic"
    using assms(2) by (cases "flux_msg_get_topic msg") (auto simp: service_send_def)
  obtain svc where "map_of (services ctx) (topic_service topic) = Some svc" "svc_cb svc = ModSvc u"
    using assms(2) by (auto simp: service_send_topic [OF topic] split: option.splits)
  then have "svc_ok (modhash ctx) svc" "svc_cb svc = ModSvc u" using inv by (auto simp: svc_inv_def)
  then obtain p where "map_of (modhash ctx) u = Some p" by (auto simp: svc_ok_def)
  then show ?thesis
    using inv assms(2) by (simp add: svc_inv_def broker_service_send_def mod_svc_cb_def)
qed

definition sample_ctx :: "(nat, nat) broker_ctx" where
  "sample_ctx = \<lparr>overlay = overlay_create\<lparr>ov_rank := 0, ov_size := 3\<rparr>, bc_userid = 100, bc_rolemask = 1, modhash = [],
     event_recv_seq = 0, services = [], subscriptions = [], pub_seq = 0, tbon_k = 2\<rparr>"

definition sample_module :: "(nat, nat) module_t" where
  "sample_module = \<lparr>mod_rank = 0, mod_sock = ZOpen None, mod_userid = 100, mod_rolemask = 1, mod_uuid = [120],
     mod_name = [97], mod_status = 0, mod_errnum = 0, mod_rmmod = [], mod_insmod = None, mod_subs = []\<rparr>"

theorem broker_no_dangling_service_witness:
  "\<exists>ctx. broker_reach (\<lambda>s r. False) ctx \<and> map_of (modhash ctx) [120] = Some sample_module \<and>
     broker_service_send ctx sample_full = module_sendmsg sample_module sample_full"
proof -
  let ?ctx = "fst (load_module_bypath sample_ctx sample_module None (Inr ()))"
  have eq: "?ctx = sample_ctx\<lparr>services := [([97], \<lparr>svc_cb = ModSvc [120], svc_uuid = Some [120]\<rparr>)],
      modhash := [([120], sample_module)]\<rparr>"
    by (simp add: load_module_bypath_def sample_ctx_def sample_module_def module_get_uuid_def zhash_insert_def
        service_add_def service_create_def)
  have "broker_add_services (\<lambda>s r. False) sample_ctx = Inr sample_ctx"
    by (simp add: broker_add_services_def internal_services_def sample_ctx_def)
  then have reach: "broker_reach (\<lambda>s r. False) ?ctx"
    by (intro reach_load reach_boot [of sample_ctx]) (simp_all add: sample_ctx_def service_switch_create_def)
  have t: "flux_msg_get_topic sample_full = Inr [97]" using get_topic_refines [OF sample_full_represents] by simp
  have "service_send (services ?ctx) sample_full = Inr (ModSvc [120])"
    unfolding eq by (simp add: service_send_topic [OF t] topic_service_def)
  from broker_no_dangling_service [OF reach this] show ?thesis using reach by (auto simp: eq)
qed

end
