(* ===== verification/Routing.thy ===== *)
theory Routing
  imports Broker
begin

text \<open>
  Messages across the whole tree of brokers. A message is at a rank, having come from the broker
  itself or one of its modules, from the parent or from a child; handling it there puts a message
  on the socket to the parent or to the children, which arrives at the next rank. The message
  sockets are parameters: \<open>recv\<close> is what a ROUTER socket makes of the frames a peer of a given
  identity sent, \<open>send\<close> what it makes, with the given peers connected, of the frames it is given to
  send: the peer they go to and what that peer gets, or nothing. A broker's identity towards its
  parent is its rank in decimal (\<open>connect_parent\<close> in \<^verbatim>\<open>overlay.c\<close>), and the peers of its own child
  socket are the brokers whose parent it is. A message for any other identity is dropped by the
  socket, so nothing is known of \<open>send\<close> there.
\<close>

subsection \<open>Hops\<close>

datatype port = FromSelf | FromParent | FromChild

text \<open>A message handed in by the broker's own handle or a module is routed by its type, as
  \<open>module_cb\<close> and \<open>broker_send\<close> do.\<close>

definition node_step :: "('j, 'v) broker_ctx \<Rightarrow> port \<Rightarrow> ('j, 'v) flux_msg \<Rightarrow> ('j, 'v) outcome" where
  "node_step ctx port msg =
     (case port of
        FromParent \<Rightarrow> parent_cb ctx msg
      | FromChild \<Rightarrow> child_cb ctx msg
      | FromSelf \<Rightarrow>
          (if flux_msg_get_type msg = Inr FLUX_MSGTYPE_REQUEST
           then broker_request_sendmsg ctx msg ERROR_MODE_RESPOND
           else broker_response_sendmsg ctx msg))"

definition received :: "frame list \<Rightarrow> ('j, 'v) flux_msg" where
  "received fs = \<lparr>zmsg = fs, json = None, msg_aux = []\<rparr>"

type_synonym ('j, 'v) place = "uint32 \<times> port \<times> ('j, 'v) flux_msg"

text \<open>The identities connected to the child socket of a broker.\<close>

definition child_peer :: "('j, 'v) broker_ctx \<Rightarrow> cstring \<Rightarrow> bool" where
  "child_peer ctx u \<longleftrightarrow>
     (\<exists>q. q \<noteq> 0 \<and> q < ov_size (overlay ctx) \<and> kary_parentof (tbon_k ctx) q = ov_rank (overlay ctx) \<and>
        u = dec (unat q))"

inductive hop :: "(cstring \<Rightarrow> frame list \<Rightarrow> frame list)
    \<Rightarrow> ((cstring \<Rightarrow> bool) \<Rightarrow> frame list \<Rightarrow> (cstring \<times> frame list) option)
    \<Rightarrow> (uint32 \<Rightarrow> ('j, 'v) broker_ctx) \<Rightarrow> ('j, 'v) place \<Rightarrow> ('j, 'v) place \<Rightarrow> bool" for recv send net where
  hop_up: "node_step (net r) port m = (ctx, [ToParent m'], rc) \<Longrightarrow>
    p = kary_parentof (tbon_k (net r)) r \<Longrightarrow> p \<noteq> KARY_NONE \<Longrightarrow>
    hop recv send net (r, port, m) (p, FromChild, received (recv (dec (unat r)) (zmsg m')))"
| hop_down: "node_step (net r) port m = (ctx, [ToChild m'], rc) \<Longrightarrow>
    child_peer (net r) (dec (unat q)) \<Longrightarrow>
    send (child_peer (net r)) (zmsg m') = Some (dec (unat q), fs) \<Longrightarrow>
    hop recv send net (r, port, m) (q, FromParent, received fs)"

text \<open>A broker of the tree with its sockets open. Module UUIDs are not decimal ranks.\<close>

definition node_ok :: "int \<Rightarrow> uint32 \<Rightarrow> uint32 \<Rightarrow> ('j, 'v) broker_ctx \<Rightarrow> bool" where
  "node_ok k sz r ctx \<longleftrightarrow>
     ov_rank (overlay ctx) = r \<and> ov_size (overlay ctx) = sz \<and> tbon_k ctx = k \<and>
     (r \<noteq> 0 \<longrightarrow> ov_parent (overlay ctx) = ZOpen None) \<and> ov_child (overlay ctx) = ZOpen None \<and>
     (\<forall>q :: uint32. map_of (modhash ctx) (dec (unat q)) = None)"

subsection \<open>The next rank on the way\<close>

definition next_rank :: "int \<Rightarrow> uint32 \<Rightarrow> uint32 \<Rightarrow> uint32 \<Rightarrow> uint32" where
  "next_rank k sz n r =
     (let gw = kary_child_route k sz r n in if gw \<noteq> KARY_NONE then gw else kary_parentof k r)"

inductive leads :: "int \<Rightarrow> uint32 \<Rightarrow> uint32 \<Rightarrow> uint32 \<Rightarrow> uint32 list \<Rightarrow> bool" for k sz n where
  leads_here: "leads k sz n n []"
| leads_on: "r \<noteq> n \<Longrightarrow> leads k sz n (next_rank k sz n r) ps \<Longrightarrow> leads k sz n r (r # ps)"

definition tree_edge :: "int \<Rightarrow> uint32 \<Rightarrow> uint32 \<Rightarrow> bool" where
  "tree_edge k p q \<longleftrightarrow> q \<noteq> 0 \<and> kary_parentof k q = p"

lemma next_rank_cases:
  assumes "kary_fits k sz" and "r < sz" and "n < sz" and "r \<noteq> n"
  shows "kary_child_route k sz r n \<noteq> KARY_NONE \<and> next_rank k sz n r < sz \<and>
       tree_edge k r (next_rank k sz n r) \<and>
       (next_rank k sz n r = n \<or> descends (nat k) (unat n) (unat (next_rank k sz n r)))
     \<or> kary_child_route k sz r n = KARY_NONE \<and> next_rank k sz n r = kary_parentof k r \<and>
       next_rank k sz n r < sz \<and> tree_edge k (next_rank k sz n r) r \<and> r \<noteq> 0 \<and>
       \<not> descends (nat k) (unat n) (unat r)"
proof (cases "kary_child_route k sz r n = KARY_NONE")
  case True
  have nd: "\<not> descends (nat k) (unat n) (unat r)"
    using child_route_correct [OF assms(1,2,3)] True by blast
  have r0: "r \<noteq> 0"
  proof
    assume "r = 0"
    then have "0 < unat n" using assms(4) by (simp add: unat_gt_0)
    with nd \<open>r = 0\<close> show False using descends_root [of "unat n" "nat k"] by simp
  qed
  then show ?thesis
    using True nd parentof_in_range [OF assms(1,2) r0] by (simp add: next_rank_def tree_edge_def)
next
  case False
  then show ?thesis
    using child_route_correct [OF assms(1,2,3)] by (auto simp: next_rank_def tree_edge_def)
qed

lemma next_rank_less:
  assumes "kary_fits k sz" and "r < sz" and "n < sz" and "r \<noteq> n"
  shows "next_rank k sz n r < sz"
  using next_rank_cases [OF assms] by blast

lemma leads_down:
  assumes "kary_fits k sz" and "r < sz" and "n < sz" and "r = n \<or> descends (nat k) (unat n) (unat r)"
  shows "\<exists>ps. leads k sz n r ps"
  using assms(2,4)
proof (induction "unat n - unat r" arbitrary: r rule: less_induct)
  case less
  show ?case
  proof (cases "r = n")
    case True
    then show ?thesis using leads_here by blast
  next
    case False
    let ?c = "next_rank k sz n r"
    have d: "descends (nat k) (unat n) (unat r)" using less.prems False by blast
    then have c: "?c < sz" "tree_edge k r ?c" "?c = n \<or> descends (nat k) (unat n) (unat ?c)"
      using next_rank_cases [OF assms(1) less.prems(1) assms(3) False] by auto
    have "unat r < unat ?c"
      using kary_parentof_less [of k ?c] c(2) kary_fits_bounds(5) [OF assms(1) less.prems(1)]
      by (auto simp: tree_edge_def word_less_nat_alt)
    moreover have "unat r < unat n" using descends_less [OF d] .
    moreover have "unat ?c \<le> unat n" using c(3) descends_less by fastforce
    ultimately have "unat n - unat ?c < unat n - unat r" by linarith
    from less.hyps [OF this c(1,3)] show ?thesis using leads_on [OF False] by blast
  qed
qed

lemma leads_exists:
  assumes "kary_fits k sz" and "r < sz" and "n < sz"
  shows "\<exists>ps. leads k sz n r ps"
  using assms(1,2)
proof (induction rule: climb_induct)
  case root
  have "0 = n \<or> descends (nat k) (unat n) (unat (0 :: uint32))"
    using descends_root [of "unat n" "nat k"] by (auto simp: unat_gt_0)
  moreover have "0 < sz" using assms(3) by (simp add: word_less_nat_alt)
  ultimately show ?case using leads_down [OF assms(1)] assms(3) by blast
next
  case (up r)
  show ?case
  proof (cases "r = n \<or> descends (nat k) (unat n) (unat r)")
    case True
    then show ?thesis using leads_down [OF assms(1) up(1) assms(3)] by blast
  next
    case False
    then have "next_rank k sz n r = kary_parentof k r"
      using child_route_correct [OF assms(1) up(1) assms(3)] by (simp add: next_rank_def)
    then show ?thesis using False up(3) leads_on [of r n k sz] by auto
  qed
qed

lemma child_peer_edge:
  assumes "node_ok k sz p ctx" and "tree_edge k p q" and "q < sz"
  shows "child_peer ctx (dec (unat q))"
  using assms by (auto simp: node_ok_def tree_edge_def child_peer_def)

subsection \<open>Requests\<close>

text \<open>An abstract message that is a request for the rank \<open>n\<close>, not addressed upstream.\<close>

definition request_for :: "uint32 \<Rightarrow> abs_msg \<Rightarrow> bool" where
  "request_for n a \<longleftrightarrow>
     pf_type (a_fields a) = FLUX_MSGTYPE_REQUEST \<and> pf_bigint (a_fields a) = n \<and>
     \<not> has_flag (pf_flags (a_fields a)) FLUX_MSGFLAG_UPSTREAM \<and> n \<noteq> FLUX_NODEID_ANY \<and> n \<noteq> FLUX_NODEID_UPSTREAM"

lemma copy_represents:
  assumes "represents m a"
  shows "\<exists>m'. flux_msg_copy m True = Inr m' \<and> represents m' a"
proof -
  have "a\<lparr>a_payload := a_payload a\<rparr> = a" by (cases a) simp
  then show ?thesis using flux_msg_copy_refines [OF assms, of True] by auto
qed

lemma subvert_child:
  assumes "represents m a" and "a_routes a = Some rs" and "ov_child (overlay ctx) = ZOpen None"
  shows "\<exists>m'. subvert_sendmsg_child ctx m gw = ([ToChild m'], Inr ()) \<and>
    represents m' (a\<lparr>a_routes := Some (dec (unat gw) # dec (unat (ov_rank (overlay ctx))) # rs)\<rparr>)"
proof -
  obtain m1 where m1: "flux_msg_copy m True = Inr m1" "represents m1 a" using copy_represents [OF assms(1)] by blast
  obtain m2 where m2: "flux_msg_push_route m1 (dec (unat (ov_rank (overlay ctx)))) = Inr m2"
    "represents m2 (a\<lparr>a_routes := Some (dec (unat (ov_rank (overlay ctx))) # rs)\<rparr>)"
    using push_route_refines(2) [OF m1(2) assms(2), of "dec (unat (ov_rank (overlay ctx)))"] by auto
  obtain m3 where "flux_msg_push_route m2 (dec (unat gw)) = Inr m3"
    "represents m3 (a\<lparr>a_routes := Some (dec (unat gw) # dec (unat (ov_rank (overlay ctx))) # rs)\<rparr>)"
    using push_route_refines(2) [OF m2(2), of _ "dec (unat gw)"] by auto
  then show ?thesis
    using m1(1) m2(1) assms(3) by (simp add: subvert_sendmsg_child_def overlay_sendmsg_child_def flux_msg_sendzsock_def)
qed

lemma send_parent_open:
  "ov_parent (overlay ctx) = ZOpen None \<Longrightarrow> \<exists>ctx'. send_parent ctx m = (ctx', [ToParent m], Inr ())"
  by (simp add: send_parent_def overlay_sendmsg_parent_def flux_msg_sendzsock_def)

lemma get_nodeid_request_for:
  assumes "represents m a" and "request_for n a"
  shows "flux_msg_get_nodeid m = Inr (n, 0)"
  using get_nodeid_refines [OF assms(1)] assms(2) by (simp add: request_for_def Let_def)

lemma request_sendmsg_onward:
  assumes "represents m a" and "request_for n a" and "a_routes a = Some rs"
    and "node_ok k sz r ctx" and "r \<noteq> n"
  shows "kary_child_route k sz r n \<noteq> KARY_NONE \<Longrightarrow>
      \<exists>ctx' m'. broker_request_sendmsg ctx m mode = (ctx', [ToChild m'], Inr ()) \<and>
        represents m' (a\<lparr>a_routes := Some (dec (unat (kary_child_route k sz r n)) # dec (unat r) # rs)\<rparr>)"
    "kary_child_route k sz r n = KARY_NONE \<Longrightarrow> r \<noteq> 0 \<Longrightarrow>
      \<exists>ctx'. broker_request_sendmsg ctx m mode = (ctx', [ToParent m], Inr ())"
proof -
  have n: "n \<noteq> FLUX_NODEID_ANY" using assms(2) by (simp add: request_for_def)
  note get = get_nodeid_request_for [OF assms(1,2)]
  show "\<exists>ctx' m'. broker_request_sendmsg ctx m mode = (ctx', [ToChild m'], Inr ()) \<and>
        represents m' (a\<lparr>a_routes := Some (dec (unat (kary_child_route k sz r n)) # dec (unat r) # rs)\<rparr>)"
    if "kary_child_route k sz r n \<noteq> KARY_NONE"
    using that subvert_child [OF assms(1,3), of ctx "kary_child_route k sz r n"] get n assms(4,5)
    by (auto simp: broker_request_sendmsg_def broker_request_route_def node_ok_def Let_def)
  show "\<exists>ctx'. broker_request_sendmsg ctx m mode = (ctx', [ToParent m], Inr ())"
    if "kary_child_route k sz r n = KARY_NONE" "r \<noteq> 0"
    using that send_parent_open [of ctx m] get n assms(4,5)
    by (auto simp: broker_request_sendmsg_def broker_request_route_def node_ok_def Let_def)
qed

lemma node_ok_checkin: "node_ok k sz r ctx \<Longrightarrow> node_ok k sz r (ctx\<lparr>overlay := overlay_checkin_child (overlay ctx) u\<rparr>)"
  by (simp add: node_ok_def overlay_checkin_child_def)

lemma request_node_step:
  assumes "represents m a" and "pf_type (a_fields a) = FLUX_MSGTYPE_REQUEST" and "a_routes a = Some rs"
    and "port = FromChild \<longrightarrow> rs \<noteq> []" and "node_ok k sz r ctx"
  shows "\<exists>ctx'. node_ok k sz r ctx' \<and> same_config ctx ctx' \<and>
    node_step ctx port m = broker_request_sendmsg ctx' m ERROR_MODE_RESPOND"
proof (cases port)
  case FromSelf
  then show ?thesis
    using assms(2,5) identity_fields_refine(5) [OF assms(1)] same_config_refl by (auto simp: node_step_def)
next
  case FromParent
  then show ?thesis
    using assms(2,5) identity_fields_refine(5) [OF assms(1)] same_config_refl
    by (auto simp: node_step_def parent_cb_def msgtype_consts)
next
  case FromChild
  let ?ctx = "ctx\<lparr>overlay := overlay_checkin_child (overlay ctx) (hd rs)\<rparr>"
  have "node_step ctx port m = broker_request_sendmsg ?ctx m ERROR_MODE_RESPOND"
    using FromChild assms(2,4) identity_fields_refine(5) [OF assms(1)] route_get_refines(2) [OF assms(1,3)]
    by (simp add: node_step_def child_cb_def msgtype_consts)
  then show ?thesis using node_ok_checkin [OF assms(5)] checkin_config by blast
qed

subsection \<open>Frames on the sockets\<close>

lemma received_represents:
  "represents m a \<Longrightarrow> represents (received (zmsg m)) a"
  by (simp add: represents_def received_def)

lemma received_push:
  "represents m a \<Longrightarrow> a_routes a = Some rs \<Longrightarrow> x \<noteq> [] \<Longrightarrow>
     represents (received (x # zmsg m)) (a\<lparr>a_routes := Some (x # rs)\<rparr>)"
  by (auto simp: represents_def received_def abs_ok_def route_part_def flags_match_def)

lemma received_pop:
  assumes "represents m (a\<lparr>a_routes := Some (x # rs)\<rparr>)"
  obtains fs where "zmsg m = x # fs" "represents (received fs) (a\<lparr>a_routes := Some rs\<rparr>)"
  using assms by (auto simp: represents_def received_def abs_ok_def route_part_def flags_match_def)

lemma request_hop:
  assumes recv: "\<And>u fs. recv u fs = u # fs" and send: "\<And>P u fs. P u \<Longrightarrow> send P (u # fs) = Some (u, fs)"
    and net: "node_ok k sz r (net r)" and fits: "kary_fits k sz" "r < sz" "n < sz" "r \<noteq> n"
    and m: "represents m a" "request_for n a" "a_routes a = Some rs" "port = FromChild \<longrightarrow> rs \<noteq> []"
  shows "\<exists>port' m'. hop recv send net (r, port, m) (next_rank k sz n r, port', m') \<and>
    represents m' (a\<lparr>a_routes := Some (dec (unat r) # rs)\<rparr>)"
proof -
  have type: "pf_type (a_fields a) = FLUX_MSGTYPE_REQUEST" using m(2) by (simp add: request_for_def)
  obtain ctx where ctx: "node_ok k sz r ctx" "node_step (net r) port m = broker_request_sendmsg ctx m ERROR_MODE_RESPOND"
    using request_node_step [OF m(1) type m(3,4) net] by blast
  have k: "tbon_k (net r) = k" using net by (simp add: node_ok_def)
  show ?thesis
  proof (cases "kary_child_route k sz r n = KARY_NONE")
    case True
    then have up: "next_rank k sz n r = kary_parentof k r" "r \<noteq> 0" "kary_parentof k r \<noteq> KARY_NONE"
      using next_rank_cases [OF fits] parentof_in_range [OF fits(1,2)] by auto
    obtain ctx' where "node_step (net r) port m = (ctx', [ToParent m], Inr ())"
      using request_sendmsg_onward(2) [OF m(1,2,3) ctx(1) fits(4) True up(2), of ERROR_MODE_RESPOND] ctx(2) by auto
    then have "hop recv send net (r, port, m) (kary_parentof k r, FromChild, received (recv (dec (unat r)) (zmsg m)))"
      using up(3) k by (intro hop_up) auto
    then show ?thesis using received_push [OF m(1,3), of "dec (unat r)"] up(1) recv by auto
  next
    case False
    let ?c = "kary_child_route k sz r n"
    obtain ctx' m' where m': "node_step (net r) port m = (ctx', [ToChild m'], Inr ())"
      "represents m' (a\<lparr>a_routes := Some (dec (unat ?c) # dec (unat r) # rs)\<rparr>)"
      using request_sendmsg_onward(1) [OF m(1,2,3) ctx(1) fits(4) False, of ERROR_MODE_RESPOND] ctx(2) by auto
    obtain fs where fs: "zmsg m' = dec (unat ?c) # fs" "represents (received fs :: ('a, 'b) flux_msg) (a\<lparr>a_routes := Some (dec (unat r) # rs)\<rparr>)"
      using m'(2) by (rule received_pop)
    have "tree_edge k r ?c" "?c < sz" using next_rank_cases [OF fits] False by (auto simp: next_rank_def Let_def)
    then have peer: "child_peer (net r) (dec (unat ?c))" by (rule child_peer_edge [OF net])
    then have "hop recv send net (r, port, m) (?c, FromParent, received fs)"
      using m'(1) fs(1) peer by (intro hop_down) (auto intro: send)
    then show ?thesis using fs(2) False by (auto simp: next_rank_def Let_def)
  qed
qed

lemma request_path:
  assumes recv: "\<And>u fs. recv u fs = u # fs" and send: "\<And>P u fs. P u \<Longrightarrow> send P (u # fs) = Some (u, fs)"
    and net: "\<And>q. q < sz \<Longrightarrow> node_ok k sz q (net q)" and fits: "kary_fits k sz" "n < sz"
    and path: "leads k sz n r ps" "r < sz"
    and m: "represents m a" "request_for n a" "a_routes a = Some rs" "port = FromChild \<longrightarrow> rs \<noteq> []"
  shows "\<exists>port' m'. (hop recv send net)\<^sup>*\<^sup>* (r, port, m) (n, port', m') \<and>
    represents m' (a\<lparr>a_routes := Some (map (\<lambda>q. dec (unat q)) (rev ps) @ rs)\<rparr>) \<and>
    (port' = FromChild \<longrightarrow> map (\<lambda>q. dec (unat q)) (rev ps) @ rs \<noteq> [])"
  using path m
proof (induction arbitrary: m a rs port rule: leads.induct)
  case leads_here
  have "a\<lparr>a_routes := Some rs\<rparr> = a" using leads_here(4) by (cases a) simp
  then have "represents m (a\<lparr>a_routes := Some rs\<rparr>)" using leads_here(2) by (rule ssubst)
  then show ?case using leads_here(5) by (intro exI [of _ port] exI [of _ m]) simp
next
  case (leads_on r ps)
  obtain port1 m1 where h: "hop recv send net (r, port, m) (next_rank k sz n r, port1, m1)"
    "represents m1 (a\<lparr>a_routes := Some (dec (unat r) # rs)\<rparr>)"
    using request_hop [where recv = recv and send = send and net = net, OF recv send net [OF leads_on(4)] fits(1) leads_on(4) fits(2) leads_on(1) leads_on(5-8)] by blast
  have less: "next_rank k sz n r < sz" by (rule next_rank_less [OF fits(1) leads_on(4) fits(2) leads_on(1)])
  have req: "request_for n (a\<lparr>a_routes := Some (dec (unat r) # rs)\<rparr>)" using leads_on(6) by (simp add: request_for_def)
  obtain port' m' where "(hop recv send net)\<^sup>*\<^sup>* (next_rank k sz n r, port1, m1) (n, port', m')"
    "represents m' (a\<lparr>a_routes := Some (map (\<lambda>q. dec (unat q)) (rev ps) @ dec (unat r) # rs)\<rparr>)"
    using leads_on(3) [OF less h(2) req, of "dec (unat r) # rs" port1] by auto
  then show ?case using converse_rtranclp_into_rtranclp [where r = "hop recv send net", OF h(1)]
    by (intro exI [of _ port'] exI [of _ m']) simp
qed

subsection \<open>Responses\<close>

text \<open>A response with the route stack \<open>rs\<close> still to go. On its way up it has two more frames on top,
  the identity that the ROUTER socket added and the one it was addressed with.\<close>

definition carries :: "port \<Rightarrow> ('j, 'v) flux_msg \<Rightarrow> abs_msg \<Rightarrow> cstring list \<Rightarrow> bool" where
  "carries port m b rs \<longleftrightarrow>
     (if port = FromChild then \<exists>x y. represents m (b\<lparr>a_routes := Some (x # y # rs)\<rparr>)
      else represents m (b\<lparr>a_routes := Some rs\<rparr>))"

lemma pop_void_represents:
  assumes "represents m (b\<lparr>a_routes := Some (x # rs)\<rparr>)"
  shows "represents (pop_route_void m) (b\<lparr>a_routes := Some rs\<rparr>)"
  using pop_route_refines(3) [OF assms, of x rs] by (auto simp: pop_route_void_def)

lemma response_node_step:
  assumes "carries port m b rs" and "pf_type (a_fields b) = FLUX_MSGTYPE_RESPONSE" and "node_ok k sz r ctx"
  shows "\<exists>ctx' m0. node_ok k sz r ctx' \<and> same_config ctx ctx' \<and>
    node_step ctx port m = broker_response_sendmsg ctx' m0 \<and> represents m0 (b\<lparr>a_routes := Some rs\<rparr>)"
proof (cases "port = FromChild")
  case True
  then obtain x y where m: "represents m (b\<lparr>a_routes := Some (x # y # rs)\<rparr>)"
    using assms(1) by (auto simp: carries_def)
  let ?ctx = "ctx\<lparr>overlay := overlay_checkin_child (overlay ctx) x\<rparr>"
  have "node_step ctx port m = broker_response_sendmsg ?ctx (pop_route_void (pop_route_void m))"
    using True assms(2) identity_fields_refine(5) [OF m] route_get_refines(2) [OF m, of "x # y # rs"]
    by (simp add: node_step_def child_cb_def msgtype_consts)
  moreover have "represents (pop_route_void (pop_route_void m)) (b\<lparr>a_routes := Some rs\<rparr>)"
    by (rule pop_void_represents [OF pop_void_represents [OF m]])
  ultimately show ?thesis using node_ok_checkin [OF assms(3)] checkin_config by blast
next
  case False
  then have m: "represents m (b\<lparr>a_routes := Some rs\<rparr>)" using assms(1) by (simp add: carries_def)
  have "node_step ctx port m = broker_response_sendmsg ctx m"
    using False assms(2) identity_fields_refine(5) [OF m]
    by (cases port) (simp_all add: node_step_def parent_cb_def msgtype_consts)
  then show ?thesis using m assms(3) same_config_refl by blast
qed

lemma response_sendmsg_onward:
  assumes "represents m (b\<lparr>a_routes := Some (dec (unat p) # rs)\<rparr>)" and "node_ok k sz q ctx"
  shows "q \<noteq> 0 \<Longrightarrow> kary_parentof k q = p \<Longrightarrow> p \<noteq> KARY_NONE \<Longrightarrow>
      \<exists>ctx'. broker_response_sendmsg ctx m = (ctx', [ToParent m], Inr ())"
    "kary_parentof k q \<noteq> p \<Longrightarrow> broker_response_sendmsg ctx m = (ctx, [ToChild m], Inr ())"
proof -
  have last: "flux_msg_get_route_last m = Inr (Some (dec (unat p)))"
    using route_get_refines(2) [OF assms(1), of "dec (unat p) # rs"] by simp
  show "\<exists>ctx'. broker_response_sendmsg ctx m = (ctx', [ToParent m], Inr ())"
    if "q \<noteq> 0" "kary_parentof k q = p" "p \<noteq> KARY_NONE"
    using that last send_parent_open [of ctx m] assms(2)
    by (auto simp: broker_response_sendmsg_def node_ok_def Let_def)
  have "module_response_sendmsg (modhash ctx) m = ([], Inl ENOSYS)"
    using last assms(2) by (simp add: module_response_sendmsg_def node_ok_def)
  moreover have "dec (unat (kary_parentof k q)) = dec (unat p) \<longleftrightarrow> kary_parentof k q = p"
    by (simp only: dec_inject word_unat_eq_iff)
  ultimately show "broker_response_sendmsg ctx m = (ctx, [ToChild m], Inr ())" if "kary_parentof k q \<noteq> p"
    using that last assms(2)
    by (simp add: broker_response_sendmsg_def node_ok_def Let_def overlay_sendmsg_child_def flux_msg_sendzsock_def)
qed

lemma response_hop:
  fixes m :: "('j, 'v) flux_msg"
  assumes recv: "\<And>u fs. recv u fs = u # fs" and send: "\<And>P u fs. P u \<Longrightarrow> send P (u # fs) = Some (u, fs)"
    and net: "node_ok k sz q (net q)" and fits: "kary_fits k sz" "p < sz" "q < sz"
    and edge: "tree_edge k p q \<or> tree_edge k q p"
    and m: "carries port m b (dec (unat p) # rs)" "pf_type (a_fields b) = FLUX_MSGTYPE_RESPONSE"
  shows "\<exists>port' m'. hop recv send net (q, port, m) (p, port', m') \<and> carries port' m' b rs"
proof -
  obtain ctx m0 where m0: "node_ok k sz q ctx" "node_step (net q) port m = broker_response_sendmsg ctx m0"
    "represents m0 (b\<lparr>a_routes := Some (dec (unat p) # rs)\<rparr>)"
    using response_node_step [OF m net] by blast
  have k: "tbon_k (net q) = k" using net by (simp add: node_ok_def)
  have np: "p \<noteq> KARY_NONE" by (rule kary_fits_bounds(5) [OF fits(1,2)])
  show ?thesis
  proof (cases "kary_parentof k q = p")
    case True
    then have q0: "q \<noteq> 0" using np by auto
    obtain ctx' where "node_step (net q) port m = (ctx', [ToParent m0], Inr ())"
      using response_sendmsg_onward(1) [OF m0(3,1) q0 True np] m0(2) by auto
    then have "hop recv send net (q, port, m) (p, FromChild, received (recv (dec (unat q)) (zmsg m0)))"
      using True np k by (intro hop_up) auto
    moreover have "carries FromChild (received (dec (unat q) # zmsg m0) :: ('j, 'v) flux_msg) b rs"
      using received_push [OF m0(3), of _ "dec (unat q)"] by (auto simp: carries_def)
    ultimately show ?thesis using recv by auto
  next
    case False
    obtain fs where fs: "zmsg m0 = dec (unat p) # fs" "represents (received fs :: ('j, 'v) flux_msg) (b\<lparr>a_routes := Some rs\<rparr>)"
      using m0(3) by (rule received_pop)
    have "node_step (net q) port m = (ctx, [ToChild m0], Inr ())"
      using response_sendmsg_onward(2) [OF m0(3,1) False] m0(2) by simp
    moreover have peer: "child_peer (net q) (dec (unat p))"
      using edge False fits(2) by (intro child_peer_edge [OF net]) (auto simp: tree_edge_def)
    ultimately have "hop recv send net (q, port, m) (p, FromParent, received fs)"
      using fs(1) peer by (intro hop_down) (auto intro: send)
    then show ?thesis using fs(2) by (auto simp: carries_def)
  qed
qed

lemma response_path:
  fixes m :: "('j, 'v) flux_msg"
  assumes recv: "\<And>u fs. recv u fs = u # fs" and send: "\<And>P u fs. P u \<Longrightarrow> send P (u # fs) = Some (u, fs)"
    and net: "\<And>q. q < sz \<Longrightarrow> node_ok k sz q (net q)" and fits: "kary_fits k sz" "n < sz"
    and path: "leads k sz n r ps" "r < sz"
    and m: "represents m (b\<lparr>a_routes := Some (map (\<lambda>q. dec (unat q)) (rev ps) @ rs)\<rparr>)"
      "pf_type (a_fields b) = FLUX_MSGTYPE_RESPONSE"
  shows "\<exists>port' m'. (hop recv send net)\<^sup>*\<^sup>* (n, FromSelf, m) (r, port', m') \<and> carries port' m' b rs"
  using path m
proof (induction arbitrary: rs rule: leads.induct)
  case leads_here
  then have "carries FromSelf m b rs" by (simp add: carries_def)
  then show ?case by blast
next
  case (leads_on r ps)
  let ?q = "next_rank k sz n r"
  have less: "?q < sz" by (rule next_rank_less [OF fits(1) leads_on(4) fits(2) leads_on(1)])
  obtain port1 m1 where h: "(hop recv send net)\<^sup>*\<^sup>* (n, FromSelf, m) (?q, port1, m1)"
    "carries port1 m1 b (dec (unat r) # rs)"
    using leads_on(3) [OF less, of "dec (unat r) # rs"] leads_on(5,6) by auto
  have "tree_edge k r ?q \<or> tree_edge k ?q r" using next_rank_cases [OF fits(1) leads_on(4) fits(2) leads_on(1)] by blast
  from response_hop [where recv = recv and send = send and net = net, OF recv send net [OF less] fits(1) leads_on(4) less this h(2) leads_on(6)]
  obtain port' m' where "hop recv send net (?q, port1, m1) (r, port', m')" "carries port' m' b rs" by blast
  then show ?case using rtranclp.rtrancl_into_rtrancl [OF h(1)] by blast
qed

subsection \<open>A sample tree\<close>

text \<open>Three brokers, rank 0 the parent of 1 and 2, each with one module. A request from rank 1 to
  rank 2 and its response.\<close>

definition sample_node :: "uint32 \<Rightarrow> (nat, nat) broker_ctx" where
  "sample_node r = sample_ctx\<lparr>overlay := overlay_create\<lparr>ov_rank := r, ov_size := 3, ov_parent := ZOpen None,
     ov_child := ZOpen None\<rparr>, modhash := [([120], sample_module)]\<rparr>"

definition sample_trip_fields :: "byte \<Rightarrow> proto_fields" where
  "sample_trip_fields t = sample_fields\<lparr>pf_type := uint t, pf_bigint := 2\<rparr>"

definition sample_trip_proto :: "byte \<Rightarrow> frame" where
  "sample_trip_proto t = [0x8e, 1, t, 8, 0xff, 0xff, 0xff, 0xff, 0, 0, 0, 0, 0, 0, 0, 2, 0, 0, 0, 0]"

definition sample_trip :: "byte \<Rightarrow> cstring list \<Rightarrow> (nat, nat) flux_msg" where
  "sample_trip t rs = received (rs @ [[], sample_trip_proto t])"

definition sample_trip_abs :: "byte \<Rightarrow> cstring list \<Rightarrow> abs_msg" where
  "sample_trip_abs t rs = \<lparr>a_routes = Some rs, a_topic = None, a_payload = None, a_fields = sample_trip_fields t\<rparr>"

lemma sample_trip_represents: "[] \<notin> set rs \<Longrightarrow> represents (sample_trip t rs) (sample_trip_abs t rs)"
  by (simp add: represents_def sample_trip_def sample_trip_abs_def received_def abs_ok_def route_part_def
      topic_part_def payload_part_def proto_ok_def proto_consts fields_of_def own_fields_def own_flags_def
      flags_match_def has_flag_def sample_trip_fields_def sample_fields_def)
    (simp add: get_be32_def sample_trip_proto_def msgflag_consts)

lemma dec_not_module: "dec n \<noteq> [120]"
  using dec_digits [of 120 n] by auto

lemma sample_node_ok: "node_ok 2 3 r (sample_node r)"
  using dec_not_module by (simp add: node_ok_def sample_node_def sample_ctx_def)

lemma sample_leads: "leads 2 3 2 1 [1, 0]"
proof -
  have "next_rank 2 3 2 1 = 0" "next_rank 2 3 2 0 = 2" by code_simp+
  then show ?thesis using leads_on [of 0 2 2 3 "[]"] leads_on [of 1 2 2 3 "[0]"] leads_here [of 2 3 2] by simp
qed

text \<open>A ROUTER socket as documented: messages for peers that are not connected are dropped.\<close>

fun sample_send :: "(cstring \<Rightarrow> bool) \<Rightarrow> frame list \<Rightarrow> (cstring \<times> frame list) option" where
  "sample_send peers [] = None"
| "sample_send peers (u # fs) = (if peers u then Some (u, fs) else None)"

subsection \<open>Properties\<close>

text \<open>C1: requests reach the rank they are addressed to. From any rank of a connected tree of brokers,
  a request for another rank hops along the tree to that rank, with topic, payload and fields
  unchanged and with the ranks it passed on its route stack, and there it is handed to the local
  services. A hop only ever goes to the parent or to a connected child. The tree has to satisfy the size
  bound of the k-ary arithmetic, and the ROUTER sockets to add the identity of the sender and to strip
  that of a connected receiver as documented.\<close>

theorem request_reaches_rank:
  assumes "\<And>u fs. recv u fs = u # fs" and "\<And>P u fs. P u \<Longrightarrow> send P (u # fs) = Some (u, fs)"
    and "\<And>q. q < sz \<Longrightarrow> node_ok k sz q (net q)" and "kary_fits k sz" and "r < sz" and "n < sz"
    and "represents m a" and "request_for n a" and "a_routes a = Some rs"
  shows "\<exists>ps port' m'. leads k sz n r ps \<and> (hop recv send net)\<^sup>*\<^sup>* (r, FromSelf, m) (n, port', m') \<and>
    represents m' (a\<lparr>a_routes := Some (map (\<lambda>q. dec (unat q)) (rev ps) @ rs)\<rparr>) \<and>
    (\<exists>ctx. same_config (net n) ctx \<and>
       node_step (net n) port' m' = broker_request_sendmsg ctx m' ERROR_MODE_RESPOND \<and>
       broker_request_route ctx m' = (ctx, broker_service_send ctx m'))"
proof -
  obtain ps where ps: "leads k sz n r ps" using leads_exists [OF assms(4-6)] by blast
  obtain port' m' where m': "(hop recv send net)\<^sup>*\<^sup>* (r, FromSelf, m) (n, port', m')"
    "represents m' (a\<lparr>a_routes := Some (map (\<lambda>q. dec (unat q)) (rev ps) @ rs)\<rparr>)"
    "port' = FromChild \<longrightarrow> map (\<lambda>q. dec (unat q)) (rev ps) @ rs \<noteq> []"
    using request_path [where recv = recv and send = send and net = net, OF assms(1,2,3,4,6) ps assms(5,7,8,9), of FromSelf] by auto
  have req: "request_for n (a\<lparr>a_routes := Some (map (\<lambda>q. dec (unat q)) (rev ps) @ rs)\<rparr>)"
    using assms(8) by (simp add: request_for_def)
  obtain ctx where ctx: "node_ok k sz n ctx" "same_config (net n) ctx"
    "node_step (net n) port' m' = broker_request_sendmsg ctx m' ERROR_MODE_RESPOND"
    using request_node_step [OF m'(2) _ _ m'(3) assms(3) [OF assms(6)]] req by (auto simp: request_for_def)
  have "broker_request_route ctx m' = (ctx, broker_service_send ctx m')"
    using get_nodeid_request_for [OF m'(2) req] assms(8) ctx(1)
    by (simp add: broker_request_route_def node_ok_def request_for_def Let_def case_prod_beta)
  then show ?thesis using ps m'(1,2) ctx(2,3) by blast
qed

theorem request_reaches_rank_witness:
  "\<exists>ps port' m'. leads 2 3 2 1 ps \<and>
     (hop (#) sample_send sample_node)\<^sup>*\<^sup>* (1, FromSelf, sample_trip 1 [[120]]) (2, port', m') \<and>
     represents m' (sample_trip_abs 1 (map (\<lambda>q. dec (unat q)) (rev ps) @ [[120]])) \<and>
     (\<exists>ctx. same_config (sample_node 2) ctx \<and>
        node_step (sample_node 2) port' m' = broker_request_sendmsg ctx m' ERROR_MODE_RESPOND \<and>
        broker_request_route ctx m' = (ctx, broker_service_send ctx m'))"
  using request_reaches_rank [where recv = "(#)" and send = sample_send and net = sample_node
      and k = 2 and sz = 3 and r = 1 and n = 2 and m = "sample_trip 1 [[120]]" and a = "sample_trip_abs 1 [[120]]"
      and rs = "[[120]]"] sample_node_ok sample_trip_represents [of "[[120]]" 1]
  by (simp add: kary_fits_def request_for_def sample_trip_abs_def sample_trip_fields_def sample_fields_def
      has_flag_def msgtype_consts FLUX_NODEID_ANY_def FLUX_NODEID_UPSTREAM_def)

text \<open>C2: responses find their way back. A response that leaves the addressed rank with the route
  stack the request arrived with hops back to the rank the request came from, whatever directions
  the request took, and there it is delivered with the original route stack: to the broker's own
  handle when the stack is empty, to the module on top of the stack otherwise.\<close>

theorem response_returns_to_sender:
  fixes m :: "('j, 'v) flux_msg"
  assumes "\<And>u fs. recv u fs = u # fs" and "\<And>P u fs. P u \<Longrightarrow> send P (u # fs) = Some (u, fs)"
    and "\<And>q. q < sz \<Longrightarrow> node_ok k sz q (net q)" and "kary_fits k sz" and "n < sz" and "r < sz"
    and "leads k sz n r ps" and "pf_type (a_fields b) = FLUX_MSGTYPE_RESPONSE"
    and "represents m (b\<lparr>a_routes := Some (map (\<lambda>q. dec (unat q)) (rev ps) @ rs)\<rparr>)"
    and "rs = [] \<or> (\<exists>p. map_of (modhash (net r)) (hd rs) = Some p \<and> mod_uuid p = hd rs \<and> mod_sock p = ZOpen None)"
  shows "\<exists>port' m' m0. (hop recv send net)\<^sup>*\<^sup>* (n, FromSelf, m) (r, port', m') \<and>
    fst (snd (node_step (net r) port' m')) = (if rs = [] then [ToHandle m0] else [ToModule (hd rs) m0]) \<and>
    represents m0 (b\<lparr>a_routes := Some (tl rs)\<rparr>)"
proof -
  obtain port' m' where m': "(hop recv send net)\<^sup>*\<^sup>* (n, FromSelf, m) (r, port', m')" "carries port' m' b rs"
    using response_path [where recv = recv and send = send and net = net, OF assms(1-5,7,6,9,8)] by blast
  obtain ctx m0 where m0: "node_ok k sz r ctx" "same_config (net r) ctx"
    "node_step (net r) port' m' = broker_response_sendmsg ctx m0" "represents m0 (b\<lparr>a_routes := Some rs\<rparr>)"
    using response_node_step [OF m'(2) assms(8) assms(3) [OF assms(6)]] by blast
  show ?thesis
  proof (cases rs)
    case Nil
    then have "broker_response_sendmsg ctx m0 = (ctx, [ToHandle m0], Inr ())"
      using route_get_refines(2) [OF m0(4), of "[]"] by (simp add: broker_response_sendmsg_def)
    then show ?thesis using m'(1) m0(3,4) Nil
      by (intro exI [of _ port'] exI [of _ m'] exI [of _ m0]) simp
  next
    case (Cons u rs')
    obtain p where p: "map_of (modhash ctx) u = Some p" "mod_uuid p = u" "mod_sock p = ZOpen None"
      using assms(10) Cons m0(2) by (auto simp: same_config_def)
    have last: "flux_msg_get_route_last m0 = Inr (Some u)"
      using route_get_refines(2) [OF m0(4), of "u # rs'"] Cons by simp
    have "dec (unat q) \<noteq> u" for q :: uint32 using p(1) m0(1) by (auto simp: node_ok_def)
    moreover obtain m1 m2 where "flux_msg_copy m0 True = Inr m1" "flux_msg_pop_route m1 = Inr (m2, Some u)"
      "represents m2 (b\<lparr>a_routes := Some rs'\<rparr>)"
      using copy_represents [OF m0(4)] pop_route_refines(3) [of _ "b\<lparr>a_routes := Some rs\<rparr>" u rs'] Cons
      by fastforce
    moreover have "flux_msg_get_type m0 = Inr FLUX_MSGTYPE_RESPONSE"
      using identity_fields_refine(5) [OF m0(4)] assms(8) by simp
    ultimately have "broker_response_sendmsg ctx m0 = (ctx, [ToModule u m2], Inr ())"
      using last p
      by (auto simp: broker_response_sendmsg_def module_response_sendmsg_def module_sendmsg_def
          flux_msg_sendzsock_def msgtype_consts Let_def)
    then show ?thesis using m'(1) m0(3) Cons \<open>represents m2 (b\<lparr>a_routes := Some rs'\<rparr>)\<close>
      by (intro exI [of _ port'] exI [of _ m'] exI [of _ m2]) simp
  qed
qed

theorem response_returns_to_sender_witness:
  "\<exists>port' m' m0. (hop (#) sample_send sample_node)\<^sup>*\<^sup>*
       (2, FromSelf, sample_trip 2 [dec 0, dec 1, [120]]) (1, port', m') \<and>
     fst (snd (node_step (sample_node 1) port' m')) = [ToModule [120] m0] \<and>
     represents m0 (sample_trip_abs 2 [])"
  using response_returns_to_sender [where recv = "(#)" and send = sample_send and net = sample_node
      and k = 2 and sz = 3 and r = 1 and n = 2 and ps = "[1, 0]" and b = "sample_trip_abs 2 []" and rs = "[[120]]"
      and m = "sample_trip 2 [dec 0, dec 1, [120]]"]
    sample_node_ok sample_trip_represents [of "[dec 0, dec 1, [120]]" 2] sample_leads
  by (simp add: kary_fits_def sample_trip_abs_def sample_trip_fields_def sample_fields_def
      msgtype_consts sample_node_def sample_module_def dec_neq_Nil [symmetric])

end
