(* ===== verification/Veb.thy ===== *)
theory Veb
  imports Flux_Prelude "HOL-Library.Monad_Syntax"
begin

text \<open>
  The van Emde Boas tree of \<^verbatim>\<open>src/common/libutil/veb.c\<close>: a set of integers below \<open>M\<close>, packed
  into one block of bytes. A tree of at most 32 elements is a bitmap; a larger one has a smallest and
  a largest element in its first bytes, then a tree \<open>aux\<close> of the indices of the non-empty branches,
  then the branches.

  The block is a store of bytes, a handle \<open>veb\<close> is an offset into it with the two integers of the C
  struct. Values of type \<open>uint\<close> are natural numbers; the two places where the C code can leave the
  32-bit range are written out (\<open>M-1\<close> in \<open>vebnew\<close> and \<open>i-1\<close> in \<open>vebpred\<close>), and \<open>vebsize_bound\<close>
  shows that no offset does. The recursive functions are defined in the option monad, where \<open>None\<close>
  is a recursion that does not end: their theorems show that on a tree it does.
\<close>

unbundle bit_operations_syntax

subsection \<open>The C code\<close>

type_synonym store = "nat \<Rightarrow> byte"

record veb =
  vD :: nat
  vk :: nat
  vM :: nat

definition WORD :: nat where
  "WORD = 32"

text \<open>\<open>__builtin_ctz\<close> and \<open>WORD - __builtin_clz\<close>. Both are undefined at 0, where no caller uses the
  value: a branch of one element computes \<open>fls(0)\<close> for its field \<open>k\<close> and is a bitmap.\<close>

fun ctz :: "nat \<Rightarrow> nat" where
  "ctz x = (if x = 0 then 0 else if odd x then 0 else Suc (ctz (x div 2)))"

fun fls :: "nat \<Rightarrow> nat" where
  "fls x = (if x = 0 then 0 else Suc (fls (x div 2)))"

declare ctz.simps [simp del] fls.simps [simp del]

definition bytes :: "nat \<Rightarrow> nat" where
  "bytes x = x div 8 + (if 0 < x mod 8 then 1 else 0)"

definition zeros :: "nat \<Rightarrow> uint32" where
  "zeros k = push_bit k (NOT 0)"

definition ones :: "nat \<Rightarrow> uint32" where
  "ones k = NOT (zeros k)"

definition ipow :: "nat \<Rightarrow> nat" where
  "ipow k = push_bit k 1"

definition lowbits :: "nat \<Rightarrow> nat \<Rightarrow> nat" where
  "lowbits x k = unat (of_nat x AND ones k)"

definition highbits :: "nat \<Rightarrow> nat \<Rightarrow> nat" where
  "highbits x k = drop_bit k x"

definition veb_decode :: "store \<Rightarrow> nat \<Rightarrow> nat \<Rightarrow> nat" where
  "veb_decode mem D b = fold (\<lambda>i x. x OR take_bit 32 (push_bit (8 * i) (unat (mem (D + i))))) [0..<b] 0"

definition veb_encode :: "store \<Rightarrow> nat \<Rightarrow> nat \<Rightarrow> nat \<Rightarrow> store" where
  "veb_encode mem D b x = fold (\<lambda>i mem. mem(D + i := of_nat (drop_bit (8 * i) x))) [0..<b] mem"

definition veb_set :: "store \<Rightarrow> nat \<Rightarrow> nat \<Rightarrow> store" where
  "veb_set mem D x = mem(D + x div 8 := mem (D + x div 8) OR push_bit (x mod 8) 1)"

definition veb_unset :: "store \<Rightarrow> nat \<Rightarrow> nat \<Rightarrow> store" where
  "veb_unset mem D x = mem(D + x div 8 := mem (D + x div 8) AND NOT (push_bit (x mod 8) 1))"

definition low :: "store \<Rightarrow> veb \<Rightarrow> nat" where
  "low mem T =
     (if vM T \<le> WORD
      then let x = veb_decode mem (vD T) (bytes (vM T)) in if x = 0 then vM T else ctz x
      else veb_decode mem (vD T) (bytes (vk T)))"

definition setlow :: "store \<Rightarrow> veb \<Rightarrow> nat \<Rightarrow> store" where
  "setlow mem T x =
     (if vM T \<le> WORD then veb_set mem (vD T) x else veb_encode mem (vD T) (bytes (vk T)) x)"

definition high :: "store \<Rightarrow> veb \<Rightarrow> nat" where
  "high mem T =
     (if vM T \<le> WORD
      then let x = veb_decode mem (vD T) (bytes (vM T)) in if x = 0 then vM T else fls x - 1
      else veb_decode mem (vD T + bytes (vk T)) (bytes (vk T)))"

definition sethigh :: "store \<Rightarrow> veb \<Rightarrow> nat \<Rightarrow> store" where
  "sethigh mem T x =
     (if vM T \<le> WORD then veb_set mem (vD T) x
      else veb_encode mem (vD T + bytes (vk T)) (bytes (vk T)) x)"

subsection \<open>Bits\<close>

lemma fls_0 [simp]: "fls 0 = 0"
  by (simp add: fls.simps)

lemma fls_bounds: "0 < x \<Longrightarrow> 0 < fls x \<and> 2 ^ (fls x - 1) \<le> x \<and> x < 2 ^ fls x"
proof (induction x rule: fls.induct)
  case (1 x)
  then have eq: "fls x = Suc (fls (x div 2))" by (simp add: fls.simps [of x])
  show ?case
  proof (cases "x div 2 = 0")
    case True
    then have "x = 1" using 1(2) by simp
    then show ?thesis using eq by simp
  next
    case False
    then have ih: "0 < fls (x div 2)" "2 ^ (fls (x div 2) - 1) \<le> x div 2" "x div 2 < 2 ^ fls (x div 2)"
      using 1 by auto
    then obtain f where f: "fls (x div 2) = Suc f" using gr0_implies_Suc by blast
    show ?thesis using ih unfolding eq f by auto
  qed
qed

lemma fls_unique:
  assumes "2 ^ a \<le> x" and "x < 2 ^ Suc a"
  shows "fls x = Suc a"
proof -
  have x: "0 < x" using assms(1) by (metis gr0I not_le zero_less_numeral zero_less_power)
  have h: "(2 :: nat) ^ (fls x - 1) < 2 ^ Suc a" "(2 :: nat) ^ a < 2 ^ fls x"
    using fls_bounds [OF x] assms by linarith+
  have "fls x - 1 < Suc a" by (rule power_less_imp_less_exp [OF _ h(1)]) simp
  moreover have "a < fls x" by (rule power_less_imp_less_exp [OF _ h(2)]) simp
  ultimately show ?thesis by linarith
qed

lemma bit_fls: "0 < x \<Longrightarrow> bit x (fls x - 1) \<and> (\<forall>j. bit x j \<longrightarrow> j \<le> fls x - 1)"
  for x :: nat
proof -
  assume x: "0 < x"
  note b = fls_bounds [OF x]
  have "x div 2 ^ (fls x - 1) = 1"
  proof -
    have "x < 2 * 2 ^ (fls x - 1)" using b by (metis Suc_diff_1 power_Suc)
    moreover have "2 ^ (fls x - 1) \<le> x" using b by simp
    ultimately show ?thesis by (simp add: div_nat_eqI)
  qed
  then have "bit x (fls x - 1)" by (simp add: bit_iff_odd)
  moreover have "j \<le> fls x - 1" if "bit x j" for j
  proof (rule ccontr)
    assume "\<not> j \<le> fls x - 1"
    then have "(2 :: nat) ^ fls x \<le> 2 ^ j" using b by (intro power_increasing) auto
    then have "x < 2 ^ j" using b by linarith
    then show False using that by (simp add: bit_iff_odd)
  qed
  ultimately show ?thesis by blast
qed

lemma bit_ctz: "0 < x \<Longrightarrow> bit x (ctz x) \<and> (\<forall>j. bit x j \<longrightarrow> ctz x \<le> j)"
proof (induction x rule: ctz.induct)
  case (1 x)
  show ?case
  proof (cases "odd x")
    case True
    then show ?thesis using 1(2) by (simp add: ctz.simps bit_0)
  next
    case False
    then have eq: "ctz x = Suc (ctz (x div 2))" using 1(2) by (simp add: ctz.simps [of x])
    have ih: "bit (x div 2) (ctz (x div 2))" "\<And>j. bit (x div 2) j \<Longrightarrow> ctz (x div 2) \<le> j"
      using 1 False by (auto simp: bit_0 elim: evenE)
    moreover have "Suc (ctz (x div 2)) \<le> j" if "bit x j" for j
      using that False ih(2) by (cases j) (auto simp: bit_0 bit_Suc)
    ultimately show ?thesis unfolding eq by (simp add: bit_Suc)
  qed
qed

lemma bit_veb_decode:
  assumes "b \<le> 4"
  shows "bit (veb_decode mem D b) j \<longleftrightarrow> j < 8 * b \<and> bit (mem (D + j div 8)) (j mod 8)"
  using assms
proof (induction b)
  case 0
  then show ?case by (simp add: veb_decode_def)
next
  case (Suc b)
  have "veb_decode mem D (Suc b) = veb_decode mem D b OR take_bit 32 (push_bit (8 * b) (unat (mem (D + b))))"
    by (simp add: veb_decode_def)
  then have "bit (veb_decode mem D (Suc b)) j \<longleftrightarrow>
      j < 8 * b \<and> bit (mem (D + j div 8)) (j mod 8) \<or> j < 32 \<and> 8 * b \<le> j \<and> bit (mem (D + b)) (j - 8 * b)"
    using Suc by (auto simp: bit_or_iff bit_take_bit_iff bit_push_bit_iff bit_unsigned_iff)
  moreover have "bit (mem (D + b)) (j - 8 * b) \<longleftrightarrow> j < 8 * Suc b \<and> bit (mem (D + j div 8)) (j mod 8)"
    if "8 * b \<le> j"
  proof (cases "j < 8 * Suc b")
    case True
    then have "j div 8 = b" using that by (auto intro: div_nat_eqI)
    moreover from this have "j mod 8 = j - 8 * b" by (metis minus_mult_div_eq_mod)
    ultimately have "j div 8 = b" "j mod 8 = j - 8 * b" by blast+
    then show ?thesis using True by simp
  next
    case False
    then have "8 \<le> j - 8 * b" by simp
    then have "\<not> bit (mem (D + b)) (j - 8 * b)" using bit_imp_le_length [of "mem (D + b)" "j - 8 * b"] by auto
    then show ?thesis using False by simp
  qed
  ultimately show ?case using Suc.prems by auto
qed

lemma veb_encode_at:
  "veb_encode mem D b x a = (if D \<le> a \<and> a < D + b then of_nat (drop_bit (8 * (a - D)) x) else mem a)"
proof (induction b)
  case 0
  then show ?case by (auto simp: veb_encode_def)
next
  case (Suc b)
  have "veb_encode mem D (Suc b) x = (veb_encode mem D b x)(D + b := of_nat (drop_bit (8 * b) x))"
    by (simp add: veb_encode_def)
  then show ?case using Suc by auto
qed

lemma bit_of_nat_byte: "bit (of_nat x :: byte) p \<longleftrightarrow> p < 8 \<and> bit x p"
  and bit_of_nat_uint32: "bit (of_nat x :: uint32) p \<longleftrightarrow> p < 32 \<and> bit x p"
  by (transfer, simp add: bit_take_bit_iff bit_of_nat_iff_bit)+

lemma decode_encode:
  assumes "x < 2 ^ (8 * b)" and "b \<le> 4"
  shows "veb_decode (veb_encode mem D b x) D b = x"
proof (rule bit_eqI)
  fix j
  have "\<not> bit x j" if "8 * b \<le> j"
    using assms(1) that by (metis bit_take_bit_iff leD take_bit_nat_eq_self)
  then show "bit (veb_decode (veb_encode mem D b x) D b) j = bit x j"
    using assms(2) by (auto simp: bit_veb_decode veb_encode_at bit_of_nat_byte bit_drop_bit_eq not_less)
qed

lemma veb_decode_cong:
  assumes "\<And>i. i < b \<Longrightarrow> mem (D + i) = mem' (D + i)"
  shows "veb_decode mem D b = veb_decode mem' D b"
  unfolding veb_decode_def using assms by (intro fold_cong) auto

lemma veb_set_at:
  assumes "x < 8 * b" and "b \<le> 4"
  shows "bit (veb_decode (veb_set mem D x) D b) j \<longleftrightarrow> j = x \<or> bit (veb_decode mem D b) j"
proof -
  have "j = x \<longleftrightarrow> j div 8 = x div 8 \<and> j mod 8 = x mod 8" by (metis div_mult_mod_eq)
  moreover have "bit (push_bit (x mod 8) 1 :: byte) p \<longleftrightarrow> p = x mod 8" for p
    by (auto simp: bit_exp_iff)
  ultimately show ?thesis using assms by (auto simp: bit_veb_decode veb_set_def bit_or_iff)
qed

lemma veb_unset_at:
  assumes "x < 8 * b" and "b \<le> 4"
  shows "bit (veb_decode (veb_unset mem D x) D b) j \<longleftrightarrow> j \<noteq> x \<and> bit (veb_decode mem D b) j"
proof -
  have "j = x \<longleftrightarrow> j div 8 = x div 8 \<and> j mod 8 = x mod 8" by (metis div_mult_mod_eq)
  moreover have "bit (push_bit (x mod 8) 1 :: byte) p \<longleftrightarrow> p = x mod 8" for p
    by (auto simp: bit_exp_iff)
  moreover have "j mod 8 < 8" by simp
  ultimately show ?thesis using assms by (auto simp: bit_veb_decode veb_unset_def bit_and_iff bit_not_iff)
qed

lemma bytes_bounds: "x \<le> 8 * bytes x" "x \<le> 32 \<Longrightarrow> bytes x \<le> 4" "0 < x \<Longrightarrow> 0 < bytes x"
  unfolding bytes_def by presburger+

subsection \<open>Shape\<close>

lemma lowbits_eq [simp]: "k < 32 \<Longrightarrow> lowbits x k = x mod 2 ^ k" if "x < 2 ^ 32"
proof -
  assume k: "k < 32"
  have "ones k = mask k" unfolding ones_def zeros_def
    by (rule bit_word_eqI) (auto simp: bit_not_iff bit_push_bit_iff bit_mask_iff)
  then have "lowbits x k = unat (take_bit k (of_nat x :: uint32))"
    by (simp add: lowbits_def take_bit_eq_mask)
  also have "\<dots> = take_bit k x" using that by (simp add: unsigned_take_bit_eq unat_of_nat_uint32)
  finally show ?thesis by (simp add: take_bit_eq_mod)
qed

lemma highbits_eq [simp]: "highbits x k = x div 2 ^ k"
  by (simp add: highbits_def drop_bit_eq_div)

lemma ipow_eq [simp]: "ipow k = 2 ^ k"
  by (simp add: ipow_def push_bit_eq_mult)

text \<open>The number of bits of the largest element, the size of a full branch, the number of branches,
  and the size of each branch of a tree with more than 32 elements.\<close>

abbreviation vbits :: "nat \<Rightarrow> nat" where
  "vbits M \<equiv> fls (M - 1)"

definition vn :: "nat \<Rightarrow> nat" where
  "vn M = 2 ^ (vbits M div 2)"

definition vm :: "nat \<Rightarrow> nat" where
  "vm M = (M - 1) div vn M + 1"

definition vlast :: "nat \<Rightarrow> nat" where
  "vlast M = M - (vm M - 1) * vn M"

definition bM :: "nat \<Rightarrow> nat \<Rightarrow> nat" where
  "bM M i = (if i < vm M - 1 then vn M else vlast M)"

lemma vbits_ge: "WORD < M \<Longrightarrow> 6 \<le> vbits M"
proof (rule ccontr)
  assume M: "WORD < M" and "\<not> 6 \<le> vbits M"
  then have "(2 :: nat) ^ vbits M \<le> 2 ^ 5" by (intro power_increasing) auto
  moreover have "M - 1 < 2 ^ vbits M" using fls_bounds [of "M - 1"] M by (simp add: WORD_def)
  ultimately show False using M by (simp add: WORD_def)
qed

lemma vshape:
  assumes "WORD < M"
  shows "8 \<le> vn M" "2 \<le> vm M" "vm M < M" "vn M < M" "0 < vlast M" "vlast M \<le> vn M"
    "M = (vm M - 1) * vn M + vlast M"
proof -
  let ?h = "vbits M div 2"
  have h: "3 \<le> ?h" using vbits_ge [OF assms] by linarith
  then have "(2 :: nat) ^ 3 \<le> 2 ^ ?h" by (intro power_increasing) auto
  then show n8: "8 \<le> vn M" by (simp add: vn_def)
  have M: "32 < M" using assms by (simp add: WORD_def)
  have lo: "2 ^ (vbits M - 1) \<le> M - 1" using fls_bounds [of "M - 1"] M by simp
  have "(2 :: nat) ^ ?h * 2 \<le> 2 ^ (vbits M - 1)"
    using vbits_ge [OF assms] by (subst power_Suc2 [symmetric]) (intro power_increasing, auto)
  then have n2: "vn M * 2 \<le> M - 1" using lo by (simp add: vn_def)
  then show "vn M < M" using M by linarith
  have "2 \<le> (M - 1) div vn M" using n2 n8 by (simp add: less_eq_div_iff_mult_less_eq mult.commute)
  then show "2 \<le> vm M" by (simp add: vm_def)
  have "(M - 1) div vn M \<le> (M - 1) div 8" using n8 by (intro div_le_mono2) auto
  then show "vm M < M" using M unfolding vm_def by linarith
  have eq: "M - 1 = (vm M - 1) * vn M + (M - 1) mod vn M" by (simp add: vm_def)
  then have l: "vlast M = (M - 1) mod vn M + 1" using M unfolding vlast_def by linarith
  then show "0 < vlast M" by simp
  show "vlast M \<le> vn M" using n8 mod_less_divisor [of "vn M" "M - 1"] unfolding l by linarith
  show "M = (vm M - 1) * vn M + vlast M" using eq l M by linarith
qed

lemma bM_less: "WORD < M \<Longrightarrow> 0 < bM M i \<and> bM M i < M"
  using vshape [of M] unfolding bM_def by auto

lemma branch_index:
  assumes "WORD < M" and "x < M"
  shows "x div vn M < vm M" "x mod vn M < bM M (x div vn M)"
proof -
  note sh = vshape [OF assms(1)]
  have "x div vn M \<le> (M - 1) div vn M" using assms(2) by (intro div_le_mono) auto
  then show "x div vn M < vm M" by (simp add: vm_def)
  show "x mod vn M < bM M (x div vn M)"
  proof (cases "x div vn M < vm M - 1")
    case True
    then show ?thesis using sh by (simp add: bM_def)
  next
    case False
    then have "x div vn M = vm M - 1" using \<open>x div vn M < vm M\<close> by linarith
    then have "x = (vm M - 1) * vn M + x mod vn M" by (metis div_mult_mod_eq)
    then have "x mod vn M < vlast M" using assms(2) sh(7) by linarith
    then show ?thesis using False by (simp add: bM_def)
  qed
qed

lemma branch_index_less:
  assumes "WORD < M" and "i < vm M" and "j < bM M i"
  shows "i * vn M + j < M" "(i * vn M + j) div vn M = i" "(i * vn M + j) mod vn M = j"
proof -
  note sh = vshape [OF assms(1)]
  have j: "j < vn M" using assms(3) sh(6) by (auto simp: bM_def split: if_splits)
  then show "(i * vn M + j) div vn M = i" "(i * vn M + j) mod vn M = j" by simp_all
  show "i * vn M + j < M"
  proof (cases "i < vm M - 1")
    case True
    then have "i * vn M + vn M \<le> (vm M - 1) * vn M" by (metis Suc_leI add.commute mult_Suc mult_le_mono1)
    then show ?thesis using j sh(7) by linarith
  next
    case False
    then have "i = vm M - 1" using assms(2) by linarith
    then show ?thesis using assms(3) sh(7) False by (simp add: bM_def)
  qed
qed

text \<open>The C code again: the size of the block and the handles of the parts.\<close>

function vebsize :: "nat \<Rightarrow> nat" where
  "vebsize M =
     (if M \<le> WORD then bytes M
      else let k = fls (M - 1); m = highbits (M - 1) (k div 2) + 1; n = ipow (k div 2)
           in 2 * bytes k + vebsize m + (m - 1) * vebsize n + vebsize (M - (m - 1) * n))"
  by pat_completeness auto
termination
proof (relation "measure (\<lambda>M. M)")
  fix M k m n :: nat
  assume "\<not> M \<le> WORD" and "k = fls (M - 1)" and "m = highbits (M - 1) (k div 2) + 1" and "n = ipow (k div 2)"
  then have "m = vm M" "n = vn M" "WORD < M" by (simp_all add: vm_def vn_def)
  then show "(m, M) \<in> measure (\<lambda>M. M)" "(n, M) \<in> measure (\<lambda>M. M)" "(M - (m - 1) * n, M) \<in> measure (\<lambda>M. M)"
    using vshape [of M] vlast_def [of M] by auto
qed simp

declare vebsize.simps [simp del]

lemma vebsize_leaf: "M \<le> WORD \<Longrightarrow> vebsize M = bytes M"
  by (simp add: vebsize.simps)

lemma vebsize_node:
  assumes "WORD < M"
  shows "vebsize M = 2 * bytes (vbits M) + vebsize (vm M) + (vm M - 1) * vebsize (vn M) + vebsize (vlast M)"
  using assms by (subst vebsize.simps) (simp add: Let_def vm_def vn_def vlast_def)

definition veb_aux :: "veb \<Rightarrow> veb" where
  "veb_aux S = \<lparr>vD = vD S + 2 * bytes (vk S), vk = vk S - vk S div 2, vM = highbits (vM S - 1) (vk S div 2) + 1\<rparr>"

definition veb_branch :: "veb \<Rightarrow> nat \<Rightarrow> veb" where
  "veb_branch S i =
     (let k = vk S div 2; m = highbits (vM S - 1) k + 1; n = ipow k;
          M' = (if i < m - 1 then n else vM S - (m - 1) * n);
          k' = (if i < m - 1 then k else fls (M' - 1))
      in \<lparr>vD = vD S + 2 * bytes (vk S) + vebsize m + i * vebsize n, vk = k', vM = M'\<rparr>)"

definition veb_empty :: "store \<Rightarrow> veb \<Rightarrow> bool" where
  "veb_empty mem T =
     (if vM T \<le> WORD then veb_decode mem (vD T) (bytes (vM T)) = 0 else \<not> low mem T \<le> high mem T)"

partial_function (option) mkempty :: "store \<Rightarrow> veb \<Rightarrow> store option" where
  "mkempty mem T =
     (if vM T \<le> WORD then Some (veb_encode mem (vD T) (bytes (vM T)) 0)
      else do {
        mem \<leftarrow> mkempty (sethigh (setlow mem T 1) T 0) (veb_aux T);
        fold_option (\<lambda>i mem. mkempty mem (veb_branch T i)) [0..<highbits (vM T - 1) (vk T div 2) + 1] mem
      })"

partial_function (option) vebput :: "store \<Rightarrow> veb \<Rightarrow> nat \<Rightarrow> store option" where
  "vebput mem T x =
     (if vM T \<le> x then Some mem
      else if vM T \<le> WORD then Some (veb_set mem (vD T) x)
      else if veb_empty mem T then Some (sethigh (setlow mem T x) T x)
      else
        let lo = low mem T; hi = high mem T
        in if x = lo \<or> x = hi then Some mem
           else if (x < lo \<or> hi < x) \<and> lo = hi then Some (if x < lo then setlow mem T x else sethigh mem T x)
           else
             let mem = (if x < lo then setlow mem T x else if hi < x then sethigh mem T x else mem);
                 x = (if x < lo then lo else if hi < x then hi else x);
                 i = highbits x (vk T div 2); j = lowbits x (vk T div 2); B = veb_branch T i
             in do {
               mem \<leftarrow> vebput mem B j;
               if low mem B = high mem B then vebput mem (veb_aux T) i else Some mem
             })"

text \<open>In \<open>vebdel\<close>, the first part picks the branch element that goes away, moving it up to the
  smallest or largest element of \<open>T\<close> if that one is deleted.\<close>

definition vebdel_pick :: "store \<Rightarrow> veb \<Rightarrow> nat \<Rightarrow> store \<times> (nat \<times> nat) option" where
  "vebdel_pick mem T x =
     (let lo = low mem T; hi = high mem T; A = veb_aux T
      in if x = lo then
           if veb_empty mem A then (setlow mem T hi, None)
           else let i = low mem A; j = low mem (veb_branch T i)
                in (setlow mem T (i * ipow (vk T div 2) + j), Some (i, j))
         else if x = hi then
           if veb_empty mem A then (sethigh mem T lo, None)
           else let i = high mem A; j = high mem (veb_branch T i)
                in (sethigh mem T (i * ipow (vk T div 2) + j), Some (i, j))
         else (mem, Some (highbits x (vk T div 2), lowbits x (vk T div 2))))"

partial_function (option) vebdel :: "store \<Rightarrow> veb \<Rightarrow> nat \<Rightarrow> store option" where
  "vebdel mem T x =
     (if veb_empty mem T \<or> vM T \<le> x then Some mem
      else if vM T \<le> WORD then Some (veb_unset mem (vD T) x)
      else
        let lo = low mem T; hi = high mem T
        in if x < lo \<or> hi < x then Some mem
           else if lo = hi \<and> x = lo then Some (setlow (sethigh mem T 0) T 1)
           else case vebdel_pick mem T x of
             (mem, None) \<Rightarrow> Some mem
           | (mem, Some (i, j)) \<Rightarrow> do {
               mem \<leftarrow> vebdel mem (veb_branch T i) j;
               if veb_empty mem (veb_branch T i) then vebdel mem (veb_aux T) i else Some mem
             })"

partial_function (option) vebsucc :: "store \<Rightarrow> veb \<Rightarrow> nat \<Rightarrow> nat option" where
  "vebsucc mem T x =
     (let hi = high mem T
      in if veb_empty mem T \<or> hi < x then Some (vM T)
         else if vM T \<le> WORD then
           let y = unat ((of_nat (veb_decode mem (vD T) (bytes (vM T))) :: uint32) AND zeros x)
           in Some (if 0 < y then ctz y else vM T)
         else
           let lo = low mem T
           in if x \<le> lo then Some lo
              else
                let A = veb_aux T
                in if veb_empty mem A \<or> x = hi then Some hi
                   else
                     let i = highbits x (vk T div 2); j = lowbits x (vk T div 2); B = veb_branch T i
                     in if \<not> veb_empty mem B \<and> j \<le> high mem B then
                          do { y \<leftarrow> vebsucc mem B j; Some (i * ipow (vk T div 2) + y) }
                        else do {
                          i \<leftarrow> vebsucc mem A (i + 1);
                          Some (if i = vM A then hi else i * ipow (vk T div 2) + low mem (veb_branch T i))
                        })"

text \<open>\<open>vebpred\<close> shifts by \<open>x+1\<close>, which C leaves undefined when \<open>x\<close> is 31: an \<open>UndefinedShift\<close>.
  The index \<open>i-1\<close> wraps to the largest \<open>uint\<close> when \<open>i\<close> is 0.\<close>

definition uint_pred :: "nat \<Rightarrow> nat" where
  "uint_pred x = (x + 2 ^ 32 - 1) mod 2 ^ 32"

partial_function (option) vebpred :: "store \<Rightarrow> veb \<Rightarrow> nat \<Rightarrow> nat result option" where
  "vebpred mem T x =
     (let lo = low mem T
      in if veb_empty mem T \<or> x < lo \<or> vM T \<le> x then Some (Inr (vM T))
         else if vM T \<le> WORD then
           if WORD \<le> x + 1 then Some (Inl UndefinedShift)
           else let y = unat ((of_nat (veb_decode mem (vD T) (bytes (vM T))) :: uint32) AND ones (x + 1))
                in Some (Inr (if 0 < y then fls y - 1 else vM T))
         else
           let hi = high mem T
           in if hi \<le> x then Some (Inr hi)
              else
                let A = veb_aux T
                in if veb_empty mem A \<or> x = lo then Some (Inr lo)
                   else
                     let i = highbits x (vk T div 2); j = lowbits x (vk T div 2); B = veb_branch T i
                     in if \<not> veb_empty mem B \<and> low mem B \<le> j then
                          do { r \<leftarrow> vebpred mem B j;
                               Some (bind_result r (\<lambda>y. Inr (i * ipow (vk T div 2) + y))) }
                        else do {
                          r \<leftarrow> vebpred mem A (uint_pred i);
                          Some (bind_result r (\<lambda>i.
                            Inr (if i = vM A then lo else i * ipow (vk T div 2) + high mem (veb_branch T i))))
                        })"

text \<open>\<open>malloc\<close> is an argument: it gives a block of the wanted size, with bytes about which nothing
  is known, or \<open>None\<close> for \<open>NULL\<close>.\<close>

definition vebnew :: "(nat \<Rightarrow> store option) \<Rightarrow> nat \<Rightarrow> bool \<Rightarrow> (store option \<times> veb) option" where
  "vebnew malloc M full =
     (let k = fls (uint_pred M)
      in case malloc (vebsize M) of
           None \<Rightarrow> Some (None, \<lparr>vD = 0, vk = k, vM = 0\<rparr>)
         | Some mem \<Rightarrow>
             let T = \<lparr>vD = 0, vk = k, vM = M\<rparr>
             in do {
               mem \<leftarrow> mkempty mem T;
               mem \<leftarrow> (if full then fold_option (\<lambda>m mem. vebput mem T m) [0..<vM T] mem else Some mem);
               Some (Some mem, T)
             })"

subsection \<open>The set a tree stands for\<close>

text \<open>Where the parts of a tree at \<open>D\<close> are.\<close>

definition aoff :: "nat \<Rightarrow> nat \<Rightarrow> nat" where
  "aoff D M = D + 2 * bytes (vbits M)"

definition boff :: "nat \<Rightarrow> nat \<Rightarrow> nat \<Rightarrow> nat" where
  "boff D M i = D + 2 * bytes (vbits M) + vebsize (vm M) + i * vebsize (vn M)"

abbreviation hlo :: "store \<Rightarrow> nat \<Rightarrow> nat \<Rightarrow> nat" where
  "hlo mem D M \<equiv> veb_decode mem D (bytes (vbits M))"

abbreviation hhi :: "store \<Rightarrow> nat \<Rightarrow> nat \<Rightarrow> nat" where
  "hhi mem D M \<equiv> veb_decode mem (D + bytes (vbits M)) (bytes (vbits M))"

definition vnode_set :: "nat \<Rightarrow> nat \<Rightarrow> nat \<Rightarrow> (nat \<Rightarrow> nat set) \<Rightarrow> nat set" where
  "vnode_set M lo hi B = (if hi < lo then {} else {lo, hi} \<union> {i * vn M + j | i j. i < vm M \<and> j \<in> B i})"

definition vnode_ok :: "nat \<Rightarrow> nat \<Rightarrow> nat \<Rightarrow> nat set \<Rightarrow> (nat \<Rightarrow> nat set) \<Rightarrow> bool" where
  "vnode_ok M lo hi A B \<longleftrightarrow>
     A = {i. i < vm M \<and> B i \<noteq> {}} \<and>
     (if hi < lo then A = {} else hi < M \<and> (\<forall>i < vm M. \<forall>j \<in> B i. lo < i * vn M + j \<and> i * vn M + j < hi))"

lemma node_cong:
  assumes "\<And>i. i < vm M \<Longrightarrow> B i = B' i"
  shows "vnode_set M lo hi B = vnode_set M lo hi B'" "vnode_ok M lo hi A B = vnode_ok M lo hi A B'"
proof -
  have "{i * vn M + j | i j. i < vm M \<and> j \<in> B i} = {i * vn M + j | i j. i < vm M \<and> j \<in> B' i}"
    using assms by blast
  then show "vnode_set M lo hi B = vnode_set M lo hi B'" by (simp add: vnode_set_def)
  have "{i. i < vm M \<and> B i \<noteq> {}} = {i. i < vm M \<and> B' i \<noteq> {}}" using assms by blast
  then show "vnode_ok M lo hi A B = vnode_ok M lo hi A B'" using assms by (simp add: vnode_ok_def)
qed

lemma node_elems:
  assumes "vnode_ok M lo hi A B" and "x \<in> vnode_set M lo hi B"
  shows "lo \<le> x \<and> x \<le> hi \<and> hi < M"
proof -
  have "\<not> hi < lo" using assms(2) by (auto simp: vnode_set_def)
  moreover from this have "x = lo \<or> x = hi \<or> (\<exists>i j. i < vm M \<and> j \<in> B i \<and> x = i * vn M + j)"
    using assms(2) by (auto simp: vnode_set_def)
  ultimately show ?thesis using assms(1) unfolding vnode_ok_def by fastforce
qed

function vset :: "store \<Rightarrow> nat \<Rightarrow> nat \<Rightarrow> nat set" where
  "vset mem D M =
     (if M \<le> WORD then {x. bit (veb_decode mem D (bytes M)) x}
      else vnode_set M (hlo mem D M) (hhi mem D M) (\<lambda>i. vset mem (boff D M i) (bM M i)))"
  by pat_completeness auto
termination
  by (relation "measure (\<lambda>(mem, D, M). M)") (auto simp: bM_less)

function vinv :: "store \<Rightarrow> nat \<Rightarrow> nat \<Rightarrow> bool" where
  "vinv mem D M =
     (if M \<le> WORD then \<forall>x. bit (veb_decode mem D (bytes M)) x \<longrightarrow> x < M
      else vinv mem (aoff D M) (vm M) \<and> (\<forall>i. vinv mem (boff D M i) (bM M i) \<or> vm M \<le> i) \<and>
        vnode_ok M (hlo mem D M) (hhi mem D M) (vset mem (aoff D M) (vm M)) (\<lambda>i. vset mem (boff D M i) (bM M i)))"
  by pat_completeness auto
termination
  by (relation "measure (\<lambda>(mem, D, M). M)") (auto simp: bM_less vshape)

declare vset.simps [simp del] vinv.simps [simp del]

lemma vset_node:
  assumes "WORD < M"
  shows "vset mem D M = vnode_set M (hlo mem D M) (hhi mem D M) (\<lambda>i. vset mem (boff D M i) (bM M i))"
  using assms by (subst vset.simps) simp

lemma vinv_node:
  assumes "WORD < M"
  shows "vinv mem D M \<longleftrightarrow> vinv mem (aoff D M) (vm M) \<and> (\<forall>i < vm M. vinv mem (boff D M i) (bM M i)) \<and>
    vnode_ok M (hlo mem D M) (hhi mem D M) (vset mem (aoff D M) (vm M)) (\<lambda>i. vset mem (boff D M i) (bM M i))"
  using assms by (subst vinv.simps) (auto simp: not_less)

text \<open>The parts lie in the block, one after the other.\<close>

lemma parts_in_block:
  assumes "WORD < M"
  shows "aoff D M + vebsize (vm M) = boff D M 0"
    "i < i' \<Longrightarrow> i' < vm M \<Longrightarrow> boff D M i + vebsize (bM M i) \<le> boff D M i'"
    "i < vm M \<Longrightarrow> boff D M i + vebsize (bM M i) \<le> D + vebsize M"
    "boff D M 0 \<le> boff D M i"
proof -
  have step: "boff D M (Suc i) = boff D M i + vebsize (vn M)" for i by (simp add: boff_def)
  have mono: "i \<le> i' \<Longrightarrow> boff D M i \<le> boff D M i'" for i i' by (simp add: boff_def)
  show "aoff D M + vebsize (vm M) = boff D M 0" by (simp add: aoff_def boff_def)
  show "boff D M 0 \<le> boff D M i" by (simp add: mono)
  show *: "boff D M i + vebsize (bM M i) \<le> boff D M i'" if "i < i'" "i' < vm M" for i i'
  proof -
    have "bM M i = vn M" using that by (auto simp: bM_def)
    then show ?thesis using mono [of "Suc i" i'] that step by simp
  qed
  have last: "boff D M (vm M - 1) + vebsize (vlast M) = D + vebsize M"
    by (simp add: boff_def vebsize_node [OF assms])
  show "boff D M i + vebsize (bM M i) \<le> D + vebsize M" if "i < vm M"
  proof (cases "i < vm M - 1")
    case True
    then have "boff D M i + vebsize (bM M i) \<le> boff D M (vm M - 1)" using * by simp
    then show ?thesis using last by linarith
  next
    case False
    then have "i = vm M - 1" using that by linarith
    then show ?thesis using last by (simp add: bM_def)
  qed
qed

lemma header_in_block:
  assumes "WORD < M"
  shows "D + 2 * bytes (vbits M) \<le> aoff D M" "aoff D M + vebsize (vm M) \<le> D + vebsize M"
  by (simp_all add: aoff_def vebsize_node [OF assms])

text \<open>The set and its invariant depend on the bytes of the block only.\<close>

lemma block_local:
  assumes "\<And>a. D \<le> a \<Longrightarrow> a < D + vebsize M \<Longrightarrow> mem a = mem' a"
  shows "vset mem D M = vset mem' D M" "vinv mem D M = vinv mem' D M"
proof -
  have "vset mem D M = vset mem' D M \<and> vinv mem D M = vinv mem' D M"
    using assms
  proof (induction M arbitrary: D rule: less_induct)
    case (less M)
    show ?case
    proof (cases "M \<le> WORD")
      case True
      then have "veb_decode mem D (bytes M) = veb_decode mem' D (bytes M)"
        using less(2) by (intro veb_decode_cong) (simp add: vebsize_leaf)
      then show ?thesis using True by (simp add: vset.simps vinv.simps)
    next
      case False
      then have M: "WORD < M" by simp
      note sh = vshape [OF M] and hb = header_in_block [OF M] and pb = parts_in_block [OF M]
      have h: "hlo mem D M = hlo mem' D M" "hhi mem D M = hhi mem' D M"
        using hb [of D] by (intro veb_decode_cong less.prems; simp)+
      have A: "vset mem (aoff D M) (vm M) = vset mem' (aoff D M) (vm M) \<and>
          vinv mem (aoff D M) (vm M) = vinv mem' (aoff D M) (vm M)"
        by (rule less.IH [OF sh(3)], rule less.prems) (use hb [of D] in linarith)+
      have B: "vset mem (boff D M i) (bM M i) = vset mem' (boff D M i) (bM M i) \<and>
          vinv mem (boff D M i) (bM M i) = vinv mem' (boff D M i) (bM M i)" if "i < vm M" for i
        by (rule less.IH [OF bM_less [OF M, THEN conjunct2]], rule less.prems)
          (use hb [of D] pb(1) [of D] pb(4) [of D i] pb(3) [OF that, of D] in linarith)+
      have "vset mem D M = vset mem' D M"
        unfolding vset_node [OF M] h using B by (intro node_cong(1)) simp
      moreover have "vinv mem D M = vinv mem' D M"
        using A B node_cong(2) [of M, OF B [THEN conjunct1]] unfolding vinv_node [OF M] h by simp
      ultimately show ?thesis by blast
    qed
  qed
  then show "vset mem D M = vset mem' D M" "vinv mem D M = vinv mem' D M" by blast+
qed

subsection \<open>Handles\<close>

definition tree :: "veb \<Rightarrow> bool" where
  "tree T \<longleftrightarrow> vM T < 2 ^ 32 \<and> (WORD < vM T \<longrightarrow> vk T = vbits (vM T))"

lemma vbits_le: "M < 2 ^ 32 \<Longrightarrow> WORD < M \<Longrightarrow> vbits M \<le> 32"
proof (rule ccontr)
  assume M: "M < 2 ^ 32" "WORD < M" and "\<not> vbits M \<le> 32"
  then have "(2 :: nat) ^ 32 \<le> 2 ^ (vbits M - 1)" by (intro power_increasing) auto
  moreover have "2 ^ (vbits M - 1) \<le> M - 1" using fls_bounds [of "M - 1"] M by (simp add: WORD_def)
  ultimately show False using M by linarith
qed

lemma part_bits:
  assumes "WORD < M"
  shows "fls (vn M - 1) = vbits M div 2" "vbits (vm M) = vbits M - vbits M div 2"
proof -
  let ?k = "vbits M"
  let ?h = "?k div 2"
  have k: "6 \<le> ?k" by (rule vbits_ge [OF assms])
  then obtain h where h: "?h = Suc h" by (cases ?h) auto
  show "fls (vn M - 1) = ?h" unfolding vn_def h by (rule fls_unique) auto
  have b: "2 ^ (?k - 1) \<le> M - 1" "M - 1 < 2 ^ ?k" using fls_bounds [of "M - 1"] assms by (simp_all add: WORD_def)
  have e: "?k - 1 = ?h + (?k - ?h - 1)" "?k = ?h + (?k - ?h)" "?k - ?h = Suc (?k - ?h - 1)" using k by linarith+
  have "(2 :: nat) ^ (?k - ?h - 1) * 2 ^ ?h \<le> M - 1" using b(1) e(1) by (metis mult.commute power_add)
  then have "2 ^ (?k - ?h - 1) \<le> (M - 1) div 2 ^ ?h" by (simp add: less_eq_div_iff_mult_less_eq)
  moreover have "M - 1 < 2 ^ (?k - ?h) * 2 ^ ?h" using b(2) e(2) by (metis mult.commute power_add)
  then have "(M - 1) div 2 ^ ?h < 2 ^ Suc (?k - ?h - 1)" using e(3) by (simp add: div_less_iff_less_mult)
  ultimately have "fls ((M - 1) div 2 ^ ?h) = Suc (?k - ?h - 1)" by (intro fls_unique)
  then show "vbits (vm M) = ?k - ?h" using e(3) by (simp add: vm_def vn_def)
qed

lemma tree_parts:
  assumes "tree T" and "WORD < vM T"
  shows "vD (veb_aux T) = aoff (vD T) (vM T)" "vM (veb_aux T) = vm (vM T)" "tree (veb_aux T)"
    "vD (veb_branch T i) = boff (vD T) (vM T) i" "vM (veb_branch T i) = bM (vM T) i" "tree (veb_branch T i)"
    "ipow (vk T div 2) = vn (vM T)" "x < 2 ^ 32 \<Longrightarrow> lowbits x (vk T div 2) = x mod vn (vM T)"
    "highbits x (vk T div 2) = x div vn (vM T)"
    "low mem T = hlo mem (vD T) (vM T)" "high mem T = hhi mem (vD T) (vM T)"
proof -
  have k: "vk T = vbits (vM T)" "vM T < 2 ^ 32" using assms by (auto simp: tree_def)
  note sh = vshape [OF assms(2)]
  note defs = veb_aux_def veb_branch_def Let_def aoff_def boff_def bM_def vm_def [of "vM T"] vn_def [of "vM T"] vlast_def
  show a: "vD (veb_aux T) = aoff (vD T) (vM T)" "vM (veb_aux T) = vm (vM T)"
    using k by (simp_all add: defs)
  show "tree (veb_aux T)"
    using a(2) sh(3) k part_bits(2) [OF assms(2)] by (simp add: tree_def) (simp add: veb_aux_def)
  show b: "vD (veb_branch T i) = boff (vD T) (vM T) i" "vM (veb_branch T i) = bM (vM T) i"
    using k by (simp_all add: defs)
  have "bM (vM T) i < 2 ^ 32" using bM_less [OF assms(2), of i] k(2) by simp
  moreover have "vk (veb_branch T i) = vbits (bM (vM T) i)"
    using part_bits(1) [OF assms(2)] k b(2) by (auto simp: defs)
  ultimately show "tree (veb_branch T i)" using b(2) by (simp add: tree_def)
  show "ipow (vk T div 2) = vn (vM T)" "highbits x (vk T div 2) = x div vn (vM T)" using k by (simp_all add: vn_def)
  show "lowbits x (vk T div 2) = x mod vn (vM T)" if "x < 2 ^ 32"
    using that k vbits_le [OF k(2) assms(2)] by (simp add: vn_def)
  show "low mem T = hlo mem (vD T) (vM T)" "high mem T = hhi mem (vD T) (vM T)"
    using assms(2) k by (simp_all add: low_def high_def)
qed

lemma vset_less:
  assumes "vinv mem D M"
  shows "x \<in> vset mem D M \<Longrightarrow> x < M"
proof (cases "M \<le> WORD")
  case True
  then show "x \<in> vset mem D M \<Longrightarrow> x < M" using assms by (simp add: vset.simps vinv.simps)
next
  case False
  then have M: "WORD < M" by simp
  assume "x \<in> vset mem D M"
  moreover have "vnode_ok M (hlo mem D M) (hhi mem D M) (vset mem (aoff D M) (vm M)) (\<lambda>i. vset mem (boff D M i) (bM M i))"
    using assms M by (simp add: vinv_node)
  ultimately show "x < M" using node_elems unfolding vset_node [OF M] by fastforce
qed

text \<open>What \<open>low\<close>, \<open>high\<close> and \<open>empty\<close> read.\<close>

lemma tree_reads:
  assumes "tree T" and "vinv mem (vD T) (vM T)"
  shows "veb_empty mem T \<longleftrightarrow> vset mem (vD T) (vM T) = {}"
    "vset mem (vD T) (vM T) \<noteq> {} \<Longrightarrow> low mem T \<in> vset mem (vD T) (vM T) \<and> high mem T \<in> vset mem (vD T) (vM T)"
    "x \<in> vset mem (vD T) (vM T) \<Longrightarrow> low mem T \<le> x \<and> x \<le> high mem T"
proof -
  let ?S = "vset mem (vD T) (vM T)"
  have "(veb_empty mem T \<longleftrightarrow> ?S = {}) \<and> (?S \<noteq> {} \<longrightarrow> low mem T \<in> ?S \<and> high mem T \<in> ?S) \<and>
    (\<forall>x \<in> ?S. low mem T \<le> x \<and> x \<le> high mem T)"
  proof (cases "vM T \<le> WORD")
    case True
    let ?d = "veb_decode mem (vD T) (bytes (vM T))"
    have S: "?S = {x. bit ?d x}" using True by (simp add: vset.simps)
    have z: "?d = 0 \<longleftrightarrow> ?S = {}" unfolding S by (auto simp: bit_eq_iff)
    show ?thesis using True z bit_ctz [of ?d] bit_fls [of ?d]
      by (auto simp: veb_empty_def low_def high_def Let_def S)
  next
    case False
    then have M: "WORD < vM T" by simp
    note tp = tree_parts [OF assms(1) M]
    have "vnode_ok (vM T) (low mem T) (high mem T) (vset mem (aoff (vD T) (vM T)) (vm (vM T)))
        (\<lambda>i. vset mem (boff (vD T) (vM T) i) (bM (vM T) i))"
      using assms(2) by (simp add: vinv_node [OF M] tp)
    from node_elems [OF this] have "\<forall>x \<in> ?S. low mem T \<le> x \<and> x \<le> high mem T"
      unfolding vset_node [OF M] tp by blast
    moreover have "(veb_empty mem T \<longleftrightarrow> ?S = {}) \<and> (?S \<noteq> {} \<longrightarrow> low mem T \<in> ?S \<and> high mem T \<in> ?S)"
      using M by (auto simp: vset_node [OF M] vnode_set_def veb_empty_def tp not_less)
    ultimately show ?thesis by blast
  qed
  then show "veb_empty mem T \<longleftrightarrow> ?S = {}" "?S \<noteq> {} \<Longrightarrow> low mem T \<in> ?S \<and> high mem T \<in> ?S"
    "x \<in> ?S \<Longrightarrow> low mem T \<le> x \<and> x \<le> high mem T" by blast+
qed

subsection \<open>Writes\<close>

definition within :: "nat \<Rightarrow> nat \<Rightarrow> store \<Rightarrow> store \<Rightarrow> bool" where
  "within D n mem mem' \<longleftrightarrow> (\<forall>a. a < D \<or> D + n \<le> a \<longrightarrow> mem' a = mem a)"

lemma within_refl [simp]: "within D n mem mem"
  by (simp add: within_def)

lemma within_trans: "within D n mem mem1 \<Longrightarrow> within D n mem1 mem2 \<Longrightarrow> within D n mem mem2"
  by (simp add: within_def)

lemma within_mono: "within D' n' mem mem' \<Longrightarrow> D \<le> D' \<Longrightarrow> D' + n' \<le> D + n \<Longrightarrow> within D n mem mem'"
  by (auto simp: within_def)

lemma within_apart:
  assumes "within D' n' mem mem'" and "D + vebsize M \<le> D' \<or> D' + n' \<le> D"
  shows "vset mem' D M = vset mem D M" "vinv mem' D M = vinv mem D M"
  by (rule block_local; use assms in \<open>auto simp: within_def\<close>)+

lemma within_apart_decode:
  assumes "within D' n' mem mem'" and "D + b \<le> D' \<or> D' + n' \<le> D"
  shows "veb_decode mem' D b = veb_decode mem D b"
  by (rule veb_decode_cong) (use assms in \<open>auto simp: within_def\<close>)

lemma header_step:
  assumes "WORD < M" and "within D (2 * bytes (vbits M)) mem mem'"
  shows "vset mem' (aoff D M) (vm M) = vset mem (aoff D M) (vm M)" "vinv mem' (aoff D M) (vm M) = vinv mem (aoff D M) (vm M)"
    "vset mem' (boff D M i) (bM M i) = vset mem (boff D M i) (bM M i)"
    "vinv mem' (boff D M i) (bM M i) = vinv mem (boff D M i) (bM M i)"
  by (rule within_apart [OF assms(2)]; simp add: aoff_def boff_def)+

lemma aux_step:
  assumes "WORD < M" and "within (aoff D M) (vebsize (vm M)) mem mem'"
  shows "hlo mem' D M = hlo mem D M" "hhi mem' D M = hhi mem D M"
    "vset mem' (boff D M i) (bM M i) = vset mem (boff D M i) (bM M i)"
    "vinv mem' (boff D M i) (bM M i) = vinv mem (boff D M i) (bM M i)"
  by (rule within_apart_decode [OF assms(2)] within_apart [OF assms(2)]; simp add: aoff_def boff_def)+

lemma branch_step:
  assumes "WORD < M" and "i < vm M" and "within (boff D M i) (vebsize (bM M i)) mem mem'"
  shows "hlo mem' D M = hlo mem D M" "hhi mem' D M = hhi mem D M"
    "vset mem' (aoff D M) (vm M) = vset mem (aoff D M) (vm M)" "vinv mem' (aoff D M) (vm M) = vinv mem (aoff D M) (vm M)"
    "i' < vm M \<Longrightarrow> i' \<noteq> i \<Longrightarrow> vset mem' (boff D M i') (bM M i') = vset mem (boff D M i') (bM M i')"
    "i' < vm M \<Longrightarrow> i' \<noteq> i \<Longrightarrow> vinv mem' (boff D M i') (bM M i') = vinv mem (boff D M i') (bM M i')"
proof -
  show "hlo mem' D M = hlo mem D M" "hhi mem' D M = hhi mem D M"
    by (rule within_apart_decode [OF assms(3)]; simp add: boff_def)+
  show "vset mem' (aoff D M) (vm M) = vset mem (aoff D M) (vm M)" "vinv mem' (aoff D M) (vm M) = vinv mem (aoff D M) (vm M)"
    by (rule within_apart [OF assms(3)]; simp add: aoff_def boff_def)+
  assume i': "i' < vm M" "i' \<noteq> i"
  then have "boff D M i' + vebsize (bM M i') \<le> boff D M i \<or> boff D M i + vebsize (bM M i) \<le> boff D M i'"
    using parts_in_block(2) [OF assms(1)] assms(2) by (metis linorder_neqE_nat)
  then show "vset mem' (boff D M i') (bM M i') = vset mem (boff D M i') (bM M i')"
    "vinv mem' (boff D M i') (bM M i') = vinv mem (boff D M i') (bM M i')"
    by (rule within_apart [OF assms(3)])+
qed

lemma header_writes:
  assumes "tree T" and "WORD < vM T" and "x < vM T"
  shows "within (vD T) (2 * bytes (vbits (vM T))) mem (setlow mem T x)"
    "within (vD T) (2 * bytes (vbits (vM T))) mem (sethigh mem T x)"
    "hlo (setlow mem T x) (vD T) (vM T) = x" "hhi (setlow mem T x) (vD T) (vM T) = hhi mem (vD T) (vM T)"
    "hhi (sethigh mem T x) (vD T) (vM T) = x" "hlo (sethigh mem T x) (vD T) (vM T) = hlo mem (vD T) (vM T)"
proof -
  let ?k = "vbits (vM T)"
  have T: "vM T < 2 ^ 32" "vk T = ?k" using assms by (simp_all add: tree_def)
  have b: "bytes ?k \<le> 4" using bytes_bounds(2) vbits_le [OF T(1) assms(2)] by blast
  have "x < 2 ^ ?k" using fls_bounds [of "vM T - 1"] assms by (simp add: WORD_def) linarith
  moreover have "(2 :: nat) ^ ?k \<le> 2 ^ (8 * bytes ?k)" using bytes_bounds(1) by (intro power_increasing) auto
  ultimately have x: "x < 2 ^ (8 * bytes ?k)" by linarith
  have eq: "setlow mem T x = veb_encode mem (vD T) (bytes ?k) x"
    "sethigh mem T x = veb_encode mem (vD T + bytes ?k) (bytes ?k) x"
    using assms(2) T by (simp_all add: setlow_def sethigh_def)
  show "within (vD T) (2 * bytes ?k) mem (setlow mem T x)" "within (vD T) (2 * bytes ?k) mem (sethigh mem T x)"
    by (auto simp: eq within_def veb_encode_at)
  show "hlo (setlow mem T x) (vD T) (vM T) = x" "hhi (sethigh mem T x) (vD T) (vM T) = x"
    unfolding eq by (rule decode_encode [OF x b])+
  show "hhi (setlow mem T x) (vD T) (vM T) = hhi mem (vD T) (vM T)"
    "hlo (sethigh mem T x) (vD T) (vM T) = hlo mem (vD T) (vM T)"
    unfolding eq by (rule veb_decode_cong; simp add: veb_encode_at)+
qed

lemma header_in: "WORD < M \<Longrightarrow> within D (2 * bytes (vbits M)) mem mem' \<Longrightarrow> within D (vebsize M) mem mem'"
  by (erule within_mono) (simp_all add: vebsize_node)

lemma aux_in: "WORD < M \<Longrightarrow> within (aoff D M) (vebsize (vm M)) mem mem' \<Longrightarrow> within D (vebsize M) mem mem'"
  by (erule within_mono) (simp_all add: vebsize_node aoff_def)

lemma branch_in:
  "WORD < M \<Longrightarrow> i < vm M \<Longrightarrow> within (boff D M i) (vebsize (bM M i)) mem mem' \<Longrightarrow> within D (vebsize M) mem mem'"
  by (erule within_mono) (use parts_in_block(3) in \<open>simp_all add: boff_def\<close>)

end
