(* ===== verification/Veb_Ops.thy ===== *)
theory Veb_Ops
  imports Veb
begin

text \<open>
  The operations of the van Emde Boas tree: \<open>vebput\<close>, \<open>vebdel\<close>, \<open>vebsucc\<close> and \<open>vebpred\<close>. For each, a
  lemma by induction on the size of the universe shows that on a tree it ends, what it does to the
  set (\<open>put_ok_all\<close>, \<open>del_ok_all\<close>) or finds in it (\<open>succ_ok_all\<close>, \<open>pred_ok_all\<close>), that it keeps the
  invariant, and that it writes inside of the block of the tree only.
\<close>

subsection \<open>Insertion\<close>

lemma node_insert:
  assumes "WORD < M" and "A = {i. i < vm M \<and> B i \<noteq> {}}" and "\<And>i j. i < vm M \<Longrightarrow> j \<in> B i \<Longrightarrow> lo < i * vn M + j \<and> i * vn M + j < hi"
    and "lo < y" and "y < hi" and "hi < M"
    and "\<And>i. i < vm M \<Longrightarrow> i \<noteq> y div vn M \<Longrightarrow> B' i = B i" and "B' (y div vn M) = insert (y mod vn M) (B (y div vn M))"
  shows "vnode_ok M lo hi (insert (y div vn M) A) B'" "vnode_set M lo hi B' = insert y (vnode_set M lo hi B)"
proof -
  let ?i = "y div vn M"
  have i: "?i < vm M" using branch_index [OF assms(1), of y] assms(5,6) by simp
  have y: "?i * vn M + y mod vn M = y" by simp
  have el: "j \<in> B' i \<longleftrightarrow> i = ?i \<and> j = y mod vn M \<or> j \<in> B i" if "i < vm M" for i j
    using assms(7) [OF that] assms(8) by auto
  show "vnode_ok M lo hi (insert ?i A) B'"
  proof -
    have "insert ?i A = {i. i < vm M \<and> B' i \<noteq> {}}" unfolding assms(2) using el i by blast
    moreover have "lo < i * vn M + j \<and> i * vn M + j < hi" if "i < vm M" "j \<in> B' i" for i j
      using el [OF that(1)] that assms(3) [of i j] assms(4,5) y by metis
    ultimately show ?thesis unfolding vnode_ok_def using assms(4-6) by simp
  qed
  have "{i * vn M + j | i j. i < vm M \<and> j \<in> B' i} = insert y {i * vn M + j | i j. i < vm M \<and> j \<in> B i}"
    (is "?L = ?R")
  proof (rule set_eqI, rule iffI)
    fix z assume "z \<in> ?L"
    then obtain i j where "i < vm M" "j \<in> B' i" "z = i * vn M + j" by blast
    then show "z \<in> ?R" using el [of i j] y by auto
  next
    fix z assume "z \<in> ?R"
    then consider "z = y" | i j where "i < vm M" "j \<in> B i" "z = i * vn M + j" by blast
    then show "z \<in> ?L"
    proof cases
      case 1
      then have "z = ?i * vn M + y mod vn M" "y mod vn M \<in> B' ?i" using el [OF i] y by simp_all
      then show ?thesis using i by blast
    next
      case 2
      then show ?thesis using el by blast
    qed
  qed
  then show "vnode_set M lo hi B' = insert y (vnode_set M lo hi B)"
    using assms(4,5) by (simp add: vnode_set_def insert_commute)
qed

text \<open>The parts of a tree in memory: the set of \<open>aux\<close> and the sets of the branches.\<close>

abbreviation aset :: "store \<Rightarrow> nat \<Rightarrow> nat \<Rightarrow> nat set" where
  "aset mem D M \<equiv> vset mem (aoff D M) (vm M)"

abbreviation bset :: "store \<Rightarrow> nat \<Rightarrow> nat \<Rightarrow> nat \<Rightarrow> nat set" where
  "bset mem D M \<equiv> \<lambda>i. vset mem (boff D M i) (bM M i)"

lemma header_vinv:
  assumes "WORD < M" and "within D (2 * bytes (vbits M)) mem mem'" and "vinv mem D M"
    and "hlo mem' D M = lo" and "hhi mem' D M = hi" and "vnode_ok M lo hi (aset mem D M) (bset mem D M)"
  shows "vinv mem' D M" "vset mem' D M = vnode_set M lo hi (bset mem D M)" "within D (vebsize M) mem mem'"
  using assms(3-6) header_step [OF assms(1,2)] header_in [OF assms(1,2)]
  by (simp_all add: vinv_node [OF assms(1)] vset_node [OF assms(1)])

text \<open>The tree after a write: the invariant, the new set, and which bytes changed.\<close>

definition wrote :: "veb \<Rightarrow> store \<Rightarrow> nat set \<Rightarrow> store \<Rightarrow> bool" where
  "wrote T mem S mem' \<longleftrightarrow>
     vinv mem' (vD T) (vM T) \<and> vset mem' (vD T) (vM T) = S \<and> within (vD T) (vebsize (vM T)) mem mem'"

definition put_ok :: "nat \<Rightarrow> bool" where
  "put_ok M \<longleftrightarrow>
     (\<forall>T mem x. tree T \<and> vM T = M \<and> vinv mem (vD T) M \<and> x < M \<longrightarrow>
       (\<exists>mem'. vebput mem T x = Some mem' \<and> wrote T mem (insert x (vset mem (vD T) M)) mem'))"

lemma put_okD:
  assumes "put_ok (vM T)" and "tree T" and "vinv mem (vD T) (vM T)" and "x < vM T"
  obtains mem' where "vebput mem T x = Some mem'" "vinv mem' (vD T) (vM T)"
    "vset mem' (vD T) (vM T) = insert x (vset mem (vD T) (vM T))" "within (vD T) (vebsize (vM T)) mem mem'"
  using assms unfolding put_ok_def wrote_def by blast

lemma put_between:
  assumes D_eq: "vD T = D" and M_eq: "vM T = M" and "tree T" and "WORD < M" and "\<And>M'. M' < M \<Longrightarrow> put_ok M'" and "vinv mem D M"
    and "hlo mem D M < y" and "y < hhi mem D M" and "within D (vebsize M) mem0 mem"
  shows "\<exists>mem'. do {
      mem \<leftarrow> vebput mem (veb_branch T (y div vn M)) (y mod vn M);
      if low mem (veb_branch T (y div vn M)) = high mem (veb_branch T (y div vn M))
      then vebput mem (veb_aux T) (y div vn M) else Some mem
    } = Some mem' \<and> wrote T mem0 (insert y (vset mem D M)) mem'"
proof -
  let ?i = "y div vn M" and ?j = "y mod vn M"
  let ?B = "veb_branch T ?i"
  note M = assms(4) and iv = assms(6) [unfolded vinv_node [OF assms(4)]]
  have tp: "vD ?B = boff D M ?i" "vM ?B = bM M ?i" "tree ?B" "vD (veb_aux T) = aoff D M" "vM (veb_aux T) = vm M"
    "tree (veb_aux T)" using tree_parts [OF assms(3)] M by (simp_all add: D_eq M_eq)
  have hiM: "hhi mem D M < M" using iv assms(7,8) by (auto simp: vnode_ok_def)
  then have bi: "?i < vm M" "?j < bM M ?i" using branch_index [OF M] assms(8) by simp_all
  obtain mem1 where put1: "vebput mem ?B ?j = Some mem1" "vinv mem1 (boff D M ?i) (bM M ?i)"
    "bset mem1 D M ?i = insert ?j (bset mem D M ?i)" "within (boff D M ?i) (vebsize (bM M ?i)) mem mem1"
  proof (rule put_okD [of ?B mem ?j])
    show "put_ok (vM ?B)" using assms(5) bM_less [OF M] tp(2) by simp
  qed (use tp bi iv in simp_all)
  note b1 = branch_step [OF M bi(1) put1(4)]
  note reads = tree_reads [of ?B mem1, unfolded tp(1,2), OF tp(3) put1(2)]
  have eq: "low mem1 ?B = high mem1 ?B \<longleftrightarrow> bset mem1 D M ?i = {?j}"
    using reads(2,3) put1(3) by (metis antisym insertI1 insert_not_empty singletonD singletonI subsetI subset_singletonD)
  have "\<exists>mem2. (if low mem1 ?B = high mem1 ?B then vebput mem1 (veb_aux T) ?i else Some mem1) = Some mem2 \<and>
      vinv mem2 (aoff D M) (vm M) \<and> aset mem2 D M = insert ?i (aset mem D M) \<and>
      within (aoff D M) (vebsize (vm M)) mem1 mem2"
  proof (cases "low mem1 ?B = high mem1 ?B")
    case True
    obtain mem2 where "vebput mem1 (veb_aux T) ?i = Some mem2" "vinv mem2 (aoff D M) (vm M)"
      "aset mem2 D M = insert ?i (aset mem1 D M)" "within (aoff D M) (vebsize (vm M)) mem1 mem2"
    proof (rule put_okD [of "veb_aux T" mem1 ?i])
      show "put_ok (vM (veb_aux T))" using assms(5) vshape [OF M] tp(5) by simp
    qed (use tp bi iv b1 in simp_all)
    then show ?thesis using True b1 by simp
  next
    case False
    then have "bset mem D M ?i \<noteq> {}" using eq put1(3) by auto
    then have "?i \<in> aset mem D M" using iv bi by (simp add: vnode_ok_def)
    then show ?thesis using False b1 iv by (simp add: insert_absorb)
  qed
  then obtain mem2 where put2: "(if low mem1 ?B = high mem1 ?B then vebput mem1 (veb_aux T) ?i else Some mem1) = Some mem2"
    "vinv mem2 (aoff D M) (vm M)" "aset mem2 D M = insert ?i (aset mem D M)"
    "within (aoff D M) (vebsize (vm M)) mem1 mem2" by blast
  note a2 = aux_step [OF M put2(4)]
  have sets: "aset mem D M = {i. i < vm M \<and> bset mem D M i \<noteq> {}}"
    "\<And>i j. i < vm M \<Longrightarrow> j \<in> bset mem D M i \<Longrightarrow> hlo mem D M < i * vn M + j \<and> i * vn M + j < hhi mem D M"
    using iv assms(7,8) by (simp_all add: vnode_ok_def)
  have "\<And>i. i < vm M \<Longrightarrow> i \<noteq> ?i \<Longrightarrow> bset mem2 D M i = bset mem D M i"
    "bset mem2 D M ?i = insert ?j (bset mem D M ?i)" using a2 b1 put1(3) by simp_all
  note ins = node_insert [OF M sets assms(7,8) hiM this]
  have "vinv mem2 (boff D M i) (bM M i)" if "i < vm M" for i
    using a2 b1 put1(2) iv that by (cases "i = ?i") auto
  then have "vinv mem2 D M"
    unfolding vinv_node [OF M] a2(1,2) b1(1,2) put2(3) using ins(1) put2(2) by blast
  moreover have "vset mem2 D M = insert y (vset mem D M)"
    unfolding vset_node [OF M] a2(1,2) b1(1,2) by (rule ins(2))
  moreover have "within D (vebsize M) mem0 mem2"
    by (rule within_trans [OF assms(9) within_trans [OF branch_in [OF M bi(1) put1(4)] aux_in [OF M put2(4)]]])
  ultimately show ?thesis using put1(1) put2(1) by (simp add: wrote_def D_eq M_eq)
qed

lemma leaf_put:
  assumes "tree T" and "vM T \<le> WORD" and "vinv mem (vD T) (vM T)" and "x < vM T"
  shows "wrote T mem (insert x (vset mem (vD T) (vM T))) (veb_set mem (vD T) x)"
proof -
  let ?b = "bytes (vM T)"
  have b: "x < 8 * ?b" "?b \<le> 4" using bytes_bounds [of "vM T"] assms(2,4) by (simp_all add: WORD_def)
  then have "within (vD T) ?b mem (veb_set mem (vD T) x)" by (auto simp: within_def veb_set_def)
  then show ?thesis using assms veb_set_at [OF b, of mem "vD T"]
    by (auto simp: wrote_def vset.simps vinv.simps vebsize_leaf)
qed

text \<open>A new smallest or largest element: the old one is to go to its branch.\<close>

lemma node_widen:
  assumes "vnode_ok M lo hi A B" and "lo < hi"
  shows "x < lo \<Longrightarrow> vnode_ok M x hi A B \<and> insert lo (vnode_set M x hi B) = insert x (vnode_set M lo hi B)"
    "hi < x \<Longrightarrow> x < M \<Longrightarrow> vnode_ok M lo x A B \<and> insert hi (vnode_set M lo x B) = insert x (vnode_set M lo hi B)"
proof -
  have el: "\<And>i j. i < vm M \<Longrightarrow> j \<in> B i \<Longrightarrow> lo < i * vn M + j \<and> i * vn M + j < hi" and hi: "hi < M"
    and A: "A = {i. i < vm M \<and> B i \<noteq> {}}"
    using assms by (simp_all add: vnode_ok_def)
  show "vnode_ok M x hi A B \<and> insert lo (vnode_set M x hi B) = insert x (vnode_set M lo hi B)" if "x < lo"
    using that el hi A assms(2) unfolding vnode_ok_def vnode_set_def by fastforce
  show "vnode_ok M lo x A B \<and> insert hi (vnode_set M lo x B) = insert x (vnode_set M lo hi B)" if "hi < x" "x < M"
    using that el A assms(2) unfolding vnode_ok_def vnode_set_def by fastforce
qed

lemma node_single:
  assumes "vnode_ok M lo hi A B" and "hi \<le> lo" and "a \<le> b" and "b < M"
  shows "vnode_ok M a b A B" "vnode_set M a b B = {a, b}"
proof -
  have e: "B i = {}" if "i < vm M" for i
    using assms(1,2) that unfolding vnode_ok_def by (fastforce split: if_splits)
  then show "vnode_ok M a b A B" using assms unfolding vnode_ok_def by auto
  show "vnode_set M a b B = {a, b}" using assms(3) e by (auto simp: vnode_set_def)
qed

lemma node_put:
  assumes D_eq: "vD T = D" and M_eq: "vM T = M" and T: "tree T" and M: "WORD < M"
    and IH: "\<And>M'. M' < M \<Longrightarrow> put_ok M'" and iv: "vinv mem D M" and x: "x < M"
  shows "\<exists>mem'. vebput mem T x = Some mem' \<and> wrote T mem (insert x (vset mem D M)) mem'"
proof -
  let ?lo = "hlo mem D M" and ?hi = "hhi mem D M"
  note tp = tree_parts [OF T, unfolded D_eq M_eq, OF M] and hw = header_writes [OF T, unfolded D_eq M_eq, OF M]
  have "M < 2 ^ 32" using T M_eq by (simp add: tree_def)
  have ok: "vnode_ok M ?lo ?hi (aset mem D M) (bset mem D M)" using iv by (simp add: vinv_node [OF M])
  have S: "vset mem D M = vnode_set M ?lo ?hi (bset mem D M)" by (rule vset_node [OF M])
  have em: "veb_empty mem T \<longleftrightarrow> ?hi < ?lo" using M by (simp add: veb_empty_def tp M_eq not_le)
  note put = vebput.simps [of mem T x, unfolded M_eq em tp(9-11) Let_def]
  consider "?hi < ?lo" | "x = ?lo \<or> x = ?hi" "\<not> ?hi < ?lo" | "?lo = ?hi" "x < ?lo" | "?lo = ?hi" "?hi < x"
    | "?lo < ?hi" "x < ?lo" | "?lo < ?hi" "?hi < x" | "?lo < x" "x < ?hi" by linarith
  then show ?thesis
  proof cases
    case 1
    let ?mem = "sethigh (setlow mem T x) T x"
    have w: "within D (2 * bytes (vbits M)) mem ?mem" using hw(1,2) [OF x] within_trans by blast
    have h: "hlo ?mem D M = x" "hhi ?mem D M = x" using hw(3,5,6) [OF x] by simp_all
    have "wrote T mem (insert x (vset mem D M)) ?mem"
      using header_vinv [OF M w iv h] node_single [OF ok less_imp_le [OF 1] order_refl x] 1
      by (simp add: wrote_def D_eq M_eq S vnode_set_def)
    then show ?thesis using 1 M x by (simp add: put not_le)
  next
    case 2
    then have "insert x (vset mem D M) = vset mem D M" by (auto simp: S vnode_set_def)
    then show ?thesis using 2 M x iv by (auto simp: put not_le wrote_def D_eq M_eq)
  next
    case 3
    have "wrote T mem (insert x (vset mem D M)) (setlow mem T x)"
      using header_vinv [OF M hw(1) [OF x] iv hw(3) [OF x] hw(4) [OF x]] 3
        node_single [OF ok _ _ _, of x ?hi] node_single [OF ok _ _ _, of ?lo ?hi] ok
      by (simp add: wrote_def D_eq M_eq S vnode_ok_def)
    then show ?thesis using 3 M x by (simp add: put not_le)
  next
    case 4
    have "wrote T mem (insert x (vset mem D M)) (sethigh mem T x)"
      using header_vinv [OF M hw(2) [OF x] iv hw(6) [OF x] hw(5) [OF x]] 4
        node_single [OF ok _ _ _, of ?lo x] node_single [OF ok _ _ _, of ?lo ?hi] ok x
      by (simp add: wrote_def D_eq M_eq S vnode_ok_def insert_commute)
    then show ?thesis using 4 M x by (simp add: put not_le)
  next
    case 5
    note wd = node_widen(1) [OF ok 5]
    note hv = header_vinv [OF M hw(1) [OF x] iv hw(3) [OF x] hw(4) [OF x] wd [THEN conjunct1]]
    have "?lo < 2 ^ 32" using 5 ok \<open>M < 2 ^ 32\<close> by (simp add: vnode_ok_def)
    then show ?thesis
      using put_between [OF D_eq M_eq T M IH hv(1) _ _ hv(3), of ?lo] wd 5 M x tp(8) hw(3,4) [OF x]
      by (simp add: put not_le hv(2) S)
  next
    case 6
    note wd = node_widen(2) [OF ok 6 x]
    note hv = header_vinv [OF M hw(2) [OF x] iv hw(6) [OF x] hw(5) [OF x] wd [THEN conjunct1]]
    have "?hi < 2 ^ 32" using 6 ok \<open>M < 2 ^ 32\<close> by (simp add: vnode_ok_def)
    then show ?thesis
      using put_between [OF D_eq M_eq T M IH hv(1) _ _ hv(3), of ?hi] wd 6 M x tp(8) hw(5,6) [OF x]
      by (simp add: put not_le hv(2) S)
  next
    case 7
    then show ?thesis
      using put_between [OF D_eq M_eq T M IH iv 7 within_refl] M x tp(8) \<open>M < 2 ^ 32\<close>
      by (simp add: put not_le)
  qed
qed

lemma put_ok_all: "put_ok M"
proof (induction M rule: less_induct)
  case (less M)
  have "\<exists>mem'. vebput mem T x = Some mem' \<and> wrote T mem (insert x (vset mem (vD T) M)) mem'"
    if T: "tree T" "vM T = M" "vinv mem (vD T) M" "x < M" for T mem x
  proof (cases "M \<le> WORD")
    case True
    then have "vebput mem T x = Some (veb_set mem (vD T) x)" using T by (subst vebput.simps) simp
    then show ?thesis using leaf_put [of T mem x] T True by simp
  next
    case False
    then show ?thesis using node_put [OF refl T(2,1) _ less.IH T(3,4)] by simp
  qed
  then show ?case unfolding put_ok_def by blast
qed

lemma vebput_out: "vM T \<le> x \<Longrightarrow> vebput mem T x = Some mem"
  by (subst vebput.simps) simp

subsection \<open>Deletion\<close>

abbreviation elems :: "nat \<Rightarrow> (nat \<Rightarrow> nat set) \<Rightarrow> nat set" where
  "elems M B \<equiv> {i * vn M + j | i j. i < vm M \<and> j \<in> B i}"

lemma elems_iff:
  assumes "WORD < M" and "\<And>i j. i < vm M \<Longrightarrow> j \<in> B i \<Longrightarrow> j < bM M i"
  shows "y \<in> elems M B \<longleftrightarrow> y div vn M < vm M \<and> y mod vn M \<in> B (y div vn M)"
proof
  assume "y \<in> elems M B"
  then obtain i j where "i < vm M" "j \<in> B i" "y = i * vn M + j" by blast
  then show "y div vn M < vm M \<and> y mod vn M \<in> B (y div vn M)"
    using branch_index_less [OF assms(1), of i j] assms(2) by simp
next
  assume "y div vn M < vm M \<and> y mod vn M \<in> B (y div vn M)"
  moreover have "y = y div vn M * vn M + y mod vn M" by simp
  ultimately show "y \<in> elems M B" by blast
qed

lemma node_delete:
  assumes "WORD < M" and bd: "\<And>i j. i < vm M \<Longrightarrow> j \<in> B i \<Longrightarrow> j < bM M i"
    and el: "\<And>z. z \<in> elems M B \<Longrightarrow> z \<noteq> y \<Longrightarrow> lo < z \<and> z < hi" and "lo \<le> hi" and "hi < M"
    and B': "\<And>i. i < vm M \<Longrightarrow> i \<noteq> y div vn M \<Longrightarrow> B' i = B i" "B' (y div vn M) = B (y div vn M) - {y mod vn M}"
    and A': "A' = {i. i < vm M \<and> B' i \<noteq> {}}"
  shows "vnode_ok M lo hi A' B'" "vnode_set M lo hi B' = {lo, hi} \<union> (elems M B - {y})"
proof -
  have sub: "B' i \<subseteq> B i" if "i < vm M" for i using B' that by (cases "i = y div vn M") auto
  have bd': "j < bM M i" if "i < vm M" "j \<in> B' i" for i j using bd sub that by blast
  have eq: "elems M B' = elems M B - {y}"
  proof (rule set_eqI)
    fix z
    have "z = y \<longleftrightarrow> z div vn M = y div vn M \<and> z mod vn M = y mod vn M" by (metis div_mult_mod_eq)
    moreover have "z mod vn M \<in> B' (z div vn M) \<longleftrightarrow>
        z mod vn M \<in> B (z div vn M) \<and> \<not> (z div vn M = y div vn M \<and> z mod vn M = y mod vn M)"
      if "z div vn M < vm M"
      using B' that by (cases "z div vn M = y div vn M") auto
    ultimately show "z \<in> elems M B' \<longleftrightarrow> z \<in> elems M B - {y}"
      using elems_iff [of M B z] elems_iff [of M B' z] assms(1) bd bd' by auto
  qed
  then show "vnode_set M lo hi B' = {lo, hi} \<union> (elems M B - {y})" using assms(4) by (simp add: vnode_set_def)
  have "lo < i * vn M + j \<and> i * vn M + j < hi" if "i < vm M" "j \<in> B' i" for i j
  proof -
    have "i * vn M + j \<in> elems M B'" using that by blast
    then have z: "i * vn M + j \<in> elems M B - {y}" by (simp only: eq)
    show ?thesis using el [OF DiffD1 [OF z]] DiffD2 [OF z] by blast
  qed
  then show "vnode_ok M lo hi A' B'" using A' assms(4,5) by (simp add: vnode_ok_def)
qed

definition del_ok :: "nat \<Rightarrow> bool" where
  "del_ok M \<longleftrightarrow>
     (\<forall>T mem x. tree T \<and> vM T = M \<and> vinv mem (vD T) M \<longrightarrow>
       (\<exists>mem'. vebdel mem T x = Some mem' \<and> wrote T mem (vset mem (vD T) M - {x}) mem'))"

lemma del_okD:
  assumes "del_ok (vM T)" and "tree T" and "vinv mem (vD T) (vM T)"
  obtains mem' where "vebdel mem T x = Some mem'" "vinv mem' (vD T) (vM T)"
    "vset mem' (vD T) (vM T) = vset mem (vD T) (vM T) - {x}" "within (vD T) (vebsize (vM T)) mem mem'"
  using assms unfolding del_ok_def wrote_def by blast

lemma del_from_branch:
  assumes D_eq: "vD T = D" and M_eq: "vM T = M" and T: "tree T" and M: "WORD < M"
    and IH: "\<forall>M' < M. del_ok M'"
    and va: "vinv mem (aoff D M) (vm M)" and vb: "\<forall>i < vm M. vinv mem (boff D M i) (bM M i)"
    and A: "aset mem D M = {i. i < vm M \<and> bset mem D M i \<noteq> {}}"
    and el: "\<forall>z \<in> elems M (bset mem D M). z \<noteq> y \<longrightarrow> hlo mem D M < z \<and> z < hhi mem D M"
    and le: "hlo mem D M \<le> hhi mem D M" "hhi mem D M < M" and y: "y < M" and w0: "within D (vebsize M) mem0 mem"
  shows "\<exists>mem'. do {
      mem \<leftarrow> vebdel mem (veb_branch T (y div vn M)) (y mod vn M);
      if veb_empty mem (veb_branch T (y div vn M)) then vebdel mem (veb_aux T) (y div vn M) else Some mem
    } = Some mem' \<and> wrote T mem0 ({hlo mem D M, hhi mem D M} \<union> (elems M (bset mem D M) - {y})) mem'"
proof -
  let ?i = "y div vn M" and ?j = "y mod vn M"
  let ?B = "veb_branch T ?i"
  have tp: "vD ?B = boff D M ?i" "vM ?B = bM M ?i" "tree ?B" "vD (veb_aux T) = aoff D M" "vM (veb_aux T) = vm M"
    "tree (veb_aux T)" using tree_parts [OF T] M by (simp_all add: D_eq M_eq)
  have bi: "?i < vm M" "?j < bM M ?i" using branch_index [OF M y] by simp_all
  obtain mem1 where del1: "vebdel mem ?B ?j = Some mem1" "vinv mem1 (boff D M ?i) (bM M ?i)"
    "bset mem1 D M ?i = bset mem D M ?i - {?j}" "within (boff D M ?i) (vebsize (bM M ?i)) mem mem1"
  proof (rule del_okD [of ?B mem ?j])
    show "del_ok (vM ?B)" using IH bM_less [OF M] tp(2) by simp
  qed (use tp bi vb in simp_all)
  note b1 = branch_step [OF M bi(1) del1(4)]
  have em: "veb_empty mem1 ?B \<longleftrightarrow> bset mem1 D M ?i = {}"
    using tree_reads(1) [of ?B mem1, unfolded tp(1,2), OF tp(3) del1(2)] .
  have "\<exists>mem2. (if veb_empty mem1 ?B then vebdel mem1 (veb_aux T) ?i else Some mem1) = Some mem2 \<and>
      vinv mem2 (aoff D M) (vm M) \<and>
      aset mem2 D M = (if bset mem1 D M ?i = {} then aset mem D M - {?i} else aset mem D M) \<and>
      within (aoff D M) (vebsize (vm M)) mem1 mem2"
  proof (cases "veb_empty mem1 ?B")
    case True
    obtain mem2 where "vebdel mem1 (veb_aux T) ?i = Some mem2" "vinv mem2 (aoff D M) (vm M)"
      "aset mem2 D M = aset mem1 D M - {?i}" "within (aoff D M) (vebsize (vm M)) mem1 mem2"
    proof (rule del_okD [of "veb_aux T" mem1 ?i])
      show "del_ok (vM (veb_aux T))" using IH vshape [OF M] tp(5) by simp
    qed (use tp bi va b1 in simp_all)
    then show ?thesis using True b1 em by simp
  next
    case False
    then show ?thesis using b1 em va by simp
  qed
  then obtain mem2 where del2: "(if veb_empty mem1 ?B then vebdel mem1 (veb_aux T) ?i else Some mem1) = Some mem2"
    "vinv mem2 (aoff D M) (vm M)"
    "aset mem2 D M = (if bset mem1 D M ?i = {} then aset mem D M - {?i} else aset mem D M)"
    "within (aoff D M) (vebsize (vm M)) mem1 mem2" by blast
  note a2 = aux_step [OF M del2(4)]
  have B2: "\<And>i. i < vm M \<Longrightarrow> i \<noteq> ?i \<Longrightarrow> bset mem2 D M i = bset mem D M i"
    "bset mem2 D M ?i = bset mem D M ?i - {?j}"
    using b1(5) del1(3) by (simp_all only: a2(3))
  have "aset mem2 D M = {i. i < vm M \<and> bset mem2 D M i \<noteq> {}}"
  proof (rule set_eqI)
    fix i
    show "i \<in> aset mem2 D M \<longleftrightarrow> i \<in> {i. i < vm M \<and> bset mem2 D M i \<noteq> {}}"
      unfolding del2(3) A del1(3) using B2(1) [of i] B2(2) bi(1) by (cases "i = ?i") auto
  qed
  note del = node_delete [of M "bset mem D M", OF M vset_less [OF vb [rule_format]] el [rule_format] le B2 this]
  have "vinv mem2 (boff D M i) (bM M i)" if "i < vm M" for i
    unfolding a2(4) using b1(6) [OF that] del1(2) vb [rule_format, OF that] by (cases "i = ?i") simp_all
  then have "vinv mem2 D M" unfolding vinv_node [OF M] a2(1,2) b1(1,2) using del(1) del2(2) by blast
  moreover have "vset mem2 D M = {hlo mem D M, hhi mem D M} \<union> (elems M (bset mem D M) - {y})"
    unfolding vset_node [OF M] a2(1,2) b1(1,2) by (rule del(2))
  moreover have "within D (vebsize M) mem0 mem2"
    by (rule within_trans [OF w0 within_trans [OF branch_in [OF M bi(1) del1(4)] aux_in [OF M del2(4)]]])
  ultimately show ?thesis using del1(1) del2(1) by (simp add: wrote_def D_eq M_eq)
qed

text \<open>The smallest and the largest element of the branches.\<close>

lemma branch_extreme:
  assumes D_eq: "vD T = D" and M_eq: "vM T = M" and T: "tree T" and M: "WORD < M"
    and iv: "vinv mem D M" and ne: "aset mem D M \<noteq> {}"
  shows "\<exists>y. y \<in> elems M (bset mem D M) \<and> (\<forall>z \<in> elems M (bset mem D M). y \<le> z) \<and>
      low mem (veb_aux T) = y div vn M \<and> low mem (veb_branch T (y div vn M)) = y mod vn M"
    "\<exists>y. y \<in> elems M (bset mem D M) \<and> (\<forall>z \<in> elems M (bset mem D M). z \<le> y) \<and>
      high mem (veb_aux T) = y div vn M \<and> high mem (veb_branch T (y div vn M)) = y mod vn M"
proof -
  note v = iv [unfolded vinv_node [OF M]]
  have tp: "vD (veb_branch T i) = boff D M i" "vM (veb_branch T i) = bM M i" "tree (veb_branch T i)"
    "vD (veb_aux T) = aoff D M" "vM (veb_aux T) = vm M" "tree (veb_aux T)" for i
    using tree_parts [OF T] M by (simp_all add: D_eq M_eq)
  note ra = tree_reads [of "veb_aux T" mem, unfolded tp(4,5), OF tp(6) v [THEN conjunct1]]
  have rb: "bset mem D M i \<noteq> {} \<Longrightarrow> low mem (veb_branch T i) \<in> bset mem D M i \<and> high mem (veb_branch T i) \<in> bset mem D M i"
    "j \<in> bset mem D M i \<Longrightarrow> low mem (veb_branch T i) \<le> j \<and> j \<le> high mem (veb_branch T i)" if "i < vm M" for i j
    using tree_reads(2,3) [of "veb_branch T i" mem, unfolded tp(1,2), OF tp(3)] v that by blast+
  have A: "i \<in> aset mem D M \<longleftrightarrow> i < vm M \<and> bset mem D M i \<noteq> {}" for i using v by (simp add: vnode_ok_def)
  have bd: "j < bM M i" if "i < vm M" "j \<in> bset mem D M i" for i j using vset_less v that by blast
  have ord: "i < i' \<Longrightarrow> i * vn M + j \<le> i' * vn M + j'" if "i < vm M" "j \<in> bset mem D M i" for i i' j j'
  proof -
    assume "i < i'"
    then have "(i * vn M + j) div vn M < i'" using branch_index_less [OF M that(1) bd [OF that]] by simp
    then have "i * vn M + j < i' * vn M" using vshape(1) [OF M] by (subst (asm) div_less_iff_less_mult) auto
    then show ?thesis by simp
  qed
  let ?i = "low mem (veb_aux T)" and ?i' = "high mem (veb_aux T)"
  let ?j = "low mem (veb_branch T ?i)" and ?j' = "high mem (veb_branch T ?i')"
  have i: "?i < vm M" "?j \<in> bset mem D M ?i" "?i' < vm M" "?j' \<in> bset mem D M ?i'"
    using ra(2) ne A rb(1) by auto
  have le: "?i * vn M + ?j \<le> z \<and> z \<le> ?i' * vn M + ?j'" if "z \<in> elems M (bset mem D M)" for z
  proof -
    obtain a b where z: "a < vm M" "b \<in> bset mem D M a" "z = a * vn M + b" using \<open>z \<in> _\<close> by blast
    then have "?i \<le> a" "a \<le> ?i'" using ra(3) A by blast+
    moreover have "?j \<le> b" if "?i = a" using rb(2) [OF i(1), of b] z that by simp
    moreover have "b \<le> ?j'" if "?i' = a" using rb(2) [OF i(3), of b] z that by simp
    ultimately show ?thesis using ord [OF i(1,2), of a b] ord [OF z(1,2), of ?i' ?j'] z(3)
      by (metis add_left_mono le_neq_implies_less)
  qed
  have el: "?i * vn M + ?j \<in> elems M (bset mem D M)" "?i' * vn M + ?j' \<in> elems M (bset mem D M)" using i by blast+
  show "\<exists>y. y \<in> elems M (bset mem D M) \<and> (\<forall>z \<in> elems M (bset mem D M). y \<le> z) \<and>
      low mem (veb_aux T) = y div vn M \<and> low mem (veb_branch T (y div vn M)) = y mod vn M"
    using el le branch_index_less(2,3) [OF M i(1) bd [OF i(1,2)]] by (intro exI [of _ "?i * vn M + ?j"]) simp
  show "\<exists>y. y \<in> elems M (bset mem D M) \<and> (\<forall>z \<in> elems M (bset mem D M). z \<le> y) \<and>
      high mem (veb_aux T) = y div vn M \<and> high mem (veb_branch T (y div vn M)) = y mod vn M"
    using el le branch_index_less(2,3) [OF M i(3) bd [OF i(3,4)]] by (intro exI [of _ "?i' * vn M + ?j'"]) simp
qed

lemma swap_ends:
  fixes E :: "nat set"
  assumes "y \<in> E" and "\<And>z. z \<in> E \<Longrightarrow> lo < z \<and> z < hi" and "lo < hi"
  shows "{y, hi} \<union> (E - {y}) = {lo, hi} \<union> E - {lo}" "{lo, y} \<union> (E - {y}) = {lo, hi} \<union> E - {hi}"
  using assms by auto

text \<open>What \<open>vebdel\<close> does once it knows the branch element that goes away.\<close>

definition del_rest :: "veb \<Rightarrow> store \<times> (nat \<times> nat) option \<Rightarrow> store option" where
  "del_rest T p = (case p of (mem, None) \<Rightarrow> Some mem
     | (mem, Some (i, j)) \<Rightarrow> do {
         mem \<leftarrow> vebdel mem (veb_branch T i) j;
         if veb_empty mem (veb_branch T i) then vebdel mem (veb_aux T) i else Some mem })"

text \<open>Deleting the smallest element of a node with several: the next one takes its place, from the
  branches if they have one; and the same for the largest.\<close>

lemma node_del_pick:
  assumes D_eq: "vD T = D" and M_eq: "vM T = M" and T: "tree T" and M: "WORD < M"
    and iv: "vinv mem D M" and lt: "hlo mem D M < hhi mem D M" and ne: "aset mem D M \<noteq> {}"
    and E: "E = elems M (bset mem D M)" and el: "\<And>z. z \<in> E \<Longrightarrow> hlo mem D M < z \<and> z < hhi mem D M"
    and hiM: "hhi mem D M < M" and S: "vset mem D M = {hlo mem D M, hhi mem D M} \<union> E"
    and x: "x = hlo mem D M \<or> x = hhi mem D M"
  shows "\<exists>y mem1. y < M \<and> vebdel_pick mem T x = (mem1, Some (y div vn M, y mod vn M)) \<and>
      within D (2 * bytes (vbits M)) mem mem1 \<and> hlo mem1 D M \<le> hhi mem1 D M \<and> hhi mem1 D M < M \<and>
      (\<forall>z \<in> E. z \<noteq> y \<longrightarrow> hlo mem1 D M < z \<and> z < hhi mem1 D M) \<and>
      {hlo mem1 D M, hhi mem1 D M} \<union> (E - {y}) = vset mem D M - {x}"
proof -
  note v = iv [unfolded vinv_node [OF M]]
  note tp = tree_parts [OF T, unfolded D_eq M_eq, OF M] and hw = header_writes [OF T, unfolded D_eq M_eq, OF M]
  have em: "\<not> veb_empty mem (veb_aux T)" using tree_reads(1) [OF tp(3)] v ne by (simp add: tp)
  note pick = vebdel_pick_def [of mem T x, unfolded tp(7,9-11) Let_def]
  show ?thesis
  proof (cases "x = hlo mem D M")
    case True
    obtain y where y: "y \<in> E" "\<And>z. z \<in> E \<Longrightarrow> y \<le> z" "low mem (veb_aux T) = y div vn M"
      "low mem (veb_branch T (y div vn M)) = y mod vn M"
      using branch_extreme(1) [OF D_eq M_eq T M iv ne] unfolding E by blast
    have yM: "y < M" "y < hhi mem D M" using el [OF y(1)] hiM by linarith+
    have yE: "y < z" if "z \<in> E" "z \<noteq> y" for z using y(2) [OF that(1)] that(2) by linarith
    have "vebdel_pick mem T x = (setlow mem T y, Some (y div vn M, y mod vn M))"
      unfolding pick if_P [OF True] if_not_P [OF em] y(3) y(4) by simp
    then show ?thesis using hw(1,3,4) [OF yM(1)] yM hiM el yE swap_ends(1) [OF y(1) el lt] True
      by (intro exI [of _ y] exI [of _ "setlow mem T y"]) (simp add: S del: One_nat_def)
  next
    case False
    obtain y where y: "y \<in> E" "\<And>z. z \<in> E \<Longrightarrow> z \<le> y" "high mem (veb_aux T) = y div vn M"
      "high mem (veb_branch T (y div vn M)) = y mod vn M"
      using branch_extreme(2) [OF D_eq M_eq T M iv ne] unfolding E by blast
    have yM: "y < M" "hlo mem D M < y" using el [OF y(1)] hiM by linarith+
    have yE: "z < y" if "z \<in> E" "z \<noteq> y" for z using y(2) [OF that(1)] that(2) by linarith
    have xh: "x = hhi mem D M" using x False by blast
    then have "vebdel_pick mem T x = (sethigh mem T y, Some (y div vn M, y mod vn M))"
      unfolding pick if_not_P [OF False] if_P [OF xh] if_not_P [OF em] y(3) y(4) by simp
    then show ?thesis using hw(2,5,6) [OF yM(1)] yM hiM el yE swap_ends(2) [OF y(1) el lt] xh
      by (intro exI [of _ y] exI [of _ "sethigh mem T y"]) (simp add: S del: One_nat_def)
  qed
qed

lemma node_del_end:
  assumes D_eq: "vD T = D" and M_eq: "vM T = M" and T: "tree T" and M: "WORD < M"
    and IH: "\<forall>M' < M. del_ok M'" and iv: "vinv mem D M"
    and lt: "hlo mem D M < hhi mem D M" and x: "x = hlo mem D M \<or> x = hhi mem D M"
  shows "\<exists>mem'. del_rest T (vebdel_pick mem T x) = Some mem' \<and> wrote T mem (vset mem D M - {x}) mem'"
proof -
  let ?lo = "hlo mem D M" and ?hi = "hhi mem D M" and ?E = "elems M (bset mem D M)"
  note v = iv [unfolded vinv_node [OF M]]
  note tp = tree_parts [OF T, unfolded D_eq M_eq, OF M] and hw = header_writes [OF T, unfolded D_eq M_eq, OF M]
  have ok: "vnode_ok M ?lo ?hi (aset mem D M) (bset mem D M)" using v by blast
  have hiM: "?hi < M" and loM: "?lo < M" and El: "\<And>z. z \<in> ?E \<Longrightarrow> ?lo < z \<and> z < ?hi"
    and A: "aset mem D M = {i. i < vm M \<and> bset mem D M i \<noteq> {}}"
    using ok lt by (auto simp: vnode_ok_def)
  have S: "vset mem D M = {?lo, ?hi} \<union> ?E" using lt by (simp add: vset_node [OF M] vnode_set_def)
  show ?thesis
  proof (cases "aset mem D M = {}")
    case True
    then have "?E = {}" using A by auto
    moreover have "vnode_ok M a a (aset mem D M) (bset mem D M)" "vnode_set M a a (bset mem D M) = {a}" if "a < M" for a
      using True A that \<open>?E = {}\<close> by (auto simp: vnode_ok_def vnode_set_def)
    moreover have "veb_empty mem (veb_aux T)" using tree_reads(1) [OF tp(3)] v True by (simp add: tp)
    ultimately show ?thesis using x lt S hiM loM
        header_vinv [OF M hw(1) [OF hiM] iv hw(3) [OF hiM] hw(4) [OF hiM]]
        header_vinv [OF M hw(2) [OF loM] iv hw(6) [OF loM] hw(5) [OF loM]]
      by (auto simp: vebdel_pick_def tp Let_def wrote_def D_eq M_eq del_rest_def)
  next
    case False
    obtain y mem1 where p: "y < M" "vebdel_pick mem T x = (mem1, Some (y div vn M, y mod vn M))"
      "within D (2 * bytes (vbits M)) mem mem1" "hlo mem1 D M \<le> hhi mem1 D M" "hhi mem1 D M < M"
      "\<forall>z \<in> ?E. z \<noteq> y \<longrightarrow> hlo mem1 D M < z \<and> z < hhi mem1 D M"
      "{hlo mem1 D M, hhi mem1 D M} \<union> (?E - {y}) = vset mem D M - {x}"
      using node_del_pick [OF D_eq M_eq T M iv lt False refl El hiM S x] by auto
    note hs = header_step [OF M p(3)]
    have "vinv mem1 (aoff D M) (vm M)" "\<forall>i < vm M. vinv mem1 (boff D M i) (bM M i)"
      "aset mem1 D M = {i. i < vm M \<and> bset mem1 D M i \<noteq> {}}" using v A by (simp_all add: hs)
    from del_from_branch [OF D_eq M_eq T M IH this, unfolded hs, OF p(6,4,5,1) header_in [OF M p(3)]]
    show ?thesis unfolding p(7) p(2) del_rest_def by simp
  qed
qed

lemma node_del:
  assumes D_eq: "vD T = D" and M_eq: "vM T = M" and T: "tree T" and M: "WORD < M"
    and IH: "\<forall>M' < M. del_ok M'" and iv: "vinv mem D M"
  shows "\<exists>mem'. vebdel mem T x = Some mem' \<and> wrote T mem (vset mem D M - {x}) mem'"
proof -
  let ?lo = "hlo mem D M" and ?hi = "hhi mem D M" and ?E = "elems M (bset mem D M)"
  note tp = tree_parts [OF T, unfolded D_eq M_eq, OF M] and hw = header_writes [OF T, unfolded D_eq M_eq, OF M]
  note v = iv [unfolded vinv_node [OF M]]
  have ok: "vnode_ok M ?lo ?hi (aset mem D M) (bset mem D M)" using v by blast
  have em: "veb_empty mem T \<longleftrightarrow> ?hi < ?lo" using M by (simp add: veb_empty_def tp M_eq not_le)
  have M1: "0 < M" "1 < M" "M < 2 ^ 32" using M T M_eq by (simp_all add: WORD_def tree_def)
  note del = vebdel.simps [of mem T x, unfolded M_eq em tp(10,11) Let_def, folded del_rest_def]
  have "x \<notin> vset mem D M" if "\<not> (?lo \<le> x \<and> x \<le> ?hi \<and> ?hi < M)"
    using node_elems [OF ok, of x] that by (auto simp: vset_node [OF M])
  then have same: "wrote T mem (vset mem D M - {x}) mem" if "\<not> (?lo \<le> x \<and> x \<le> ?hi \<and> ?hi < M)"
    using iv that by (simp add: wrote_def D_eq M_eq)
  consider "?hi < ?lo \<or> M \<le> x \<or> x < ?lo \<or> ?hi < x" | "?lo = ?hi" "x = ?lo" "x < M"
    | "?lo < ?hi" "x = ?lo \<or> x = ?hi" "x < M" | "?lo < x" "x < ?hi" "x < M" by linarith
  then show ?thesis
  proof cases
    case 1
    then have "vebdel mem T x = Some mem" using M by (auto simp: del)
    moreover have "\<not> (?lo \<le> x \<and> x \<le> ?hi \<and> ?hi < M)" using 1 by linarith
    ultimately show ?thesis using same by blast
  next
    case 2
    let ?mem = "setlow (sethigh mem T 0) T 1"
    have w: "within D (2 * bytes (vbits M)) mem ?mem" using hw(2) [OF M1(1)] hw(1) [OF M1(2)] within_trans by blast
    have h: "hlo ?mem D M = 1" "hhi ?mem D M = 0" using hw(5) [OF M1(1)] hw(3,4) [OF M1(2)] by simp_all
    have "aset mem D M = {}" using ok 2(1) by (fastforce simp: vnode_ok_def)
    then have "vnode_ok M 1 0 (aset mem D M) (bset mem D M)" using ok by (simp add: vnode_ok_def)
    then have "wrote T mem {} ?mem" using header_vinv [OF M w iv h]
      by (simp add: wrote_def D_eq M_eq vnode_set_def)
    moreover have "vset mem D M - {x} = {}"
      using 2 node_single(2) [OF ok, of ?lo ?hi] by (auto simp: vset_node [OF M])
    moreover have "vebdel mem T x = Some ?mem" unfolding del using 2 M by (simp add: not_le)
    ultimately show ?thesis by metis
  next
    case 3
    then show ?thesis using node_del_end [OF D_eq M_eq T M IH iv 3(1,2)] M by (auto simp: del not_le)
  next
    case 4
    have A: "aset mem D M = {i. i < vm M \<and> bset mem D M i \<noteq> {}}" and le: "?lo \<le> ?hi" "?hi < M"
      and el: "\<forall>z \<in> ?E. z \<noteq> x \<longrightarrow> ?lo < z \<and> z < ?hi" using ok 4 by (auto simp: vnode_ok_def)
    have "vset mem D M - {x} = {?lo, ?hi} \<union> (?E - {x})" using 4 le by (auto simp: vset_node [OF M] vnode_set_def)
    moreover have "vebdel_pick mem T x = (mem, Some (x div vn M, x mod vn M))"
      using 4 M1(3) by (simp add: vebdel_pick_def tp Let_def del: highbits_eq)
    ultimately show ?thesis
      using del_from_branch [OF D_eq M_eq T M IH _ _ A el le 4(3) within_refl] v 4 M
      by (simp add: del not_le) (simp add: del_rest_def)
  qed
qed

lemma del_ok_all: "del_ok M"
proof (induction M rule: less_induct)
  case (less M)
  have "\<exists>mem'. vebdel mem T x = Some mem' \<and> wrote T mem (vset mem (vD T) M - {x}) mem'"
    if T: "tree T" "vM T = M" "vinv mem (vD T) M" for T mem x
  proof (cases "M \<le> WORD")
    case True
    let ?b = "bytes M"
    have em: "veb_empty mem T \<longleftrightarrow> vset mem (vD T) M = {}" using tree_reads(1) [OF T(1)] T by simp
    show ?thesis
    proof (cases "vset mem (vD T) M = {} \<or> M \<le> x")
      case True
      then have "vset mem (vD T) M - {x} = vset mem (vD T) M" using vset_less [OF T(3)] by fastforce
      then show ?thesis using True em T by (subst vebdel.simps) (auto simp: wrote_def)
    next
      case False
      then have b: "x < 8 * ?b" "?b \<le> 4" using bytes_bounds [of M] \<open>M \<le> WORD\<close> by (simp_all add: WORD_def)
      then have "within (vD T) ?b mem (veb_unset mem (vD T) x)" by (auto simp: within_def veb_unset_def)
      then have "wrote T mem (vset mem (vD T) M - {x}) (veb_unset mem (vD T) x)"
        using T \<open>M \<le> WORD\<close> veb_unset_at [OF b, of mem "vD T"]
        by (auto simp: wrote_def vset.simps vinv.simps vebsize_leaf)
      then show ?thesis using False em T \<open>M \<le> WORD\<close> by (subst vebdel.simps) simp
    qed
  next
    case False
    then show ?thesis using node_del [OF refl T(2,1) _ _ T(3)] less.IH by simp
  qed
  then show ?case unfolding del_ok_def by blast
qed

subsection \<open>Successor and predecessor\<close>

definition is_succ :: "nat set \<Rightarrow> nat \<Rightarrow> nat \<Rightarrow> nat \<Rightarrow> bool" where
  "is_succ S M x y \<longleftrightarrow> y \<in> S \<and> x \<le> y \<and> (\<forall>z \<in> S. x \<le> z \<longrightarrow> y \<le> z) \<or> y = M \<and> (\<forall>z \<in> S. z < x)"

definition is_pred :: "nat set \<Rightarrow> nat \<Rightarrow> nat \<Rightarrow> nat \<Rightarrow> bool" where
  "is_pred S M x y \<longleftrightarrow> y \<in> S \<and> y \<le> x \<and> (\<forall>z \<in> S. z \<le> x \<longrightarrow> z \<le> y) \<or> y = M \<and> (\<forall>z \<in> S. x < z)"

lemma div_mod_le: "0 < n \<Longrightarrow> x \<le> z \<longleftrightarrow> x div n < z div n \<or> x div n = z div n \<and> x mod n \<le> z mod n"
  for n x z :: nat
proof -
  assume n: "0 < n"
  have "z < x" if "z div n < x div n" using that by (metis div_le_mono not_less)
  moreover have "x < z" if "x div n < z div n" using that by (metis div_le_mono not_less)
  moreover have "x \<le> z \<longleftrightarrow> x mod n \<le> z mod n" if "x div n = z div n"
    using that by (metis add_le_cancel_left div_mult_mod_eq)
  ultimately show ?thesis by (metis less_imp_le linorder_neqE_nat not_le)
qed

definition succ_ok :: "nat \<Rightarrow> bool" where
  "succ_ok M \<longleftrightarrow>
     (\<forall>T mem x. tree T \<and> vM T = M \<and> vinv mem (vD T) M \<longrightarrow>
       (\<exists>y. vebsucc mem T x = Some y \<and> is_succ (vset mem (vD T) M) M x y))"

lemma succ_okD:
  assumes "succ_ok (vM T)" and "tree T" and "vinv mem (vD T) (vM T)"
  obtains y where "vebsucc mem T x = Some y" "is_succ (vset mem (vD T) (vM T)) (vM T) x y"
  using assms unfolding succ_ok_def by blast

lemma leaf_succ:
  assumes "tree T" and "vM T \<le> WORD" and "vinv mem (vD T) (vM T)"
  shows "\<exists>y. vebsucc mem T x = Some y \<and> is_succ (vset mem (vD T) (vM T)) (vM T) x y"
proof -
  let ?S = "vset mem (vD T) (vM T)" and ?d = "veb_decode mem (vD T) (bytes (vM T))"
  note rd = tree_reads [OF assms(1,3)]
  have S: "?S = {z. bit ?d z}" using assms(2) by (simp add: vset.simps)
  show ?thesis
  proof (cases "?S = {} \<or> high mem T < x")
    case True
    then have "vebsucc mem T x = Some (vM T)" using rd(1) by (subst vebsucc.simps) auto
    moreover have "\<forall>z \<in> ?S. z < x" using True rd(3) by fastforce
    ultimately show ?thesis by (auto simp: is_succ_def)
  next
    case False
    then have hi: "high mem T \<in> ?S" "x \<le> high mem T" using rd(2) by auto
    have d: "z < 32" if "bit ?d z" for z
      using vset_less [OF assms(3), of z] that assms(2) S by (simp add: WORD_def)
    let ?y = "unat ((of_nat ?d :: uint32) AND zeros x)"
    have y: "bit ?y z \<longleftrightarrow> bit ?d z \<and> x \<le> z" for z
      using d by (auto simp: bit_unsigned_iff bit_and_iff zeros_def bit_push_bit_iff bit_not_iff bit_mask_iff bit_of_nat_uint32)
    have "bit ?y (high mem T)" using hi S y by simp
    then have "0 < ?y" by (metis bit_0_eq bot_nat_0.not_eq_extremum bot_apply bot_bool_def)
    moreover from this have "is_succ ?S (vM T) x (ctz ?y)" using bit_ctz [of ?y] y S by (auto simp: is_succ_def)
    moreover have "vebsucc mem T x = Some (if 0 < ?y then ctz ?y else vM T)"
      using False rd(1) assms(2) by (subst vebsucc.simps) (simp add: Let_def)
    ultimately show ?thesis by simp
  qed
qed

text \<open>What the search in a node rests on: the elements of the branches are ordered by branch, then
  within the branch.\<close>

definition branch_order :: "nat \<Rightarrow> nat \<Rightarrow> nat \<Rightarrow> nat set \<Rightarrow> (nat \<Rightarrow> nat set) \<Rightarrow> nat set \<Rightarrow> bool" where
  "branch_order n lo hi A B S \<longleftrightarrow> 0 < n \<and>
     (\<forall>z. z \<in> S \<longleftrightarrow> z = lo \<or> z = hi \<or> z div n \<in> A \<and> z mod n \<in> B (z div n)) \<and>
     (\<forall>z. z div n \<in> A \<and> z mod n \<in> B (z div n) \<longrightarrow> lo < z \<and> z < hi) \<and>
     (\<forall>i \<in> A. \<forall>j \<in> B i. j < n)"

lemma node_view:
  assumes D_eq: "vD T = D" and M_eq: "vM T = M" and T: "tree T" and M: "WORD < M" and iv: "vinv mem D M"
    and le: "hlo mem D M \<le> hhi mem D M"
  shows "vset mem D M = {hlo mem D M, hhi mem D M} \<union> elems M (bset mem D M)"
    "z \<in> elems M (bset mem D M) \<longleftrightarrow> z div vn M \<in> aset mem D M \<and> z mod vn M \<in> bset mem D M (z div vn M)"
    "z \<in> elems M (bset mem D M) \<Longrightarrow> hlo mem D M < z \<and> z < hhi mem D M"
    "i \<in> aset mem D M \<longleftrightarrow> i < vm M \<and> bset mem D M i \<noteq> {}" "hhi mem D M < M"
    "i < vm M \<Longrightarrow> vinv mem (boff D M i) (bM M i)" "vinv mem (aoff D M) (vm M)"
    "branch_order (vn M) (hlo mem D M) (hhi mem D M) (aset mem D M) (bset mem D M) (vset mem D M)"
proof -
  note v = iv [unfolded vinv_node [OF M]]
  show vb: "i < vm M \<Longrightarrow> vinv mem (boff D M i) (bM M i)" "vinv mem (aoff D M) (vm M)" for i using v by simp_all
  show A: "i \<in> aset mem D M \<longleftrightarrow> i < vm M \<and> bset mem D M i \<noteq> {}" "hhi mem D M < M" for i
    using v le by (simp_all add: vnode_ok_def)
  show E: "z \<in> elems M (bset mem D M) \<longleftrightarrow> z div vn M \<in> aset mem D M \<and> z mod vn M \<in> bset mem D M (z div vn M)" for z
    using elems_iff [of M "bset mem D M" z, OF M vset_less [OF vb(1)]] A by blast
  show bd: "hlo mem D M < z \<and> z < hhi mem D M" if "z \<in> elems M (bset mem D M)" for z
    using v that le by (auto simp: vnode_ok_def)
  show S: "vset mem D M = {hlo mem D M, hhi mem D M} \<union> elems M (bset mem D M)"
    using le by (simp add: vset_node [OF M] vnode_set_def)
  have "j < vn M" if "i \<in> aset mem D M" "j \<in> bset mem D M i" for i j
    using vset_less [OF vb(1) that(2)] that(1) A vshape(6) [OF M] by (auto simp: bM_def split: if_splits)
  then show "branch_order (vn M) (hlo mem D M) (hhi mem D M) (aset mem D M) (bset mem D M) (vset mem D M)"
    using vshape(1) [OF M] bd unfolding branch_order_def S Un_iff E by auto
qed

lemma branch_order_member:
  assumes "branch_order n lo hi A B S" and "i \<in> A" and "j \<in> B i"
  shows "i * n + j \<in> S" "lo < i * n + j" "i * n + j < hi"
    "x \<le> i * n + j \<longleftrightarrow> x div n < i \<or> x div n = i \<and> x mod n \<le> j"
    "i * n + j \<le> x \<longleftrightarrow> i < x div n \<or> i = x div n \<and> j \<le> x mod n"
proof -
  have e: "(i * n + j) div n = i" "(i * n + j) mod n = j" and n: "0 < n" using assms by (simp_all add: branch_order_def)
  have bd: "\<And>z. z div n \<in> A \<and> z mod n \<in> B (z div n) \<Longrightarrow> lo < z \<and> z < hi"
    and m: "\<And>z. z div n \<in> A \<and> z mod n \<in> B (z div n) \<Longrightarrow> z \<in> S" using assms(1) by (simp_all add: branch_order_def)
  show "i * n + j \<in> S" "lo < i * n + j" "i * n + j < hi"
    using bd [of "i * n + j"] m [of "i * n + j"] assms(2,3) by (simp_all only: e)
  show "x \<le> i * n + j \<longleftrightarrow> x div n < i \<or> x div n = i \<and> x mod n \<le> j"
    using div_mod_le [OF n, of x "i * n + j"] by (simp only: e)
  show "i * n + j \<le> x \<longleftrightarrow> i < x div n \<or> i = x div n \<and> j \<le> x mod n"
    using div_mod_le [OF n, of "i * n + j" x] by (simp only: e)
qed

lemma branch_order_cases:
  assumes "branch_order n lo hi A B S" and "z \<in> S"
  obtains "z = lo" | "z = hi" | i j where "i \<in> A" "j \<in> B i" "z = i * n + j"
proof -
  have "z = z div n * n + z mod n" by simp
  then show ?thesis using assms that unfolding branch_order_def by blast
qed

lemma branch_order_same:
  assumes bo: "branch_order n lo hi A B S" and "i \<in> A" and "j \<in> B i" and "i' \<in> A" and "j' \<in> B i'"
  shows "i * n + j \<le> i' * n + j' \<longleftrightarrow> i < i' \<or> i = i' \<and> j \<le> j'"
proof -
  have "(i * n + j) div n = i" "(i * n + j) mod n = j" using assms by (simp_all add: branch_order_def)
  then show ?thesis using branch_order_member(4) [OF bo assms(4,5), of "i * n + j"] by simp
qed

lemma succ_in_branch:
  assumes bo: "branch_order n lo hi A B S" and x: "lo < x" "x < hi" and i: "x div n \<in> A"
    and y: "is_succ (B (x div n)) b (x mod n) y" and ex: "\<exists>z \<in> B (x div n). x mod n \<le> z"
  shows "is_succ S M x (x div n * n + y)"
proof -
  note mem = branch_order_member [OF bo]
  have y: "y \<in> B (x div n)" "x mod n \<le> y" "\<And>z. z \<in> B (x div n) \<Longrightarrow> x mod n \<le> z \<Longrightarrow> y \<le> z"
    using y ex by (auto simp: is_succ_def not_le)
  have "x div n * n + y \<le> z" if z: "z \<in> S" "x \<le> z" for z
    using bo z(1)
  proof (cases rule: branch_order_cases)
    case (3 i j)
    then have "x div n < i \<or> x div n = i \<and> x mod n \<le> j" using mem(4) [OF 3(1,2), of x] z(2) by simp
    then show ?thesis using 3 y(3) [of j] branch_order_same [OF bo i y(1) 3(1,2)] by auto
  qed (use z x mem(3) [OF i y(1)] in linarith)+
  then show ?thesis using mem(1,4) [OF i y(1)] y(2) by (auto simp: is_succ_def)
qed

lemma succ_after_branch:
  assumes bo: "branch_order n lo hi A B S" and x: "lo < x" "x < hi"
    and none: "\<And>z. x div n \<in> A \<Longrightarrow> z \<in> B (x div n) \<Longrightarrow> z < x mod n"
    and y: "is_succ A a (x div n + 1) y" "a \<notin> A" and l: "y \<in> A \<Longrightarrow> l \<in> B y \<and> (\<forall>z \<in> B y. l \<le> z)"
  shows "is_succ S M x (if y = a then hi else y * n + l)"
proof -
  note mem = branch_order_member [OF bo]
  have after: "x div n < i" if "i \<in> A" "j \<in> B i" "x \<le> i * n + j" for i j
    using mem(4) [OF that(1,2), of x] that(3) none [of j] that(1,2) by (auto simp: not_le)
  show ?thesis
  proof (cases "y \<in> A")
    case True
    then have y: "y \<noteq> a" "x div n < y" "\<And>z. z \<in> A \<Longrightarrow> x div n < z \<Longrightarrow> y \<le> z"
      using y by (auto simp: is_succ_def)
    have l: "l \<in> B y" "\<And>z. z \<in> B y \<Longrightarrow> l \<le> z" using l True by blast+
    have "y * n + l \<le> z" if z: "z \<in> S" "x \<le> z" for z
      using bo z(1)
    proof (cases rule: branch_order_cases)
      case (3 i j)
      then have "y \<le> i" using y(3) after z(2) by blast
      then have "y < i \<or> y = i \<and> l \<le> j" using l(2) 3(2) by (auto simp: le_less)
      then show ?thesis using branch_order_same [OF bo True l(1) 3(1,2)] 3(3) by simp
    qed (use z x mem(3) [OF True l(1)] in linarith)+
    then show ?thesis using mem(1,4) [OF True l(1)] y by (auto simp: is_succ_def)
  next
    case False
    then have y: "y = a" "\<And>z. z \<in> A \<Longrightarrow> z \<le> x div n" using y by (auto simp: is_succ_def less_Suc_eq_le)
    have "hi \<le> z" if z: "z \<in> S" "x \<le> z" for z
      using bo z(1)
    proof (cases rule: branch_order_cases)
      case (3 i j)
      then show ?thesis using after [OF 3(1,2)] z(2) y(2) [OF 3(1)] by simp
    qed (use z x in linarith)+
    then show ?thesis using bo x y(1) by (auto simp: is_succ_def branch_order_def)
  qed
qed

lemma node_succ:
  assumes D_eq: "vD T = D" and M_eq: "vM T = M" and T: "tree T" and M: "WORD < M"
    and IH: "\<forall>M' < M. succ_ok M'" and iv: "vinv mem D M"
  shows "\<exists>y. vebsucc mem T x = Some y \<and> is_succ (vset mem D M) M x y"
proof -
  let ?lo = "hlo mem D M" and ?hi = "hhi mem D M" and ?n = "vn M"
  note tp = tree_parts [OF T, unfolded D_eq M_eq, OF M]
  note rd = tree_reads [OF T, unfolded D_eq M_eq, OF iv]
  have n: "0 < ?n" using vshape(1) [OF M] by linarith
  note succ = vebsucc.simps [of mem T x, unfolded M_eq tp(7,9-11) Let_def]
  show ?thesis
  proof (cases "vset mem D M = {} \<or> ?hi < x")
    case True
    then have "vebsucc mem T x = Some M" unfolding succ using rd(1) by auto
    moreover have "\<forall>z \<in> vset mem D M. z < x" using True rd(3) by (fastforce simp: tp)
    ultimately show ?thesis by (auto simp: is_succ_def)
  next
    case False
    then have ne: "\<not> veb_empty mem T" "x \<le> ?hi" and le: "?lo \<le> ?hi" using rd by (auto simp: tp)
    note nv = node_view [OF D_eq M_eq T M iv le]
    have x32: "x < 2 ^ 32" using ne(2) nv(5) T M_eq by (simp add: tree_def)
    note ra = tree_reads [OF tp(3), unfolded tp(1,2), OF nv(7)]
    note rb = tree_reads [OF tp(6), unfolded tp(4,5), OF nv(6)]
    let ?i = "x div ?n" and ?j = "x mod ?n"
    consider "x \<le> ?lo" | "?lo < x" "aset mem D M = {} \<or> x = ?hi"
      | "?lo < x" "x < ?hi" "aset mem D M \<noteq> {}" using ne(2) by linarith
    then show ?thesis
    proof cases
      case 1
      then have "vebsucc mem T x = Some ?lo" unfolding succ using ne M by simp
      moreover have "is_succ (vset mem D M) M x ?lo" using 1 rd(3) by (auto simp: is_succ_def nv(1) tp)
      ultimately show ?thesis by blast
    next
      case 2
      then have "vebsucc mem T x = Some ?hi" unfolding succ using ne M ra(1) by auto
      moreover have "is_succ (vset mem D M) M x ?hi"
        using 2 ne(2) nv(2,3) unfolding is_succ_def nv(1) by fastforce
      ultimately show ?thesis by blast
    next
      case 3
      then have i: "?i < vm M" using branch_index(1) [OF M] nv(5) by simp
      note rbi = rb [OF i]
      show ?thesis
      proof (cases "bset mem D M ?i \<noteq> {} \<and> ?j \<le> high mem (veb_branch T ?i)")
        case True
        obtain y where y: "vebsucc mem (veb_branch T ?i) ?j = Some y" "is_succ (bset mem D M ?i) (bM M ?i) ?j y"
          using succ_okD [of "veb_branch T ?i" mem ?j] IH bM_less [OF M] tp(4-6) nv(6) [OF i] by metis
        have "vebsucc mem T x = Some (?i * ?n + y)"
          unfolding succ using ne M 3 ra(1) rbi(1) True y(1) tp(8) [OF x32] by simp
        moreover have "is_succ (vset mem D M) M x (?i * ?n + y)"
          using succ_in_branch [OF nv(8) 3(1,2) _ y(2)] True i rbi(2) nv(4) by blast
        ultimately show ?thesis by blast
      next
        case False
        obtain y where y: "vebsucc mem (veb_aux T) (?i + 1) = Some y" "is_succ (aset mem D M) (vm M) (?i + 1) y"
          using succ_okD [of "veb_aux T" mem "?i + 1"] IH vshape(3) [OF M] tp(1-3) nv(7) by metis
        have "vebsucc mem T x = Some (if y = vm M then ?hi else y * ?n + low mem (veb_branch T y))"
          unfolding succ using ne M 3 ra(1) rbi(1) False y(1) tp(2) tp(8) [OF x32] by auto
        moreover have "is_succ (vset mem D M) M x (if y = vm M then ?hi else y * ?n + low mem (veb_branch T y))"
        proof (rule succ_after_branch [OF nv(8) 3(1,2) _ y(2)])
          show "z < ?j" if "?i \<in> aset mem D M" "z \<in> bset mem D M ?i" for z using False rbi(3) [OF that(2)] that by auto
          show "vm M \<notin> aset mem D M" using nv(4) by simp
          show "low mem (veb_branch T y) \<in> bset mem D M y \<and> (\<forall>z \<in> bset mem D M y. low mem (veb_branch T y) \<le> z)"
            if "y \<in> aset mem D M" using rb(2,3) [of y] that nv(4) by blast
        qed
        ultimately show ?thesis by blast
      qed
    qed
  qed
qed

lemma succ_ok_all: "succ_ok M"
proof (induction M rule: less_induct)
  case (less M)
  have "\<exists>y. vebsucc mem T x = Some y \<and> is_succ (vset mem (vD T) M) M x y"
    if T: "tree T" "vM T = M" "vinv mem (vD T) M" for T mem x
    using leaf_succ [of T mem x] node_succ [OF refl T(2,1) _ _ T(3)] T less.IH by (cases "M \<le> WORD") simp_all
  then show ?case unfolding succ_ok_def by blast
qed

lemma pred_in_branch:
  assumes bo: "branch_order n lo hi A B S" and x: "lo < x" "x < hi" and i: "x div n \<in> A"
    and y: "is_pred (B (x div n)) b (x mod n) y" and ex: "\<exists>z \<in> B (x div n). z \<le> x mod n"
  shows "is_pred S M x (x div n * n + y)"
proof -
  note mem = branch_order_member [OF bo]
  have y: "y \<in> B (x div n)" "y \<le> x mod n" "\<And>z. z \<in> B (x div n) \<Longrightarrow> z \<le> x mod n \<Longrightarrow> z \<le> y"
    using y ex by (auto simp: is_pred_def not_le)
  have "z \<le> x div n * n + y" if z: "z \<in> S" "z \<le> x" for z
    using bo z(1)
  proof (cases rule: branch_order_cases)
    case (3 i j)
    then have "i < x div n \<or> i = x div n \<and> j \<le> x mod n" using mem(5) [OF 3(1,2), of x] z(2) by simp
    then show ?thesis using 3 y(3) [of j] branch_order_same [OF bo 3(1,2) i y(1)] by auto
  qed (use z x mem(2) [OF i y(1)] in linarith)+
  then show ?thesis using mem(1,5) [OF i y(1)] y(2) by (auto simp: is_pred_def)
qed

text \<open>The index before the first is the largest 32-bit integer, which \<open>vebpred\<close> takes for an index
  outside of \<open>aux\<close>: there is no element before, then.\<close>

lemma pred_before_branch:
  assumes bo: "branch_order n lo hi A B S" and x: "lo < x" "x < hi"
    and none: "\<And>z. x div n \<in> A \<Longrightarrow> z \<in> B (x div n) \<Longrightarrow> x mod n < z"
    and y: "if x div n = 0 then y = a else is_pred A a (x div n - 1) y" "a \<notin> A"
    and l: "y \<in> A \<Longrightarrow> l \<in> B y \<and> (\<forall>z \<in> B y. z \<le> l)"
  shows "is_pred S M x (if y = a then lo else y * n + l)"
proof -
  note mem = branch_order_member [OF bo]
  have before: "i < x div n" if "i \<in> A" "j \<in> B i" "i * n + j \<le> x" for i j
    using mem(5) [OF that(1,2), of x] that(3) none [of j] that(1,2) by (auto simp: not_le)
  show ?thesis
  proof (cases "y \<in> A")
    case True
    then have y: "y \<noteq> a" "y < x div n" "\<And>z. z \<in> A \<Longrightarrow> z < x div n \<Longrightarrow> z \<le> y"
      using y by (auto simp: is_pred_def less_eq_Suc_le split: if_splits)
    have l: "l \<in> B y" "\<And>z. z \<in> B y \<Longrightarrow> z \<le> l" using l True by blast+
    have "z \<le> y * n + l" if z: "z \<in> S" "z \<le> x" for z
      using bo z(1)
    proof (cases rule: branch_order_cases)
      case (3 i j)
      then have "i \<le> y" using y(3) before z(2) by blast
      then have "i < y \<or> i = y \<and> j \<le> l" using l(2) 3(2) by (auto simp: le_less)
      then show ?thesis using branch_order_same [OF bo 3(1,2) True l(1)] 3(3) by simp
    qed (use z x mem(2) [OF True l(1)] in linarith)+
    then show ?thesis using mem(1,5) [OF True l(1)] y by (auto simp: is_pred_def)
  next
    case False
    then have y: "y = a" "\<And>z. z \<in> A \<Longrightarrow> x div n \<le> z"
      using y by (auto simp: is_pred_def split: if_splits)
    have "z \<le> lo" if z: "z \<in> S" "z \<le> x" for z
      using bo z(1)
    proof (cases rule: branch_order_cases)
      case (3 i j)
      then show ?thesis using before [OF 3(1,2)] z(2) y(2) [OF 3(1)] by simp
    qed (use z x in linarith)+
    then show ?thesis using bo x y(1) by (auto simp: is_pred_def branch_order_def)
  qed
qed

text \<open>Trees none of whose bitmaps has all 32 bits: there the shift of \<open>vebpred\<close> stays defined.\<close>

function narrow :: "nat \<Rightarrow> bool" where
  "narrow M = (if M \<le> WORD then M < WORD else narrow (vm M) \<and> narrow (vn M) \<and> narrow (vlast M))"
  by pat_completeness auto
termination
proof (relation "measure (\<lambda>M. M)")
  fix M assume "\<not> M \<le> WORD"
  then show "(vm M, M) \<in> measure (\<lambda>M. M)" "(vn M, M) \<in> measure (\<lambda>M. M)" "(vlast M, M) \<in> measure (\<lambda>M. M)"
    using vshape [of M] by auto
qed simp

declare narrow.simps [simp del]

lemma narrow_parts:
  assumes "WORD < M" and "narrow M"
  shows "narrow (vm M)" "narrow (bM M i)"
  using assms narrow.simps [of M] by (simp_all add: bM_def)

definition pred_result :: "nat set \<Rightarrow> nat \<Rightarrow> nat \<Rightarrow> nat result \<Rightarrow> bool" where
  "pred_result S M x r \<longleftrightarrow> (case r of Inl e \<Rightarrow> e = UndefinedShift \<and> \<not> narrow M
     | Inr y \<Rightarrow> if x < M then is_pred S M x y else y = M)"

definition pred_ok :: "nat \<Rightarrow> bool" where
  "pred_ok M \<longleftrightarrow>
     (\<forall>T mem x. tree T \<and> vM T = M \<and> vinv mem (vD T) M \<and> x < 2 ^ 32 \<longrightarrow>
       (\<exists>r. vebpred mem T x = Some r \<and> pred_result (vset mem (vD T) M) M x r))"

lemma pred_okD:
  assumes "pred_ok (vM T)" and "tree T" and "vinv mem (vD T) (vM T)" and "x < 2 ^ 32"
  obtains r where "vebpred mem T x = Some r" "pred_result (vset mem (vD T) (vM T)) (vM T) x r"
  using assms unfolding pred_ok_def by blast

lemma leaf_pred:
  assumes "tree T" and "vM T \<le> WORD" and "vinv mem (vD T) (vM T)"
  shows "\<exists>r. vebpred mem T x = Some r \<and> pred_result (vset mem (vD T) (vM T)) (vM T) x r"
proof -
  let ?S = "vset mem (vD T) (vM T)" and ?d = "veb_decode mem (vD T) (bytes (vM T))"
  note rd = tree_reads [OF assms(1,3)]
  have S: "?S = {z. bit ?d z}" using assms(2) by (simp add: vset.simps)
  consider "?S = {} \<or> x < low mem T \<or> vM T \<le> x" | "?S \<noteq> {}" "low mem T \<le> x" "x < vM T" "WORD \<le> x + 1"
    | "?S \<noteq> {}" "low mem T \<le> x" "x < vM T" "x + 1 < WORD" by linarith
  then show ?thesis
  proof cases
    case 1
    then have "vebpred mem T x = Some (Inr (vM T))" using rd(1) by (subst vebpred.simps) auto
    moreover have "is_pred ?S (vM T) x (vM T)" if "x < vM T"
      using 1 that rd(3) by (fastforce simp: is_pred_def)
    ultimately show ?thesis by (auto simp: pred_result_def)
  next
    case 2
    then have "vM T = WORD" using assms(2) by linarith
    then have "\<not> narrow (vM T)" by (simp add: narrow.simps)
    moreover have "vebpred mem T x = Some (Inl UndefinedShift)"
      using 2 rd(1) assms(2) by (subst vebpred.simps) (simp add: Let_def)
    ultimately show ?thesis by (auto simp: pred_result_def)
  next
    case 3
    then have lo: "low mem T \<in> ?S" using rd(2) by auto
    have d: "z < 32" if "bit ?d z" for z
      using vset_less [OF assms(3), of z] that assms(2) S by (simp add: WORD_def)
    let ?y = "unat ((of_nat ?d :: uint32) AND ones (x + 1))"
    have y: "bit ?y z \<longleftrightarrow> bit ?d z \<and> z \<le> x" for z
      using d by (auto simp: bit_unsigned_iff bit_and_iff ones_def zeros_def bit_push_bit_iff bit_not_iff bit_mask_iff
          bit_of_nat_uint32)
    have "bit ?y (low mem T)" using lo S y 3 by simp
    then have "0 < ?y" by (metis bit_0_eq bot_nat_0.not_eq_extremum bot_apply bot_bool_def)
    moreover from this have "is_pred ?S (vM T) x (fls ?y - 1)" using bit_fls [of ?y] y S by (auto simp: is_pred_def)
    moreover have "vebpred mem T x = Some (Inr (if 0 < ?y then fls ?y - 1 else vM T))"
      using 3 rd(1) assms(2) by (subst vebpred.simps) (simp add: Let_def)
    ultimately show ?thesis using 3 by (simp add: pred_result_def)
  qed
qed

lemma uint_pred_eq: "uint_pred 0 = 2 ^ 32 - 1" "0 < x \<Longrightarrow> x \<le> 2 ^ 32 \<Longrightarrow> uint_pred x = x - 1"
proof -
  show "uint_pred 0 = 2 ^ 32 - 1" by (simp add: uint_pred_def)
  assume x: "0 < x" "x \<le> 2 ^ 32"
  then have "x + 2 ^ 32 - 1 = x - 1 + 2 ^ 32" by simp
  then have "uint_pred x = (x - 1) mod 2 ^ 32" unfolding uint_pred_def by (simp only: mod_add_self2)
  then show "uint_pred x = x - 1" using x by simp
qed

lemma node_pred:
  assumes D_eq: "vD T = D" and M_eq: "vM T = M" and T: "tree T" and M: "WORD < M"
    and IH: "\<forall>M' < M. pred_ok M'" and iv: "vinv mem D M"
  shows "\<exists>r. vebpred mem T x = Some r \<and> pred_result (vset mem D M) M x r"
proof -
  let ?lo = "hlo mem D M" and ?hi = "hhi mem D M" and ?n = "vn M"
  note tp = tree_parts [OF T, unfolded D_eq M_eq, OF M]
  note rd = tree_reads [OF T, unfolded D_eq M_eq, OF iv]
  have M32: "M < 2 ^ 32" using T M_eq by (simp add: tree_def)
  note prd = vebpred.simps [of mem T x, unfolded M_eq tp(7,9-11) Let_def]
  show ?thesis
  proof (cases "vset mem D M = {} \<or> x < ?lo \<or> M \<le> x")
    case True
    then have "vebpred mem T x = Some (Inr M)" unfolding prd using rd(1) by auto
    moreover have "\<forall>z \<in> vset mem D M. x < z" if "x < M" using True that rd(3) by (fastforce simp: tp)
    ultimately show ?thesis by (auto simp: is_pred_def pred_result_def)
  next
    case False
    then have ne: "\<not> veb_empty mem T" "?lo \<le> x" "x < M" and le: "?lo \<le> ?hi" using rd by (auto simp: tp)
    note nv = node_view [OF D_eq M_eq T M iv le]
    have x32: "x < 2 ^ 32" using ne(3) M32 by simp
    note ra = tree_reads [OF tp(3), unfolded tp(1,2), OF nv(7)]
    note rb = tree_reads [OF tp(6), unfolded tp(4,5), OF nv(6)]
    let ?i = "x div ?n" and ?j = "x mod ?n"
    consider "?hi \<le> x" | "x < ?hi" "aset mem D M = {} \<or> x = ?lo" | "?lo < x" "x < ?hi" "aset mem D M \<noteq> {}"
      using ne(2) by linarith
    then show ?thesis
    proof cases
      case 1
      then have "vebpred mem T x = Some (Inr ?hi)" unfolding prd using ne M by simp
      moreover have "is_pred (vset mem D M) M x ?hi" using 1 rd(3) by (auto simp: is_pred_def nv(1) tp)
      ultimately show ?thesis using ne(3) by (auto simp: pred_result_def)
    next
      case 2
      then have "vebpred mem T x = Some (Inr ?lo)" unfolding prd using ne M ra(1) by auto
      moreover have "is_pred (vset mem D M) M x ?lo"
        using 2 ne(2) nv(2,3) unfolding is_pred_def nv(1) by fastforce
      ultimately show ?thesis using ne(3) by (auto simp: pred_result_def)
    next
      case 3
      have i: "?i < vm M" "?j < bM M ?i" using branch_index [OF M ne(3)] by simp_all
      note rbi = rb [OF i(1)]
      show ?thesis
      proof (cases "bset mem D M ?i \<noteq> {} \<and> low mem (veb_branch T ?i) \<le> ?j")
        case True
        have "?j < 2 ^ 32" using x32 mod_less_eq_dividend [of x ?n] by linarith
        then obtain r where r: "vebpred mem (veb_branch T ?i) ?j = Some r" "pred_result (bset mem D M ?i) (bM M ?i) ?j r"
          using pred_okD [of "veb_branch T ?i" mem ?j] IH bM_less [OF M] tp(4-6) nv(6) [OF i(1)] by metis
        have "vebpred mem T x = Some (bind_result r (\<lambda>y. Inr (?i * ?n + y)))"
          unfolding prd using ne M 3 ra(1) rbi(1) True r(1) tp(8) [OF x32] by simp
        moreover have "is_pred (vset mem D M) M x (?i * ?n + y)" if "is_pred (bset mem D M ?i) (bM M ?i) ?j y" for y
          using pred_in_branch [OF nv(8) 3(1,2) _ that] True i(1) rbi(2) nv(4) by blast
        ultimately show ?thesis using r(2) i(2) ne(3) narrow_parts(2) [OF M]
          by (auto simp: pred_result_def split: sum.splits)
      next
        case False
        have "uint_pred ?i < 2 ^ 32" by (simp add: uint_pred_def)
        then obtain r where r: "vebpred mem (veb_aux T) (uint_pred ?i) = Some r" "pred_result (aset mem D M) (vm M) (uint_pred ?i) r"
          using pred_okD [of "veb_aux T" mem "uint_pred ?i"] IH vshape(3) [OF M] tp(1-3) nv(7) by metis
        have "vebpred mem T x =
            Some (bind_result r (\<lambda>y. Inr (if y = vm M then ?lo else y * ?n + high mem (veb_branch T y))))"
          unfolding prd using ne M 3 ra(1) rbi(1) False r(1) tp(2) tp(8) [OF x32] by auto
        moreover have "is_pred (vset mem D M) M x (if y = vm M then ?lo else y * ?n + high mem (veb_branch T y))"
          if y: "pred_result (aset mem D M) (vm M) (uint_pred ?i) (Inr y)" for y
        proof (rule pred_before_branch [OF nv(8) 3(1,2)])
          show "?j < z" if "?i \<in> aset mem D M" "z \<in> bset mem D M ?i" for z using False rbi(3) [OF that(2)] that by auto
          show "vm M \<notin> aset mem D M" using nv(4) by simp
          show "high mem (veb_branch T y) \<in> bset mem D M y \<and> (\<forall>z \<in> bset mem D M y. z \<le> high mem (veb_branch T y))"
            if "y \<in> aset mem D M" using rb(2,3) [of y] that nv(4) by blast
          show "if ?i = 0 then y = vm M else is_pred (aset mem D M) (vm M) (?i - 1) y"
          proof (cases "?i = 0")
            case True
            then show ?thesis using y vshape(3) [OF M] M32 by (simp add: pred_result_def uint_pred_eq)
          next
            case False
            then have up: "uint_pred ?i = ?i - 1" using i(1) vshape(3) [OF M] M32 by (intro uint_pred_eq) simp_all
            then show ?thesis using y [unfolded up] False i(1) by (simp add: pred_result_def split: if_splits)
          qed
        qed
        ultimately show ?thesis using r(2) ne(3) narrow_parts(1) [OF M]
          by (auto simp: pred_result_def split: sum.splits)
      qed
    qed
  qed
qed

lemma pred_ok_all: "pred_ok M"
proof (induction M rule: less_induct)
  case (less M)
  have "\<exists>r. vebpred mem T x = Some r \<and> pred_result (vset mem (vD T) M) M x r"
    if T: "tree T" "vM T = M" "vinv mem (vD T) M" for T mem x
    using leaf_pred [of T mem x] node_pred [OF refl T(2,1) _ _ T(3)] T less.IH by (cases "M \<le> WORD") simp_all
  then show ?case unfolding pred_ok_def by blast
qed


end
