(* ===== verification/Veb_Spec.thy ===== *)
theory Veb_Spec
  imports Veb_Ops
begin

text \<open>
  New trees, the size of their blocks, and the interface of the tree for its users, the sets of
  identifiers (\<open>Idset\<close>) and the pool of matchtags (\<open>Tagpool\<close>): the locale \<open>id_space\<close>, interpreted on
  blocks of bytes.
\<close>

subsection \<open>New trees\<close>

definition mk_ok :: "nat \<Rightarrow> bool" where
  "mk_ok M \<longleftrightarrow> (\<forall>T mem. tree T \<and> vM T = M \<longrightarrow> (\<exists>mem'. mkempty mem T = Some mem' \<and> wrote T mem {} mem'))"

lemma mk_okD:
  assumes "mk_ok (vM T)" and "tree T"
  obtains mem' where "mkempty mem T = Some mem'" "vinv mem' (vD T) (vM T)"
    "vset mem' (vD T) (vM T) = {}" "within (vD T) (vebsize (vM T)) mem mem'"
  using assms unfolding mk_ok_def wrote_def by blast

lemma mkempty_branches:
  assumes D_eq: "vD T = D" and M_eq: "vM T = M" and T: "tree T" and M: "WORD < M" and IH: "\<forall>M' < M. mk_ok M'"
    and c: "c \<le> vm M"
  shows "\<exists>mem'. fold_option (\<lambda>i mem. mkempty mem (veb_branch T i)) [0..<c] mem = Some mem' \<and>
    (\<forall>i < c. bset mem' D M i = {} \<and> vinv mem' (boff D M i) (bM M i)) \<and>
    hlo mem' D M = hlo mem D M \<and> hhi mem' D M = hhi mem D M \<and>
    aset mem' D M = aset mem D M \<and> vinv mem' (aoff D M) (vm M) = vinv mem (aoff D M) (vm M) \<and>
    within D (vebsize M) mem mem'"
  using c
proof (induction c)
  case 0
  then show ?case by simp
next
  case (Suc c)
  then obtain mem1 where m1: "fold_option (\<lambda>i mem. mkempty mem (veb_branch T i)) [0..<c] mem = Some mem1"
    "\<And>i. i < c \<Longrightarrow> bset mem1 D M i = {} \<and> vinv mem1 (boff D M i) (bM M i)"
    "hlo mem1 D M = hlo mem D M" "hhi mem1 D M = hhi mem D M" "aset mem1 D M = aset mem D M"
    "vinv mem1 (aoff D M) (vm M) = vinv mem (aoff D M) (vm M)" "within D (vebsize M) mem mem1" by auto
  have tp: "vD (veb_branch T c) = boff D M c" "vM (veb_branch T c) = bM M c" "tree (veb_branch T c)"
    using tree_parts [OF T] M by (simp_all add: D_eq M_eq)
  have cm: "c < vm M" using Suc.prems by simp
  obtain mem2 where m2: "mkempty mem1 (veb_branch T c) = Some mem2" "vinv mem2 (boff D M c) (bM M c)"
    "bset mem2 D M c = {}" "within (boff D M c) (vebsize (bM M c)) mem1 mem2"
    using mk_okD [of "veb_branch T c" mem1] IH bM_less [OF M] tp by metis
  note bs = branch_step [OF M cm m2(4)]
  have "bset mem2 D M i = {} \<and> vinv mem2 (boff D M i) (bM M i)" if "i < Suc c" for i
    using m1(2) [of i] m2(2,3) bs(5,6) [of i] that cm by (cases "i = c") simp_all
  moreover have "fold_option (\<lambda>i mem. mkempty mem (veb_branch T i)) [0..<Suc c] mem = Some mem2"
    using m1(1) m2(1) by (simp add: fold_option_append)
  moreover have "within D (vebsize M) mem mem2" by (rule within_trans [OF m1(7) branch_in [OF M cm m2(4)]])
  moreover have "hlo mem2 D M = hlo mem D M" "hhi mem2 D M = hhi mem D M" "aset mem2 D M = aset mem D M"
    "vinv mem2 (aoff D M) (vm M) = vinv mem (aoff D M) (vm M)"
    using bs(1-4) unfolding m1(3-6) .
  ultimately show ?case by blast
qed

lemma node_mkempty:
  assumes D_eq: "vD T = D" and M_eq: "vM T = M" and T: "tree T" and M: "WORD < M" and IH: "\<forall>M' < M. mk_ok M'"
  shows "\<exists>mem'. mkempty mem T = Some mem' \<and> wrote T mem {} mem'"
proof -
  note tp = tree_parts [OF T, unfolded D_eq M_eq, OF M] and hw = header_writes [OF T, unfolded D_eq M_eq, OF M]
  have M1: "0 < M" "1 < M" using M by (simp_all add: WORD_def)
  let ?mem = "sethigh (setlow mem T 1) T 0"
  have w: "within D (vebsize M) mem ?mem"
    using header_in [OF M] hw(1) [OF M1(2)] hw(2) [OF M1(1)] within_trans by blast
  have h: "hlo ?mem D M = 1" "hhi ?mem D M = 0" using hw(3) [OF M1(2)] hw(5,6) [OF M1(1)] by simp_all
  obtain mem1 where m1: "mkempty ?mem (veb_aux T) = Some mem1" "vinv mem1 (aoff D M) (vm M)"
    "aset mem1 D M = {}" "within (aoff D M) (vebsize (vm M)) ?mem mem1"
    using mk_okD [of "veb_aux T" ?mem] IH vshape(3) [OF M] tp(1-3) by metis
  obtain mem2 where m2: "fold_option (\<lambda>i mem. mkempty mem (veb_branch T i)) [0..<vm M] mem1 = Some mem2"
    "\<And>i. i < vm M \<Longrightarrow> bset mem2 D M i = {} \<and> vinv mem2 (boff D M i) (bM M i)"
    "hlo mem2 D M = hlo mem1 D M" "hhi mem2 D M = hhi mem1 D M" "aset mem2 D M = aset mem1 D M"
    "vinv mem2 (aoff D M) (vm M)" "within D (vebsize M) mem1 mem2"
    using mkempty_branches [OF D_eq M_eq T M IH order_refl, of mem1] m1(2) by auto
  have hm: "hlo mem2 D M = 1" "hhi mem2 D M = 0" using aux_step(1,2) [OF M m1(4)] m2(3,4) h by simp_all
  have "vinv mem2 D M" unfolding vinv_node [OF M] hm m2(5) m1(3) using m2(2,6) by (auto simp: vnode_ok_def)
  moreover have "vset mem2 D M = {}" unfolding vset_node [OF M] hm by (simp add: vnode_set_def)
  moreover have "within D (vebsize M) mem mem2"
    using w aux_in [OF M m1(4)] m2(7) within_trans by blast
  moreover have "mkempty mem T = Some mem2"
    using M m1(1) m2(1) by (subst mkempty.simps) (simp add: M_eq tp(9) vm_def del: highbits_eq)
  ultimately show ?thesis by (auto simp: wrote_def D_eq M_eq)
qed

lemma mk_ok_all: "mk_ok M"
proof (induction M rule: less_induct)
  case (less M)
  have "\<exists>mem'. mkempty mem T = Some mem' \<and> wrote T mem {} mem'" if T: "tree T" "vM T = M" for T mem
  proof (cases "M \<le> WORD")
    case True
    let ?mem = "veb_encode mem (vD T) (bytes M) 0"
    have "mkempty mem T = Some ?mem" using T True by (subst mkempty.simps) simp
    moreover have "veb_decode ?mem (vD T) (bytes M) = 0"
      using bytes_bounds(2) [of M] True by (intro decode_encode) (simp_all add: WORD_def)
    moreover have "within (vD T) (bytes M) mem ?mem" by (auto simp: within_def veb_encode_at)
    ultimately show ?thesis using T True by (auto simp: wrote_def vset.simps vinv.simps vebsize_leaf)
  next
    case False
    then show ?thesis using node_mkempty [OF refl T(2,1)] less.IH by simp
  qed
  then show ?case unfolding mk_ok_def by blast
qed

lemma fill_all:
  assumes T: "tree T" and "vinv mem (vD T) (vM T)" and "c \<le> vM T"
  shows "\<exists>mem'. fold_option (\<lambda>m mem. vebput mem T m) [0..<c] mem = Some mem' \<and>
    wrote T mem (vset mem (vD T) (vM T) \<union> {..<c}) mem'"
  using assms(3)
proof (induction c)
  case 0
  then show ?case using assms(2) by (simp add: wrote_def)
next
  case (Suc c)
  then obtain mem1 where m1: "fold_option (\<lambda>m mem. vebput mem T m) [0..<c] mem = Some mem1"
    "wrote T mem (vset mem (vD T) (vM T) \<union> {..<c}) mem1" by auto
  then have iv1: "vinv mem1 (vD T) (vM T)" by (simp add: wrote_def)
  obtain mem2 where m2: "vebput mem1 T c = Some mem2" "wrote T mem1 (insert c (vset mem1 (vD T) (vM T))) mem2"
    by (rule put_okD [OF put_ok_all T iv1, of c]) (use Suc.prems in \<open>simp_all add: wrote_def\<close>)
  have "wrote T mem (vset mem (vD T) (vM T) \<union> {..<Suc c}) mem2"
    using m1(2) m2(2) within_trans by (auto simp: wrote_def lessThan_Suc)
  then show ?case using m1(1) m2(1) by (auto simp: fold_option_append)
qed

lemma vebnew_correct:
  assumes "M < 2 ^ 32" and "malloc (vebsize M) = Some mem"
  shows "\<exists>mem' T. vebnew malloc M full = Some (Some mem', T) \<and> tree T \<and> vD T = 0 \<and> vM T = M \<and>
    wrote T mem (if full then {..<M} else {}) mem'"
proof -
  let ?T = "\<lparr>vD = 0, vk = fls (uint_pred M), vM = M\<rparr>"
  have T: "tree ?T" using assms(1) uint_pred_eq(2) [of M] by (simp add: tree_def WORD_def)
  obtain mem1 where m1: "mkempty mem ?T = Some mem1" "wrote ?T mem {} mem1"
    by (rule mk_okD [OF mk_ok_all T, of mem]) (simp add: wrote_def)
  obtain mem2 where "(if full then fold_option (\<lambda>m mem. vebput mem ?T m) [0..<M] mem1 else Some mem1) = Some mem2"
    "wrote ?T mem (if full then {..<M} else {}) mem2"
  proof (cases full)
    case True
    obtain mem2 where "fold_option (\<lambda>m mem. vebput mem ?T m) [0..<M] mem1 = Some mem2"
      "wrote ?T mem1 {..<M} mem2" using fill_all [OF T, of mem1 M] m1(2) by (auto simp: wrote_def)
    then show ?thesis using that [of mem2] True m1(2) within_trans by (auto simp: wrote_def)
  qed (use that m1(2) in simp)
  then show ?thesis using T m1(1) assms(2) by (auto simp: vebnew_def Let_def)
qed

subsection \<open>Size of the block\<close>

lemma vm_lower: "WORD < M \<Longrightarrow> 2 ^ (vbits M - vbits M div 2 - 1) < vm M"
proof -
  assume M: "WORD < M"
  have "0 < vm M - 1" using vshape(2) [OF M] by simp
  then have "2 ^ (vbits (vm M) - 1) \<le> vm M - 1" using fls_bounds by blast
  then show ?thesis using vshape(2) [OF M] unfolding part_bits(2) [OF M] by linarith
qed

lemma few_header_bytes:
  assumes "6 \<le> k"
  shows "8 * bytes k + 4 \<le> 3 * 2 ^ (k - k div 2 - 1)"
proof (cases "k = 6")
  case True
  then show ?thesis by (simp add: bytes_def)
next
  case False
  define a where "a = k - k div 2 - 3"
  have a: "k - k div 2 - 1 = Suc (Suc a)" "k \<le> 2 * a + 6" "1 \<le> a" using assms False unfolding a_def by linarith+
  define p where "p = (2 :: nat) ^ a"
  have "Suc a \<le> p" unfolding p_def by (induction a) auto
  moreover have "8 * bytes k \<le> k + 7" unfolding bytes_def by presburger
  moreover have "3 * (2 :: nat) ^ Suc (Suc a) = 12 * p" by (simp add: p_def)
  ultimately show ?thesis using a(2,3) unfolding a(1) by linarith
qed

lemma vebsize_pow: "3 \<le> e \<Longrightarrow> 4 * vebsize (2 ^ e) + 4 \<le> 2 ^ e"
proof (induction e rule: less_induct)
  case (less e)
  show ?case
  proof (cases "e \<le> 5")
    case True
    then consider "e = 3" | "e = 4" | "e = 5" using less.prems by linarith
    then show ?thesis by cases (simp_all add: vebsize_leaf WORD_def bytes_def)
  next
    case False
    let ?M = "2 ^ e :: nat"
    define h where "h = e div 2"
    have "(2 :: nat) ^ 6 \<le> 2 ^ e" using False by (intro power_increasing) auto
    then have M: "WORD < ?M" by (simp add: WORD_def)
    obtain e' where e': "e = Suc e'" using False by (cases e) auto
    have "fls (?M - 1) = Suc e'" unfolding e' by (rule fls_unique) auto
    then have k: "vbits ?M = e" using e' by simp
    have n: "vn ?M = 2 ^ h" unfolding vn_def k h_def ..
    have he: "e = h + (e - h)" "3 \<le> h" "h < e" "3 \<le> e - h" "e - h < e" using False unfolding h_def by linarith+
    have pw: "?M = 2 ^ (e - h) * 2 ^ h" using he(1) by (metis add.commute power_add)
    have "(?M - 1) div 2 ^ h = 2 ^ (e - h) - 1"
    proof (rule div_nat_eqI)
      have "(2 ^ (e - h) - 1) * 2 ^ h = ?M - 2 ^ h" by (simp add: pw diff_mult_distrib)
      then show "2 ^ h * (2 ^ (e - h) - 1) \<le> ?M - 1" by (simp add: mult.commute diff_le_mono2)
      show "?M - 1 < 2 ^ h * Suc (2 ^ (e - h) - 1)" using pw by (simp add: mult.commute)
    qed
    then have m: "vm ?M = 2 ^ (e - h)" unfolding vm_def n by simp
    have M_eq: "(2 ^ (e - h) - 1) * 2 ^ h + 2 ^ h = ?M" unfolding pw by (simp add: diff_mult_distrib)
    then have l: "vlast ?M = 2 ^ h" unfolding vlast_def m n by linarith
    define v p X where "v = vebsize (2 ^ h)" and "p = (2 :: nat) ^ (e - h - 1)" and "X = 2 * p * v"
    have "e - h = Suc (e - h - 1)" using he(4) by linarith
    then have p: "(2 :: nat) ^ (e - h) = 2 * p" unfolding p_def by (metis power_Suc)
    have "0 < p" by (simp add: p_def)
    then have "v + (2 * p - 1) * v = X" unfolding X_def by (simp add: diff_mult_distrib)
    then have size: "vebsize ?M = 2 * bytes e + vebsize (2 * p) + X"
      using vebsize_node [OF M] unfolding k m n l p v_def by linarith
    have small: "4 * v + 4 \<le> 2 ^ h" "4 * vebsize (2 * p) + 4 \<le> 2 * p"
      using less.IH [of h] less.IH [of "e - h"] he unfolding v_def p by blast+
    then have "2 * p * (4 * v + 4) \<le> 2 * p * 2 ^ h" by (intro mult_le_mono2)
    then have "4 * X + 8 * p \<le> ?M" unfolding pw p X_def by (simp add: algebra_simps)
    moreover have "8 * bytes e + 4 \<le> 3 * p" using few_header_bytes [of e] False by (simp add: h_def p_def)
    ultimately show ?thesis using small(2) unfolding size distrib_left by linarith
  qed
qed

lemma vebsize_bound: "0 < M \<Longrightarrow> 4 * vebsize M \<le> M + 3"
proof (induction M rule: less_induct)
  case (less M)
  show ?case
  proof (cases "M \<le> WORD")
    case True
    then show ?thesis using less.prems unfolding vebsize_leaf [OF True] bytes_def WORD_def by presburger
  next
    case False
    then have M: "WORD < M" by simp
    define h where "h = vbits M div 2"
    define m b s l v X where defs: "m = vm M" "b = bytes (vbits M)" "s = vebsize m" "l = vebsize (vlast M)"
      "v = vebsize (vn M)" "X = (m - 1) * v"
    note sh = vshape [OF M]
    have h: "3 \<le> h" using vbits_ge [OF M] unfolding h_def by linarith
    have n: "vn M = 2 ^ h" by (simp add: vn_def h_def)
    have "4 * s \<le> m + 3" "4 * l \<le> vlast M + 3" unfolding defs using less.IH sh by auto
    moreover have "4 * v + 4 \<le> vn M" using vebsize_pow [OF h] by (simp add: n defs)
    then have "(m - 1) * (4 * v + 4) \<le> (m - 1) * vn M" by (rule mult_le_mono2)
    then have "4 * X + 4 * (m - 1) + vlast M \<le> M" using sh(7) unfolding defs by (simp add: algebra_simps)
    moreover have "8 * b + 7 \<le> 3 * m"
    proof -
      have "8 * b + 4 \<le> 3 * 2 ^ (vbits M - vbits M div 2 - 1)"
        unfolding defs by (rule few_header_bytes [OF vbits_ge [OF M]])
      moreover have "2 ^ (vbits M - vbits M div 2 - 1) + 1 \<le> m" using vm_lower [OF M] unfolding defs by linarith
      ultimately show ?thesis by linarith
    qed
    moreover have "vebsize M = 2 * b + s + X + l" unfolding defs by (rule vebsize_node [OF M])
    moreover have "2 \<le> m" using sh(2) by (simp add: defs)
    ultimately show ?thesis by linarith
  qed
qed

subsection \<open>The interface of the tree\<close>

text \<open>What a user of the tree relies on: a value \<open>v\<close> with a universe \<open>univ v\<close> of identifiers and a set
  \<open>mems v\<close> of those present, which insertion and deletion update and \<open>succ\<close> searches. All three end.\<close>

locale id_space =
  fixes ok :: "'v \<Rightarrow> bool" and univ :: "'v \<Rightarrow> nat" and mems :: "'v \<Rightarrow> nat set"
    and put del :: "'v \<Rightarrow> nat \<Rightarrow> 'v option" and succ :: "'v \<Rightarrow> nat \<Rightarrow> nat option"
  assumes mems_less: "ok v \<Longrightarrow> x \<in> mems v \<Longrightarrow> x < univ v"
    and put_law: "ok v \<Longrightarrow> \<exists>v'. put v x = Some v' \<and> ok v' \<and> univ v' = univ v \<and>
      mems v' = (if x < univ v then insert x (mems v) else mems v)"
    and del_law: "ok v \<Longrightarrow> \<exists>v'. del v x = Some v' \<and> ok v' \<and> univ v' = univ v \<and> mems v' = mems v - {x}"
    and succ_law: "ok v \<Longrightarrow> \<exists>y. succ v x = Some y \<and> is_succ (mems v) (univ v) x y"
begin

lemma finite_mems: "ok v \<Longrightarrow> finite (mems v)"
  by (rule finite_subset [of _ "{..<univ v}"]) (auto intro: mems_less)

lemma put_fold:
  assumes "ok v"
  shows "\<exists>v'. fold_option (\<lambda>x v. put v x) xs v = Some v' \<and> ok v' \<and> univ v' = univ v \<and>
    mems v' = mems v \<union> {x \<in> set xs. x < univ v}"
  using assms
proof (induction xs arbitrary: v)
  case (Cons x xs)
  obtain v1 where v1: "put v x = Some v1" "ok v1" "univ v1 = univ v"
    "mems v1 = (if x < univ v then insert x (mems v) else mems v)"
    using put_law [OF Cons.prems, of x] by blast
  show ?case using Cons.IH [OF v1(2)] v1 by (auto split: if_splits)
qed simp

lemma del_fold:
  assumes "ok v"
  shows "\<exists>v'. fold_option (\<lambda>x v. del v x) xs v = Some v' \<and> ok v' \<and> univ v' = univ v \<and> mems v' = mems v - set xs"
  using assms
proof (induction xs arbitrary: v)
  case (Cons x xs)
  obtain v1 where v1: "del v x = Some v1" "ok v1" "univ v1 = univ v" "mems v1 = mems v - {x}"
    using del_law [OF Cons.prems, of x] by blast
  show ?case using Cons.IH [OF v1(2)] v1 by auto
qed simp

text \<open>A successor search finds its argument exactly if it is there or is the size of the universe.\<close>

lemma succ_self: "ok v \<Longrightarrow> succ v x = Some x \<longleftrightarrow> x \<in> mems v \<or> x = univ v"
  using succ_law [of v x] mems_less [of v] by (fastforce simp: is_succ_def)

lemma succ_end: "ok v \<Longrightarrow> succ v x = Some y \<Longrightarrow> y = univ v \<or> y \<in> mems v"
  using succ_law [of v x] by (auto simp: is_succ_def)

text \<open>The loop over all members: from \<open>i\<close>, to the next after each.\<close>

lemma each_sorted:
  assumes "ok v" and "is_succ (mems v) (univ v) x i"
    and each: "\<And>i s. each i s = (if i < univ v then do { s \<leftarrow> f i s; y \<leftarrow> succ v (i + 1); each y s } else Some s)"
  shows "each i s = fold_option f (sorted_list_of_set {y \<in> mems v. x \<le> y}) s"
  using assms(2)
proof (induction "card {y \<in> mems v. x \<le> y}" arbitrary: x i s)
  case 0
  then have e: "{y \<in> mems v. x \<le> y} = {}" using finite_mems [OF assms(1)] by simp
  then have "i = univ v" using 0(2) by (auto simp: is_succ_def)
  then show ?case unfolding e by (subst each) simp
next
  case (Suc n)
  let ?X = "{y \<in> mems v. x \<le> y}" and ?Y = "{y \<in> mems v. i + 1 \<le> y}"
  have fin: "finite ?X" "finite ?Y" using finite_mems [OF assms(1)] by simp_all
  have "?X \<noteq> {}" using Suc.hyps(2) by (metis card.empty nat.distinct(1))
  then have i: "i \<in> mems v" "x \<le> i" "\<And>z. z \<in> mems v \<Longrightarrow> x \<le> z \<Longrightarrow> i \<le> z"
    using Suc.prems by (auto simp: is_succ_def not_le)
  then have X: "?X = insert i ?Y" by (fastforce simp: Suc_le_eq le_less)
  then have "card ?Y = n" using Suc.hyps(2) fin(2) by simp
  obtain y where y: "succ v (i + 1) = Some y" "is_succ (mems v) (univ v) (i + 1) y" using succ_law [OF assms(1)] by blast
  have "each y s' = fold_option f (sorted_list_of_set ?Y) s'" for s'
    using Suc.hyps(1) [OF \<open>card ?Y = n\<close> [symmetric] y(2)] .
  moreover have "sorted_list_of_set ?X = i # sorted_list_of_set ?Y"
    unfolding X using fin(2) by (simp add: insort_is_Cons)
  ultimately show ?case using mems_less [OF assms(1) i(1)] y(1)
    by (subst each) simp
qed

end

text \<open>A block together with a handle for it, as the C struct \<open>Veb\<close> is used.\<close>

type_synonym vblock = "store \<times> veb"

definition vb_ok :: "vblock \<Rightarrow> bool" where
  "vb_ok v \<longleftrightarrow> tree (snd v) \<and> vinv (fst v) (vD (snd v)) (vM (snd v))"

definition vb_mems :: "vblock \<Rightarrow> nat set" where
  "vb_mems v = vset (fst v) (vD (snd v)) (vM (snd v))"

definition vb_put :: "vblock \<Rightarrow> nat \<Rightarrow> vblock option" where
  "vb_put v x = map_option (\<lambda>mem. (mem, snd v)) (vebput (fst v) (snd v) x)"

definition vb_del :: "vblock \<Rightarrow> nat \<Rightarrow> vblock option" where
  "vb_del v x = map_option (\<lambda>mem. (mem, snd v)) (vebdel (fst v) (snd v) x)"

definition vb_succ :: "vblock \<Rightarrow> nat \<Rightarrow> nat option" where
  "vb_succ v x = vebsucc (fst v) (snd v) x"

lemma vebput_spec:
  assumes "vb_ok v"
  obtains mem' where "vebput (fst v) (snd v) x = Some mem'"
    "wrote (snd v) (fst v) (if x < vM (snd v) then insert x (vb_mems v) else vb_mems v) mem'"
proof (cases "x < vM (snd v)")
  case True
  have "tree (snd v)" "vinv (fst v) (vD (snd v)) (vM (snd v))" using assms by (simp_all add: vb_ok_def)
  from put_okD [OF put_ok_all this True] that True show ?thesis unfolding wrote_def vb_mems_def by metis
next
  case False
  then show ?thesis using that assms by (simp add: vebput_out wrote_def vb_ok_def vb_mems_def)
qed

lemma vebdel_spec:
  assumes "vb_ok v"
  obtains mem' where "vebdel (fst v) (snd v) x = Some mem'" "wrote (snd v) (fst v) (vb_mems v - {x}) mem'"
proof -
  have "tree (snd v)" "vinv (fst v) (vD (snd v)) (vM (snd v))" using assms by (simp_all add: vb_ok_def)
  from del_okD [OF del_ok_all this, of x] that show ?thesis unfolding wrote_def vb_mems_def by metis
qed

interpretation vb: id_space vb_ok "\<lambda>v. vM (snd v)" vb_mems vb_put vb_del vb_succ
proof
  fix v x assume ok: "vb_ok v"
  then show "x \<in> vb_mems v \<Longrightarrow> x < vM (snd v)" using vset_less by (auto simp: vb_ok_def vb_mems_def)
  show "\<exists>v'. vb_put v x = Some v' \<and> vb_ok v' \<and> vM (snd v') = vM (snd v) \<and>
      vb_mems v' = (if x < vM (snd v) then insert x (vb_mems v) else vb_mems v)"
    by (rule vebput_spec [OF ok, of x]) (use ok in \<open>auto simp: vb_put_def wrote_def vb_ok_def vb_mems_def\<close>)
  show "\<exists>v'. vb_del v x = Some v' \<and> vb_ok v' \<and> vM (snd v') = vM (snd v) \<and> vb_mems v' = vb_mems v - {x}"
    by (rule vebdel_spec [OF ok, of x]) (use ok in \<open>auto simp: vb_del_def wrote_def vb_ok_def vb_mems_def\<close>)
  show "\<exists>y. vb_succ v x = Some y \<and> is_succ (vb_mems v) (vM (snd v)) x y"
    using ok succ_okD [OF succ_ok_all, of "snd v" "fst v" x] unfolding vb_succ_def vb_ok_def vb_mems_def by blast
qed

text \<open>Every tree that \<open>vebnew\<close> makes is one.\<close>

lemma vebnew_ok:
  assumes "M < 2 ^ 32" and "malloc (vebsize M) = Some mem"
  shows "\<exists>mem' T. vebnew malloc M full = Some (Some mem', T) \<and> vb_ok (mem', T) \<and> vD T = 0 \<and> vM T = M \<and>
    vb_mems (mem', T) = (if full then {..<M} else {})"
proof -
  obtain mem' T where "vebnew malloc M full = Some (Some mem', T)" "tree T" "vD T = 0" "vM T = M"
    "wrote T mem (if full then {..<M} else {}) mem'"
    using vebnew_correct [where malloc = malloc and mem = mem and full = full, OF assms] by blast
  then show ?thesis by (intro exI [of _ mem'] exI [of _ T]) (simp add: vb_ok_def vb_mems_def wrote_def)
qed

text \<open>A tree on a block of sevens.\<close>

lemma sample_tree:
  assumes "M < 2 ^ 32"
  obtains mem T where "vebnew (\<lambda>n. Some (\<lambda>a. 7)) M full = Some (Some mem, T)" "vb_ok (mem, T)" "vM T = M"
    "vb_mems (mem, T) = (if full then {..<M} else {})"
  using vebnew_ok [where malloc = "\<lambda>n. Some (\<lambda>a. 7)" and mem = "\<lambda>a. 7" and full = full, OF assms refl] by blast

text \<open>The reference for the search: try every integer from \<open>x\<close> on.\<close>

definition ref_succ :: "nat set \<Rightarrow> nat \<Rightarrow> nat \<Rightarrow> nat" where
  "ref_succ S M x = (case find (\<lambda>y. y \<in> S) [x..<M] of Some y \<Rightarrow> y | None \<Rightarrow> M)"

lemma ref_succ_unique:
  assumes "is_succ S M x y" and "\<And>z. z \<in> S \<Longrightarrow> z < M"
  shows "ref_succ S M x = y"
proof (cases "find (\<lambda>y. y \<in> S) [x..<M]")
  case None
  then have "z \<notin> S" if "x \<le> z" for z using assms(2) [of z] that by (auto simp: find_None_iff)
  then show ?thesis using assms(1) None by (auto simp: ref_succ_def is_succ_def)
next
  case (Some z)
  then obtain i where i: "i < length [x..<M]" "[x..<M] ! i \<in> S" "z = [x..<M] ! i" "\<And>j. j < i \<Longrightarrow> [x..<M] ! j \<notin> S"
    by (auto simp: find_Some_iff)
  have below: "w \<notin> S" if "x \<le> w" "w < z" for w using i(1,3) i(4) [of "w - x"] that by auto
  have "z \<in> S" "x \<le> z" using i by auto
  then have "y = z" using assms(1) below by (fastforce simp: is_succ_def)
  then show ?thesis using Some by (simp add: ref_succ_def)
qed

subsection \<open>Properties\<close>

text \<open>C5: \<open>vebput\<close> adds an element. On a tree it ends, the tree stays well formed and stands for the
  set with the element added (an element outside of the universe is ignored), and no byte outside of
  the block of the tree is written.\<close>

theorem vebput_correct:
  assumes "vb_ok (mem, T)"
  shows "\<exists>mem'. vebput mem T x = Some mem' \<and> vb_ok (mem', T) \<and>
    vb_mems (mem', T) = (if x < vM T then insert x (vb_mems (mem, T)) else vb_mems (mem, T)) \<and>
    (\<forall>a. a < vD T \<or> vD T + vebsize (vM T) \<le> a \<longrightarrow> mem' a = mem a)"
  by (rule vebput_spec [OF assms, of x])
    (use assms in \<open>auto simp: wrote_def vb_ok_def vb_mems_def within_def\<close>)

theorem vebput_correct_witness:
  "\<exists>mem T mem'. vebnew (\<lambda>n. Some (\<lambda>a. 7)) 1000 False = Some (Some mem, T) \<and> vebput mem T 77 = Some mem' \<and>
     vb_mems (mem', T) = {77}"
proof -
  obtain mem T where T: "vebnew (\<lambda>n. Some (\<lambda>a. 7)) 1000 False = Some (Some mem, T)" "vb_ok (mem, T)" "vM T = 1000"
    "vb_mems (mem, T) = {}" by (rule sample_tree [of 1000 False]) simp_all
  then show ?thesis using vebput_correct [OF T(2), of 77] by auto
qed

text \<open>C6: \<open>vebdel\<close> removes an element, whatever part of the tree holds it, and likewise writes
  inside of the block only.\<close>

theorem vebdel_correct:
  assumes "vb_ok (mem, T)"
  shows "\<exists>mem'. vebdel mem T x = Some mem' \<and> vb_ok (mem', T) \<and> vb_mems (mem', T) = vb_mems (mem, T) - {x} \<and>
    (\<forall>a. a < vD T \<or> vD T + vebsize (vM T) \<le> a \<longrightarrow> mem' a = mem a)"
  by (rule vebdel_spec [OF assms, of x])
    (use assms in \<open>auto simp: wrote_def vb_ok_def vb_mems_def within_def\<close>)

theorem vebdel_correct_witness:
  "\<exists>mem T mem'. vebnew (\<lambda>n. Some (\<lambda>a. 7)) 1000 True = Some (Some mem, T) \<and> vebdel mem T 77 = Some mem' \<and>
     vb_mems (mem', T) = {..<1000} - {77}"
proof -
  obtain mem T where T: "vebnew (\<lambda>n. Some (\<lambda>a. 7)) 1000 True = Some (Some mem, T)" "vb_ok (mem, T)" "vM T = 1000"
    "vb_mems (mem, T) = {..<1000}" by (rule sample_tree [of 1000 True]) simp_all
  then show ?thesis using vebdel_correct [OF T(2), of 77] by auto
qed

text \<open>C7: \<open>vebsucc\<close>, which descends one branch of the tree, finds what trying every integer from \<open>x\<close>
  on would find.\<close>

theorem vebsucc_equals_scan:
  assumes "vb_ok (mem, T)"
  shows "vebsucc mem T x = Some (ref_succ (vb_mems (mem, T)) (vM T) x)"
proof -
  obtain y where "vb_succ (mem, T) x = Some y" "is_succ (vb_mems (mem, T)) (vM T) x y"
    using vb.succ_law [OF assms, of x] by auto
  then show ?thesis using ref_succ_unique [of "vb_mems (mem, T)" "vM T" x y] vb.mems_less [OF assms]
    by (simp add: vb_succ_def)
qed

theorem vebsucc_equals_scan_witness:
  "\<exists>mem T. vebnew (\<lambda>n. Some (\<lambda>a. 7)) 1000 True = Some (Some mem, T) \<and>
     vebsucc mem T 999 = Some 999 \<and> vebsucc mem T 1000 = Some 1000"
proof -
  obtain mem T where T: "vebnew (\<lambda>n. Some (\<lambda>a. 7)) 1000 True = Some (Some mem, T)" "vb_ok (mem, T)" "vM T = 1000"
    "vb_mems (mem, T) = {..<1000}" by (rule sample_tree [of 1000 True]) simp_all
  then show ?thesis using vebsucc_equals_scan [OF T(2)] by (auto simp: ref_succ_def)
qed

text \<open>C27: \<open>vebpred\<close> finds the largest element up to \<open>x\<close>, or returns the size of the universe if there is
  none, on trees none of whose bitmaps is 32 bits wide.\<close>

theorem vebpred_correct:
  assumes "vb_ok (mem, T)" and "narrow (vM T)" and "x < vM T"
  shows "\<exists>y. vebpred mem T x = Some (Inr y) \<and> is_pred (vb_mems (mem, T)) (vM T) x y"
proof -
  have T: "tree T" "vinv mem (vD T) (vM T)" using assms(1) by (simp_all add: vb_ok_def)
  then have x: "x < 2 ^ 32" using assms(3) by (simp add: tree_def)
  obtain r where "vebpred mem T x = Some r" "pred_result (vset mem (vD T) (vM T)) (vM T) x r"
    by (rule pred_okD [OF pred_ok_all T x])
  then show ?thesis using assms(2,3) by (auto simp: pred_result_def vb_mems_def split: sum.splits)
qed

theorem vebpred_correct_witness:
  "\<exists>mem T. vebnew (\<lambda>n. Some (\<lambda>a. 7)) 64 True = Some (Some mem, T) \<and> vebpred mem T 63 = Some (Inr 63)"
proof -
  obtain mem T where T: "vebnew (\<lambda>n. Some (\<lambda>a. 7)) 64 True = Some (Some mem, T)" "vb_ok (mem, T)" "vM T = 64"
    "vb_mems (mem, T) = {..<64}" by (rule sample_tree [of 64 True]) simp_all
  have "narrow 64" by code_simp
  then obtain y where "vebpred mem T 63 = Some (Inr y)" "is_pred {..<64} 64 63 y"
    using vebpred_correct [OF T(2), of 63] T by auto
  moreover have "63 \<in> {..<64 :: nat}" by simp
  then have "y = 63" using calculation(2) unfolding is_pred_def by fastforce
  ultimately show ?thesis using T(1) by blast
qed

text \<open>An instance of the exception: on a bitmap of 32 bits, \<open>vebpred\<close> shifts a 32-bit integer by 32 when it is asked about the
  last element, which C leaves undefined.\<close>

lemma vebpred_undefined_shift:
  "vebpred (\<lambda>a. if a = 0 then 1 else 0) \<lparr>vD = 0, vk = 5, vM = 32\<rparr> 31 = Some (Inl UndefinedShift)"
  by (subst vebpred.simps)
    (simp add: Let_def veb_empty_def low_def veb_decode_def WORD_def bytes_def upt_rec ctz.simps [of "Suc 0"])

text \<open>C28: the block of a tree of \<open>M\<close> elements has at most about \<open>M/4\<close> bytes, so that neither its size nor
  an offset into it leaves the range of a 32-bit integer.\<close>

theorem vebsize_fits:
  assumes "0 < M"
  shows "4 * vebsize M \<le> M + 3"
  by (rule vebsize_bound [OF assms])

theorem vebsize_fits_witness: "4 * vebsize 4294967295 \<le> 4294967298"
  using vebsize_fits [of 4294967295] by simp

end
