(* ===== verification/Idset.thy ===== *)
theory Idset
  imports Veb_Spec
begin

text \<open>
  Sets of identifiers, \<^verbatim>\<open>src/common/libidset\<close>: a van Emde Boas tree that doubles in size when an
  identifier does not fit (\<^verbatim>\<open>idset.c\<close>), its textual form with optional ranges and brackets
  (\<^verbatim>\<open>idset_encode.c\<close>), and the parser of that form (\<^verbatim>\<open>idset_decode.c\<close>).

  An identifier is an \<open>unsigned int\<close>, here a natural number below \<open>2^32\<close>. A result is in two layers: the
  outer \<open>None\<close> is a call that does not return, the inner \<open>Inl\<close> an error. Allocation is the argument
  \<open>malloc\<close>, as for the tree; the strings of the encoder are allocated if
  another argument, \<open>alloc\<close>, allows their size.
\<close>

unbundle bit_operations_syntax

subsection \<open>Sets of identifiers: idset.c\<close>

record idset =
  idT :: vblock
  id_flags :: int

definition IDSET_FLAG_AUTOGROW :: int where "IDSET_FLAG_AUTOGROW = 1"

definition IDSET_FLAG_BRACKETS :: int where "IDSET_FLAG_BRACKETS = 2"

definition IDSET_FLAG_RANGE :: int where "IDSET_FLAG_RANGE = 4"

definition IDSET_DEFAULT_SIZE :: nat where "IDSET_DEFAULT_SIZE = 1024"

definition UINT_MAX :: nat where "UINT_MAX = 2 ^ 32 - 1"

definition IDSET_INVALID_ID :: nat where "IDSET_INVALID_ID = UINT_MAX - 1"

definition sizeof_idset :: nat where "sizeof_idset = 24"

abbreviation idM :: "idset \<Rightarrow> nat" where
  "idM s \<equiv> vM (snd (idT s))"

definition validate_idset_flags :: "int \<Rightarrow> int \<Rightarrow> unit result" where
  "validate_idset_flags flags allowed = (if flags AND allowed \<noteq> flags then Inl EINVAL else Inr ())"

definition idset_create :: "(nat \<Rightarrow> store option) \<Rightarrow> nat \<Rightarrow> int \<Rightarrow> idset result option" where
  "idset_create malloc sz flags =
     (case validate_idset_flags flags IDSET_FLAG_AUTOGROW of
        Inl e \<Rightarrow> Some (Inl e)
      | Inr _ \<Rightarrow>
          let sz = (if sz = 0 then IDSET_DEFAULT_SIZE else sz)
          in if malloc sizeof_idset = None then Some (Inl ENOMEM)
             else do {
               r \<leftarrow> vebnew malloc (sz mod 2 ^ 32) False;
               Some (case r of
                       (None, _) \<Rightarrow> Inl ENOMEM
                     | (Some mem, T) \<Rightarrow> Inr \<lparr>idT = (mem, T), id_flags = flags\<rparr>)
             })"

definition vebdup :: "(nat \<Rightarrow> store option) \<Rightarrow> vblock \<Rightarrow> store option \<times> veb" where
  "vebdup malloc v =
     (let sz = vebsize (vM (snd v))
      in case malloc sz of
           None \<Rightarrow> (None, snd v)
         | Some mem \<Rightarrow> (Some (\<lambda>a. if a < sz then fst v (vD (snd v) + a) else mem a), (snd v)\<lparr>vD := 0\<rparr>))"

definition idset_copy :: "(nat \<Rightarrow> store option) \<Rightarrow> idset option \<Rightarrow> idset result" where
  "idset_copy malloc idset =
     (case idset of
        None \<Rightarrow> Inl EINVAL
      | Some s \<Rightarrow>
          if malloc sizeof_idset = None then Inl ENOMEM
          else case vebdup malloc (idT s) of
                 (None, _) \<Rightarrow> Inl ENOMEM
               | (Some mem, T) \<Rightarrow> Inr \<lparr>idT = (mem, T), id_flags = id_flags s\<rparr>)"

definition valid_id :: "nat \<Rightarrow> bool" where
  "valid_id i \<longleftrightarrow> \<not> (i = UINT_MAX \<or> i = IDSET_INVALID_ID)"

text \<open>The sizes of \<open>idset_grow\<close> have type \<open>size_t\<close>, of 64 bits.\<close>

partial_function (option) grow_loop :: "nat \<Rightarrow> nat \<Rightarrow> nat option" where
  "grow_loop newsize sz = (if newsize < sz then grow_loop (newsize * 2 mod 2 ^ 64) sz else Some newsize)"

partial_function (option) copy_ids :: "vblock \<Rightarrow> nat \<Rightarrow> vblock \<Rightarrow> vblock option" where
  "copy_ids old i T =
     (if i < vM (snd old) then do {
        T \<leftarrow> vb_put T i;
        y \<leftarrow> vb_succ old (i + 1);
        copy_ids old y T
      } else Some T)"

definition idset_grow :: "(nat \<Rightarrow> store option) \<Rightarrow> idset \<Rightarrow> nat \<Rightarrow> idset result option" where
  "idset_grow malloc s sz = do {
     newsize \<leftarrow> grow_loop (idM s) sz;
     if idM s < newsize then
       if id_flags s AND IDSET_FLAG_AUTOGROW = 0 then Some (Inl EINVAL)
       else do {
         r \<leftarrow> vebnew malloc (newsize mod 2 ^ 32) False;
         case r of
           (None, _) \<Rightarrow> Some (Inl ENOMEM)
         | (Some mem, T) \<Rightarrow> do {
             i \<leftarrow> vb_succ (idT s) 0;
             T \<leftarrow> copy_ids (idT s) i (mem, T);
             Some (Inr (s\<lparr>idT := T\<rparr>))
           }
       }
     else Some (Inr s)
   }"

definition idset_set :: "(nat \<Rightarrow> store option) \<Rightarrow> idset option \<Rightarrow> nat \<Rightarrow> idset result option" where
  "idset_set malloc idset i =
     (case idset of
        None \<Rightarrow> Some (Inl EINVAL)
      | Some s \<Rightarrow>
          if \<not> valid_id i then Some (Inl EINVAL)
          else do {
            r \<leftarrow> idset_grow malloc s ((i + 1) mod 2 ^ 32);
            case r of
              Inl e \<Rightarrow> Some (Inl e)
            | Inr s \<Rightarrow> do { T \<leftarrow> vb_put (idT s) i; Some (Inr (s\<lparr>idT := T\<rparr>)) }
          })"

definition normalize_range :: "nat \<Rightarrow> nat \<Rightarrow> nat \<times> nat" where
  "normalize_range lo hi = (if hi < lo then (hi, lo) else (lo, hi))"

definition idset_range_set :: "(nat \<Rightarrow> store option) \<Rightarrow> idset option \<Rightarrow> nat \<Rightarrow> nat \<Rightarrow> idset result option" where
  "idset_range_set malloc idset lo hi =
     (case idset of
        None \<Rightarrow> Some (Inl EINVAL)
      | Some s \<Rightarrow>
          if \<not> valid_id lo \<or> \<not> valid_id hi then Some (Inl EINVAL)
          else
            let (lo, hi) = normalize_range lo hi
            in do {
              r \<leftarrow> idset_grow malloc s ((hi + 1) mod 2 ^ 32);
              case r of
                Inl e \<Rightarrow> Some (Inl e)
              | Inr s \<Rightarrow> do {
                  T \<leftarrow> fold_option (\<lambda>i T. vb_put T i) [lo..<hi + 1] (idT s);
                  Some (Inr (s\<lparr>idT := T\<rparr>))
                }
            })"

definition idset_clear :: "idset option \<Rightarrow> nat \<Rightarrow> idset result option" where
  "idset_clear idset i =
     (case idset of
        None \<Rightarrow> Some (Inl EINVAL)
      | Some s \<Rightarrow>
          if \<not> valid_id i then Some (Inl EINVAL)
          else do { T \<leftarrow> vb_del (idT s) i; Some (Inr (s\<lparr>idT := T\<rparr>)) })"

definition idset_range_clear :: "idset option \<Rightarrow> nat \<Rightarrow> nat \<Rightarrow> idset result option" where
  "idset_range_clear idset lo hi =
     (case idset of
        None \<Rightarrow> Some (Inl EINVAL)
      | Some s \<Rightarrow>
          if \<not> valid_id lo \<or> \<not> valid_id hi then Some (Inl EINVAL)
          else
            let (lo, hi) = normalize_range lo hi
            in do {
              T \<leftarrow> fold_option (\<lambda>i T. vb_del T i) [lo..<min (hi + 1) (idM s)] (idT s);
              Some (Inr (s\<lparr>idT := T\<rparr>))
            })"

definition idset_test :: "idset option \<Rightarrow> nat \<Rightarrow> bool option" where
  "idset_test idset i =
     (case idset of
        None \<Rightarrow> Some False
      | Some s \<Rightarrow>
          if \<not> valid_id i then Some False
          else do { y \<leftarrow> vb_succ (idT s) i; Some (y = i) })"

definition idset_first :: "idset option \<Rightarrow> nat option" where
  "idset_first idset =
     (case idset of
        None \<Rightarrow> Some IDSET_INVALID_ID
      | Some s \<Rightarrow> do { y \<leftarrow> vb_succ (idT s) 0; Some (if y = idM s then IDSET_INVALID_ID else y) })"

definition idset_next :: "idset option \<Rightarrow> nat \<Rightarrow> nat option" where
  "idset_next idset prev =
     (case idset of
        None \<Rightarrow> Some IDSET_INVALID_ID
      | Some s \<Rightarrow> do {
          y \<leftarrow> vb_succ (idT s) ((prev + 1) mod 2 ^ 32);
          Some (if y = idM s then IDSET_INVALID_ID else y)
        })"

partial_function (option) count_loop :: "vblock \<Rightarrow> nat \<Rightarrow> nat \<Rightarrow> nat option" where
  "count_loop T i c =
     (if i < vM (snd T) then do { y \<leftarrow> vb_succ T (i + 1); count_loop T y (c + 1) } else Some c)"

definition idset_count :: "idset option \<Rightarrow> nat option" where
  "idset_count idset =
     (case idset of
        None \<Rightarrow> Some 0
      | Some s \<Rightarrow> do { i \<leftarrow> vb_succ (idT s) 0; count_loop (idT s) i 0 })"

subsection \<open>The textual form: idset_encode.c\<close>

text \<open>The string under construction: \<open>NULL\<close> or its characters, the size of its buffer and its
  length.\<close>

record strbuf =
  sb_str :: "cstring option"
  sb_sz :: nat
  sb_len :: nat

definition IDSET_ENCODE_CHUNK :: nat where "IDSET_ENCODE_CHUNK = 1024"

text \<open>\<open>alloc n\<close> tells whether \<open>realloc\<close>, \<open>vasprintf\<close> and \<open>strdup\<close> get \<open>n\<close> bytes.\<close>

function cat_grow :: "(nat \<Rightarrow> bool) \<Rightarrow> nat \<Rightarrow> strbuf \<Rightarrow> strbuf result" where
  "cat_grow alloc nlen b =
     (if sb_sz b < sb_len b + nlen + 1 then
        let nsz = sb_sz b + IDSET_ENCODE_CHUNK
        in if \<not> alloc nsz then Inl ENOMEM
           else cat_grow alloc nlen
             (b\<lparr>sb_str := (case sb_str b of None \<Rightarrow> Some [] | Some s \<Rightarrow> Some s), sb_sz := nsz\<rparr>)
      else Inr b)"
  by pat_completeness auto
termination
  by (relation "measure (\<lambda>(r, n, b). sb_len b + n + 1 - sb_sz b)") (auto simp: IDSET_ENCODE_CHUNK_def)

declare cat_grow.simps [simp del]

text \<open>The string that \<open>vasprintf\<close> made is appended with \<open>strcat\<close>; on a null pointer that is undefined.\<close>

definition catprintf :: "(nat \<Rightarrow> bool) \<Rightarrow> strbuf \<Rightarrow> cstring \<Rightarrow> strbuf result" where
  "catprintf alloc b ns =
     (if \<not> alloc (length ns + 1) then Inl ENOMEM
      else bind_result (cat_grow alloc (length ns) b) (\<lambda>b.
        case sb_str b of
          None \<Rightarrow> Inl OutOfBounds
        | Some s \<Rightarrow> Inr (b\<lparr>sb_str := Some (s @ ns), sb_len := sb_len b + length ns\<rparr>)))"

definition catrange :: "(nat \<Rightarrow> bool) \<Rightarrow> strbuf \<Rightarrow> nat \<Rightarrow> nat \<Rightarrow> cstring \<Rightarrow> strbuf result" where
  "catrange alloc b lo hi sep =
     (if lo = hi then catprintf alloc b (dec lo @ sep)
      else catprintf alloc b (dec lo @ [45] @ dec hi @ sep))"

definition INT_MAX :: nat where "INT_MAX = 2 ^ 31 - 1"

record rangestate =
  rs_buf :: strbuf
  rs_lo :: nat
  rs_hi :: nat
  rs_first :: bool
  rs_count :: nat

definition ranged_step :: "(nat \<Rightarrow> bool) \<Rightarrow> nat \<Rightarrow> bool \<Rightarrow> rangestate \<Rightarrow> rangestate result" where
  "ranged_step alloc i is_last st =
     bind_result
       (if rs_first st then Inr (st\<lparr>rs_first := False\<rparr>)
        else if i = rs_hi st + 1 then Inr (st\<lparr>rs_hi := rs_hi st + 1\<rparr>)
        else bind_result (catrange alloc (rs_buf st) (rs_lo st) (rs_hi st) [44])
               (\<lambda>b. Inr (st\<lparr>rs_buf := b, rs_lo := i, rs_hi := i\<rparr>)))
       (\<lambda>st. bind_result
          (if is_last then catrange alloc (rs_buf st) (rs_lo st) (rs_hi st) [] else Inr (rs_buf st))
          (\<lambda>b. Inr (st\<lparr>rs_buf := b, rs_count := (if rs_count st < INT_MAX then rs_count st + 1 else rs_count st)\<rparr>)))"

partial_function (option) ranged_loop :: "(nat \<Rightarrow> bool) \<Rightarrow> vblock \<Rightarrow> nat \<Rightarrow> rangestate \<Rightarrow> rangestate result option" where
  "ranged_loop alloc T i st =
     (if i < vM (snd T) then do {
        y \<leftarrow> vb_succ T (i + 1);
        case ranged_step alloc i (y = vM (snd T)) st of
          Inl e \<Rightarrow> Some (Inl e)
        | Inr st \<Rightarrow> ranged_loop alloc T y st
      } else Some (Inr st))"

definition encode_ranged :: "(nat \<Rightarrow> bool) \<Rightarrow> idset \<Rightarrow> strbuf \<Rightarrow> (strbuf \<times> nat) result option" where
  "encode_ranged alloc s b = do {
     i \<leftarrow> vb_succ (idT s) 0;
     r \<leftarrow> ranged_loop alloc (idT s) i \<lparr>rs_buf = b, rs_lo = i, rs_hi = i, rs_first = True, rs_count = 0\<rparr>;
     Some (bind_result r (\<lambda>st. Inr (rs_buf st, rs_count st)))
   }"

text \<open>\<open>%d\<close> prints the identifier as a signed integer.\<close>

definition sdec :: "nat \<Rightarrow> cstring" where
  "sdec i = (if i \<le> INT_MAX then dec i else 45 # dec (2 ^ 32 - i))"

definition simple_step :: "(nat \<Rightarrow> bool) \<Rightarrow> nat \<Rightarrow> bool \<Rightarrow> strbuf \<times> nat \<Rightarrow> (strbuf \<times> nat) result" where
  "simple_step alloc i is_last st =
     bind_result (catprintf alloc (fst st) (sdec i @ (if is_last then [] else [44])))
       (\<lambda>b. Inr (b, if snd st < INT_MAX then snd st + 1 else snd st))"

partial_function (option) simple_loop :: "(nat \<Rightarrow> bool) \<Rightarrow> vblock \<Rightarrow> nat \<Rightarrow> strbuf \<times> nat \<Rightarrow> (strbuf \<times> nat) result option" where
  "simple_loop alloc T i st =
     (if i \<noteq> vM (snd T) then do {
        y \<leftarrow> vb_succ T (i + 1);
        case simple_step alloc i (y = vM (snd T)) st of
          Inl e \<Rightarrow> Some (Inl e)
        | Inr st \<Rightarrow> simple_loop alloc T y st
      } else Some (Inr st))"

definition encode_simple :: "(nat \<Rightarrow> bool) \<Rightarrow> idset \<Rightarrow> strbuf \<Rightarrow> (strbuf \<times> nat) result option" where
  "encode_simple alloc s b = do { i \<leftarrow> vb_succ (idT s) 0; simple_loop alloc (idT s) i (b, 0) }"

definition idset_encode :: "(nat \<Rightarrow> bool) \<Rightarrow> idset option \<Rightarrow> int \<Rightarrow> cstring result option" where
  "idset_encode alloc idset flags =
     (case validate_idset_flags flags (IDSET_FLAG_BRACKETS OR IDSET_FLAG_RANGE) of
        Inl e \<Rightarrow> Some (Inl e)
      | Inr _ \<Rightarrow>
          (case idset of
             None \<Rightarrow> Some (Inl EINVAL)
           | Some s \<Rightarrow>
               let brackets = (flags AND IDSET_FLAG_BRACKETS \<noteq> 0);
                   b0 = \<lparr>sb_str = None, sb_sz = 0, sb_len = 0\<rparr>
               in case (if brackets then catprintf alloc b0 [91] else Inr b0) of
                    Inl e \<Rightarrow> Some (Inl ENOMEM)
                  | Inr b1 \<Rightarrow> do {
                      r \<leftarrow> (if flags AND IDSET_FLAG_RANGE \<noteq> 0 then encode_ranged alloc s b1 else encode_simple alloc s b1);
                      Some (case r of
                        Inl e \<Rightarrow> Inl ENOMEM
                      | Inr (b2, c) \<Rightarrow>
                          (case (if brackets \<and> 1 < c then catprintf alloc b2 [93] else Inr b2) of
                             Inl e \<Rightarrow> Inl ENOMEM
                           | Inr b3 \<Rightarrow>
                               if sb_str b3 = None \<and> \<not> alloc 1 then Inl ENOMEM
                               else let str = (case sb_str b3 of None \<Rightarrow> [] | Some str \<Rightarrow> str)
                               in Inr (if c \<le> 1 \<and> str \<noteq> [] \<and> hd str = 91 then tl str else str)))
                    }))"

subsection \<open>Parsing: idset_decode.c\<close>

text \<open>\<open>strtoul\<close> in base 10 skips white space, reads an optional sign and digits, and returns the value
  and the rest of the string; without digits the rest is the whole string. The value of a number too
  large is the largest \<open>unsigned long\<close>, a minus sign negates modulo \<open>2^64\<close>.\<close>

definition c_isspace :: "byte \<Rightarrow> bool" where
  "c_isspace c \<longleftrightarrow> c = 32 \<or> 9 \<le> c \<and> c \<le> 13"

definition c_isdigit :: "byte \<Rightarrow> bool" where
  "c_isdigit c \<longleftrightarrow> 48 \<le> c \<and> c \<le> 57"

definition ULONG_MAX :: nat where "ULONG_MAX = 2 ^ 64 - 1"

definition strtoul :: "cstring \<Rightarrow> nat \<times> cstring" where
  "strtoul s =
     (let s1 = dropWhile c_isspace s;
          neg = (s1 \<noteq> [] \<and> hd s1 = 45);
          s2 = (if s1 \<noteq> [] \<and> (hd s1 = 45 \<or> hd s1 = 43) then tl s1 else s1);
          ds = takeWhile c_isdigit s2;
          n = undec ds
      in if ds = [] then (0, s)
         else (if ULONG_MAX < n then ULONG_MAX else if neg then (2 ^ 64 - n) mod 2 ^ 64 else n,
               dropWhile c_isdigit s2))"

definition parse_range :: "cstring \<Rightarrow> (nat \<times> nat) option" where
  "parse_range s =
     (let (n, rest) = strtoul s
      in if UINT_MAX \<le> n \<or> rest = s \<or> (rest \<noteq> [] \<and> hd rest \<noteq> 45) then None
         else if rest = [] then Some (n, n)
         else
           let s' = tl rest; (h, rest') = strtoul s'
           in if UINT_MAX \<le> h \<or> rest' = s' \<or> rest' \<noteq> [] then None
              else Some (if n \<le> h then (h, n) else (n, h)))"

definition trim_brackets :: "cstring \<Rightarrow> cstring" where
  "trim_brackets s =
     (let p = (if s \<noteq> [] \<and> hd s = 91 then tl s else s)
      in if 0 < length p \<and> last p = 93 then butlast p else p)"

text \<open>\<open>strtok_r\<close> with the delimiter comma: the next token and what is left.\<close>

definition strtok_r :: "cstring \<Rightarrow> (cstring \<times> cstring) option" where
  "strtok_r s =
     (let s1 = dropWhile (\<lambda>c. c = 44) s
      in if s1 = [] then None
         else Some (takeWhile (\<lambda>c. c \<noteq> 44) s1, tl (dropWhile (\<lambda>c. c \<noteq> 44) s1)))"

text \<open>Identifiers are set from the largest to the smallest.\<close>

fun set_ids :: "(nat \<Rightarrow> store option) \<Rightarrow> nat list \<Rightarrow> idset \<Rightarrow> idset result option" where
  "set_ids malloc [] s = Some (Inr s)"
| "set_ids malloc (i # is) s = do {
     r \<leftarrow> idset_set malloc (Some s) i;
     case r of Inl e \<Rightarrow> Some (Inl e) | Inr s \<Rightarrow> set_ids malloc is s
   }"

lemma strtok_r_shorter:
  assumes "strtok_r s = Some (tok, rest)"
  shows "length rest < length s"
proof -
  let ?s1 = "dropWhile (\<lambda>c. c = 44) s"
  have "?s1 \<noteq> []" and rest: "rest = tl (dropWhile (\<lambda>c. c \<noteq> 44) ?s1)"
    using assms by (auto simp: strtok_r_def Let_def split: if_splits)
  then obtain c s2 where s1: "?s1 = c # s2" by (cases ?s1) auto
  have "length rest \<le> length s2"
    using length_dropWhile_le [of "\<lambda>c. c \<noteq> 44" s2] unfolding rest s1 by auto
  also have "\<dots> < length ?s1" by (simp add: s1)
  also have "\<dots> \<le> length s" by (rule length_dropWhile_le)
  finally show ?thesis .
qed

function decode_tokens :: "(nat \<Rightarrow> store option) \<Rightarrow> cstring \<Rightarrow> idset \<Rightarrow> idset result option" where
  "decode_tokens malloc a1 s =
     (case strtok_r a1 of
        None \<Rightarrow> Some (Inr s)
      | Some (tok, rest) \<Rightarrow>
          (case parse_range tok of
             None \<Rightarrow> Some (Inl EINVAL)
           | Some (hi, lo) \<Rightarrow> do {
               r \<leftarrow> set_ids malloc (rev [lo..<hi + 1]) s;
               case r of Inl e \<Rightarrow> Some (Inl e) | Inr s \<Rightarrow> decode_tokens malloc rest s
             }))"
  by pat_completeness auto
termination
  by (relation "measure (\<lambda>(m, a1, s). length a1)") (auto dest: strtok_r_shorter)

declare decode_tokens.simps [simp del]

definition idset_decode :: "(nat \<Rightarrow> store option) \<Rightarrow> cstring option \<Rightarrow> idset result option" where
  "idset_decode malloc str =
     (case str of
        None \<Rightarrow> Some (Inl EINVAL)
      | Some str \<Rightarrow> do {
          r \<leftarrow> idset_create malloc 0 IDSET_FLAG_AUTOGROW;
          case r of
            Inl e \<Rightarrow> Some (Inl e)
          | Inr s \<Rightarrow>
              if malloc (length str + 1) = None then Some (Inl ENOMEM)
              else decode_tokens malloc (trim_brackets str) s
        })"

end
