(* ===== verification/Idset_Spec.thy ===== *)
theory Idset_Spec
  imports Idset
begin

text \<open>
  The sets of identifiers as sets: every operation on the tree of a well-formed set ends and has the
  effect on the members that \<^verbatim>\<open>idset.h\<close> describes, by the laws of \<open>id_space\<close>; the textual form lists the
  members, as ranges or one by one, and reading it gives the same set back. Identifiers of \<open>2^31\<close> and
  more are outside of the theorems but for the last two, which show what goes wrong there and at the
  size of the tree.
\<close>

subsection \<open>Members\<close>

definition idset_ok :: "idset \<Rightarrow> bool" where
  "idset_ok s \<longleftrightarrow> vb_ok (idT s) \<and> 0 < idM s"

abbreviation ids :: "idset \<Rightarrow> nat set" where
  "ids s \<equiv> vb_mems (idT s)"

lemma grow_loop_doubles:
  assumes "0 < n" and "n < 2 ^ 32" and "sz \<le> 2 ^ 32"
  shows "\<exists>n'. grow_loop n sz = Some n' \<and> sz \<le> n' \<and> n \<le> n' \<and> (n' = n \<or> n' < 2 * sz)"
  using assms(1,2)
proof (induction "sz - n" arbitrary: n rule: less_induct)
  case less
  show ?case
  proof (cases "n < sz")
    case False
    then show ?thesis by (subst grow_loop.simps) simp
  next
    case True
    have eq: "grow_loop n sz = grow_loop (n * 2) sz" using True less.prems by (subst grow_loop.simps) simp
    show ?thesis
    proof (cases "n * 2 < 2 ^ 32")
      case big: True
      then show ?thesis using less.hyps [of "n * 2"] less.prems True unfolding eq by fastforce
    next
      case False
      then have "grow_loop (n * 2) sz = Some (n * 2)" using assms(3) by (subst grow_loop.simps) simp
      then show ?thesis using eq True False assms(3) less.prems by auto
    qed
  qed
qed

lemma copy_ids_eq:
  assumes "vb_ok old" and "is_succ (vb_mems old) (vM (snd old)) x i"
  shows "copy_ids old i T = fold_option (\<lambda>i T. vb_put T i) (sorted_list_of_set {y \<in> vb_mems old. x \<le> y}) T"
  by (rule vb.each_sorted [OF assms]) (rule copy_ids.simps)

lemma count_loop_eq:
  assumes "vb_ok T" and "is_succ (vb_mems T) (vM (snd T)) x i"
  shows "count_loop T i c = Some (c + card {y \<in> vb_mems T. x \<le> y})"
proof -
  have "count_loop T i c = fold_option (\<lambda>i c. Some (c + 1)) (sorted_list_of_set {y \<in> vb_mems T. x \<le> y}) c"
    by (rule vb.each_sorted [OF assms, of "count_loop T"]) (subst count_loop.simps, simp)
  moreover have "fold_option (\<lambda>i c. Some (c + 1)) xs c = Some (c + length xs)" for xs :: "nat list" and c :: nat
    by (induction xs arbitrary: c) simp_all
  ultimately show ?thesis by simp
qed

lemma vb_new:
  assumes "M < 2 ^ 32" and "\<And>n. malloc n \<noteq> None"
  obtains mem T where "vebnew malloc M False = Some (Some mem, T)" "vb_ok (mem, T)" "vM T = M" "vb_mems (mem, T) = {}"
proof -
  obtain mem0 where "malloc (vebsize M) = Some mem0" using assms(2) by blast
  from vebnew_ok [where malloc = malloc and mem = mem0 and full = False, OF assms(1) this] that show ?thesis by auto
qed

lemma grow_spec:
  assumes "idset_ok s" and "sz \<le> 2 ^ 31"
  shows "sz \<le> idM s \<Longrightarrow> idset_grow malloc s sz = Some (Inr s)"
    "idM s < sz \<Longrightarrow> id_flags s AND IDSET_FLAG_AUTOGROW = 0 \<Longrightarrow> idset_grow malloc s sz = Some (Inl EINVAL)"
    "idM s < sz \<Longrightarrow> id_flags s AND IDSET_FLAG_AUTOGROW \<noteq> 0 \<Longrightarrow> (\<And>n. malloc n \<noteq> None) \<Longrightarrow>
      \<exists>s'. idset_grow malloc s sz = Some (Inr s') \<and> idset_ok s' \<and> ids s' = ids s \<and> sz \<le> idM s' \<and> id_flags s' = id_flags s"
proof -
  have ok: "vb_ok (idT s)" "0 < idM s" "idM s < 2 ^ 32" using assms(1) by (simp_all add: idset_ok_def vb_ok_def tree_def)
  then obtain n' where n': "grow_loop (idM s) sz = Some n'" "sz \<le> n'" "idM s \<le> n'" "n' = idM s \<or> n' < 2 * sz"
    using grow_loop_doubles [of "idM s" sz] assms(2) by auto
  show "idset_grow malloc s sz = Some (Inr s)" if "sz \<le> idM s"
    using that by (simp add: idset_grow_def grow_loop.simps [of "idM s" sz])
  show "idset_grow malloc s sz = Some (Inl EINVAL)" if "idM s < sz" "id_flags s AND IDSET_FLAG_AUTOGROW = 0"
    using that n' by (simp add: idset_grow_def)
  assume gr: "idM s < sz" "id_flags s AND IDSET_FLAG_AUTOGROW \<noteq> 0" and m: "\<And>n. malloc n \<noteq> None"
  have lt: "idM s < n'" "n' < 2 ^ 32" using gr n' assms(2) by auto
  obtain mem T where new: "vebnew malloc n' False = Some (Some mem, T)" "vb_ok (mem, T)" "vM T = n'" "vb_mems (mem, T) = {}"
    by (rule vb_new [OF lt(2) m])
  obtain i where i: "vb_succ (idT s) 0 = Some i" "is_succ (ids s) (idM s) 0 i" using vb.succ_law [OF ok(1)] by blast
  have fin: "finite (ids s)" by (rule vb.finite_mems [OF ok(1)])
  obtain T' where T': "copy_ids (idT s) i (mem, T) = Some T'" "vb_ok T'" "vM (snd T') = n'"
    "vb_mems T' = {x \<in> ids s. x < n'}"
    using vb.put_fold [OF new(2), of "sorted_list_of_set (ids s)"] new(3,4) fin
    unfolding copy_ids_eq [OF ok(1) i(2)] by auto
  have "vb_mems T' = ids s" using T'(4) vb.mems_less [OF ok(1)] lt(1) by (auto intro: less_trans)
  then show "\<exists>s'. idset_grow malloc s sz = Some (Inr s') \<and> idset_ok s' \<and> ids s' = ids s \<and> sz \<le> idM s' \<and> id_flags s' = id_flags s"
    using gr lt n' new(1) i(1) T' by (simp add: idset_grow_def idset_ok_def)
qed

lemma set_spec:
  assumes "idset_ok s" and "i < 2 ^ 31" and "\<And>n. malloc n \<noteq> None" and "i < idM s \<or> id_flags s AND IDSET_FLAG_AUTOGROW \<noteq> 0"
  shows "\<exists>s'. idset_set malloc (Some s) i = Some (Inr s') \<and> idset_ok s' \<and> ids s' = insert i (ids s) \<and> id_flags s' = id_flags s"
proof -
  have v: "valid_id i" "(i + 1) mod 2 ^ 32 = i + 1" "i + 1 \<le> 2 ^ 31"
    using assms(2) by (simp_all add: valid_id_def UINT_MAX_def IDSET_INVALID_ID_def)
  obtain s1 where s1: "idset_grow malloc s (i + 1) = Some (Inr s1)" "idset_ok s1" "ids s1 = ids s" "i < idM s1"
    "id_flags s1 = id_flags s"
    using grow_spec [OF assms(1) v(3), of malloc] assms(1,3,4) by (cases "i + 1 \<le> idM s") (auto simp: Suc_le_eq)
  then have "vb_ok (idT s1)" by (simp add: idset_ok_def)
  from vb.put_law [OF this, of i] s1 obtain T where "vb_put (idT s1) i = Some T" "vb_ok T" "vM (snd T) = idM s1"
    "vb_mems T = insert i (ids s)" by auto
  then show ?thesis using s1 v by (simp add: idset_set_def idset_ok_def)
qed

subsection \<open>Encoding\<close>

text \<open>A step that may fail, for every member in order, with a flag for the last one.\<close>

fun step_list :: "(nat \<Rightarrow> bool \<Rightarrow> 's \<Rightarrow> 's result) \<Rightarrow> nat list \<Rightarrow> 's \<Rightarrow> 's result" where
  "step_list f [] s = Inr s"
| "step_list f (x # xs) s = bind_result (f x (xs = []) s) (step_list f xs)"

context id_space
begin

lemma each_next_sorted:
  assumes "ok v" and "is_succ (mems v) (univ v) x i"
    and each: "\<And>i s. i = univ v \<or> i \<in> mems v \<Longrightarrow> each i s = (if i = univ v then Some (Inr s)
      else do { y \<leftarrow> succ v (i + 1); case f i (y = univ v) s of Inl e \<Rightarrow> Some (Inl e) | Inr s \<Rightarrow> each y s })"
  shows "each i s = Some (step_list f (sorted_list_of_set {y \<in> mems v. x \<le> y}) s)"
  using assms(2)
proof (induction "card {y \<in> mems v. x \<le> y}" arbitrary: x i s)
  case 0
  then have e: "{y \<in> mems v. x \<le> y} = {}" using finite_mems [OF assms(1)] by simp
  then have "i = univ v" using 0(2) by (auto simp: is_succ_def)
  then show ?case unfolding e by (subst each) simp_all
next
  case (Suc n)
  let ?X = "{y \<in> mems v. x \<le> y}" and ?Y = "{y \<in> mems v. i + 1 \<le> y}"
  have fin: "finite ?X" "finite ?Y" using finite_mems [OF assms(1)] by simp_all
  have "?X \<noteq> {}" using Suc.hyps(2) by (metis card.empty nat.distinct(1))
  then have i: "i \<in> mems v" "x \<le> i" "\<And>z. z \<in> mems v \<Longrightarrow> x \<le> z \<Longrightarrow> i \<le> z"
    using Suc.prems by (auto simp: is_succ_def not_le)
  then have X: "?X = insert i ?Y" by (fastforce simp: Suc_le_eq le_less)
  then have "card ?Y = n" using Suc.hyps(2) fin(2) by simp
  obtain y where y: "succ v (i + 1) = Some y" "is_succ (mems v) (univ v) (i + 1) y" using succ_law [OF assms(1)] by blast
  have rest: "each y s' = Some (step_list f (sorted_list_of_set ?Y) s')" for s'
    using Suc.hyps(1) [OF \<open>card ?Y = n\<close> [symmetric] y(2)] .
  have "y = univ v \<longleftrightarrow> ?Y = {}" using y(2) mems_less [OF assms(1)] by (auto simp: is_succ_def not_le)
  then have "y = univ v \<longleftrightarrow> sorted_list_of_set ?Y = []" using fin(2) by simp
  moreover have "sorted_list_of_set ?X = i # sorted_list_of_set ?Y"
    unfolding X using fin(2) by (simp add: insort_is_Cons)
  moreover have "i < univ v" by (rule mems_less [OF assms(1) i(1)])
  ultimately show ?case using y(1) rest i(1)
    by (subst each) (auto simp: bind_result_def split: sum.splits)
qed

end

definition sb_text :: "strbuf \<Rightarrow> cstring" where
  "sb_text b = (case sb_str b of None \<Rightarrow> [] | Some s \<Rightarrow> s)"

definition sb_ok :: "strbuf \<Rightarrow> bool" where
  "sb_ok b \<longleftrightarrow> sb_len b = length (sb_text b) \<and> (sb_str b = None \<longrightarrow> sb_sz b = 0)"

lemma cat_grow_spec:
  assumes "\<forall>n. alloc n" and "sb_ok b"
  shows "\<exists>b'. cat_grow alloc n b = Inr b' \<and> sb_text b' = sb_text b \<and> sb_len b' = sb_len b \<and>
    sb_len b + n < sb_sz b' \<and> (sb_str b' = None \<longrightarrow> sb_sz b' = 0)"
  using assms
proof (induction alloc n b rule: cat_grow.induct)
  case (1 alloc n b)
  let ?b = "b\<lparr>sb_str := (case sb_str b of None \<Rightarrow> Some [] | Some s \<Rightarrow> Some s), sb_sz := sb_sz b + IDSET_ENCODE_CHUNK\<rparr>"
  show ?case
  proof (cases "sb_sz b < sb_len b + n + 1")
    case True
    have t: "sb_text ?b = sb_text b" by (simp add: sb_text_def split: option.splits)
    have "sb_len b = length (sb_text b)" using 1(3) by (simp add: sb_ok_def)
    then have ok: "sb_ok ?b" unfolding sb_ok_def t by (simp split: option.splits)
    have eq: "cat_grow alloc n b = cat_grow alloc n ?b" using True 1(2) by (subst cat_grow.simps) (simp add: Let_def)
    have "\<not> \<not> alloc (sb_sz b + IDSET_ENCODE_CHUNK)" using 1(2) by simp
    from 1(1) [OF True refl this 1(2) ok] show ?thesis unfolding eq t by simp
  next
    case False
    then show ?thesis using 1(3) by (subst cat_grow.simps) (auto simp: sb_ok_def)
  qed
qed

lemma catprintf_spec:
  assumes "\<forall>n. alloc n" and "sb_ok b"
  shows "\<exists>b'. catprintf alloc b ns = Inr b' \<and> sb_ok b' \<and> sb_text b' = sb_text b @ ns"
proof -
  obtain b' where b': "cat_grow alloc (length ns) b = Inr b'" "sb_text b' = sb_text b" "sb_len b' = sb_len b"
    "sb_len b + length ns < sb_sz b'" "sb_str b' = None \<longrightarrow> sb_sz b' = 0"
    using cat_grow_spec [OF assms, of "length ns"] by (elim exE conjE) (rule that)
  then obtain s where s: "sb_str b' = Some s" by fastforce
  then show ?thesis using b' assms by (simp add: catprintf_def sb_ok_def sb_text_def)
qed

text \<open>The text of a range, and the ranges of a list of identifiers.\<close>

definition range_text :: "nat \<times> nat \<Rightarrow> cstring" where
  "range_text r = (if fst r = snd r then dec (fst r) else dec (fst r) @ 45 # dec (snd r))"

fun commas :: "cstring list \<Rightarrow> cstring" where
  "commas [] = []"
| "commas [t] = t"
| "commas (t # ts) = t @ 44 # commas ts"

lemma commas_Cons: "ts \<noteq> [] \<Longrightarrow> commas (t # ts) = t @ 44 # commas ts"
  by (cases ts) simp_all

fun runs :: "nat \<Rightarrow> nat \<Rightarrow> nat list \<Rightarrow> (nat \<times> nat) list" where
  "runs lo hi [] = [(lo, hi)]"
| "runs lo hi (x # xs) = (if x = hi + 1 then runs lo x xs else (lo, hi) # runs x x xs)"

lemma runs_neq_Nil [simp]: "runs lo hi xs \<noteq> []"
  by (induction lo hi xs rule: runs.induct) auto

lemma runs_cover:
  assumes "lo \<le> hi"
  shows "(\<Union>(a, b) \<in> set (runs lo hi xs). {a..b}) = {lo..hi} \<union> set xs" "\<forall>(a, b) \<in> set (runs lo hi xs). a \<le> b"
proof -
  have "(\<Union>(a, b) \<in> set (runs lo hi xs). {a..b}) = {lo..hi} \<union> set xs \<and> (\<forall>(a, b) \<in> set (runs lo hi xs). a \<le> b)"
    using assms by (induction lo hi xs rule: runs.induct) auto
  then show "(\<Union>(a, b) \<in> set (runs lo hi xs). {a..b}) = {lo..hi} \<union> set xs" "\<forall>(a, b) \<in> set (runs lo hi xs). a \<le> b"
    by blast+
qed

lemma catrange_spec:
  assumes "\<forall>n. alloc n" and "sb_ok b"
  shows "\<exists>b'. catrange alloc b lo hi sep = Inr b' \<and> sb_ok b' \<and> sb_text b' = sb_text b @ range_text (lo, hi) @ sep"
  using catprintf_spec [OF assms] by (auto simp: catrange_def range_text_def)

lemma ranged_step_spec:
  assumes "\<forall>n. alloc n" and "sb_ok (rs_buf st)" and "\<not> rs_first st" and "rs_count st \<le> INT_MAX"
  shows "\<exists>st'. ranged_step alloc x l st = Inr st' \<and> sb_ok (rs_buf st') \<and> \<not> rs_first st' \<and>
    rs_lo st' = (if x = rs_hi st + 1 then rs_lo st else x) \<and> rs_hi st' = x \<and>
    sb_text (rs_buf st') = sb_text (rs_buf st) @
      (if x = rs_hi st + 1 then [] else range_text (rs_lo st, rs_hi st) @ [44]) @
      (if l then range_text (rs_lo st', rs_hi st') else []) \<and>
    rs_count st' = min INT_MAX (rs_count st + 1)"
proof -
  define st0 where "st0 = st\<lparr>rs_lo := (if x = rs_hi st + 1 then rs_lo st else x), rs_hi := x\<rparr>"
  obtain b where b: "(if x = rs_hi st + 1 then Inr (rs_buf st) else catrange alloc (rs_buf st) (rs_lo st) (rs_hi st) [44]) = Inr b"
    "sb_ok b" "sb_text b = sb_text (rs_buf st) @ (if x = rs_hi st + 1 then [] else range_text (rs_lo st, rs_hi st) @ [44])"
    using catrange_spec [OF assms(1,2), of "rs_lo st" "rs_hi st" "[44]"] assms(2) by (cases "x = rs_hi st + 1") auto
  obtain b' where b': "(if l then catrange alloc b (rs_lo st0) (rs_hi st0) [] else Inr b) = Inr b'" "sb_ok b'"
    "sb_text b' = sb_text b @ (if l then range_text (rs_lo st0, rs_hi st0) else [])"
    using catrange_spec [OF assms(1) b(2), of "rs_lo st0" "rs_hi st0" "[]"] b(2) by (cases l) auto
  have "ranged_step alloc x l st = Inr (st0\<lparr>rs_buf := b', rs_count := min INT_MAX (rs_count st + 1)\<rparr>)"
    using b(1) b'(1) assms(3,4) by (auto simp: ranged_step_def st0_def split: if_splits)
  then show ?thesis using b b' assms(3) by (simp add: st0_def)
qed

lemma ranged_rest:
  assumes "\<forall>n. alloc n" and "sb_ok (rs_buf st)" and "\<not> rs_first st" and "rs_count st \<le> INT_MAX" and "xs \<noteq> []"
  shows "\<exists>st'. step_list (ranged_step alloc) xs st = Inr st' \<and> sb_ok (rs_buf st') \<and>
    sb_text (rs_buf st') = sb_text (rs_buf st) @ commas (map range_text (runs (rs_lo st) (rs_hi st) xs)) \<and>
    rs_count st' = min INT_MAX (rs_count st + length xs)"
  using assms(2-5)
proof (induction xs arbitrary: st)
  case (Cons x xs)
  obtain st1 where st1: "ranged_step alloc x (xs = []) st = Inr st1" "sb_ok (rs_buf st1)" "\<not> rs_first st1"
    "rs_lo st1 = (if x = rs_hi st + 1 then rs_lo st else x)" "rs_hi st1 = x"
    "sb_text (rs_buf st1) = sb_text (rs_buf st) @
      (if x = rs_hi st + 1 then [] else range_text (rs_lo st, rs_hi st) @ [44]) @
      (if xs = [] then range_text (rs_lo st1, rs_hi st1) else [])"
    "rs_count st1 = min INT_MAX (rs_count st + 1)"
    using ranged_step_spec [OF assms(1) Cons.prems(1-3), of x "xs = []"] by blast
  show ?case
  proof (cases "xs = []")
    case True
    then show ?thesis using st1 by (auto simp: commas_Cons)
  next
    case False
    have "rs_count st1 \<le> INT_MAX" unfolding st1(7) by (rule min.cobounded1)
    from Cons.IH [OF st1(2,3) this False] obtain st' where st': "step_list (ranged_step alloc) xs st1 = Inr st'"
      "sb_ok (rs_buf st')" "sb_text (rs_buf st') = sb_text (rs_buf st1) @ commas (map range_text (runs (rs_lo st1) x xs))"
      "rs_count st' = min INT_MAX (rs_count st1 + length xs)" unfolding st1(5) by (elim exE conjE)
    have "sb_text (rs_buf st') = sb_text (rs_buf st) @ commas (map range_text (runs (rs_lo st) (rs_hi st) (x # xs)))"
      using st'(3) st1(4,6) False by (cases "x = rs_hi st + 1") (simp_all add: commas_Cons)
    moreover have "rs_count st' = min INT_MAX (rs_count st + length (x # xs))" using st'(4) unfolding st1(7) by simp
    moreover have "step_list (ranged_step alloc) (x # xs) st = Inr st'" using st1(1) st'(1) by simp
    ultimately show ?thesis using st'(2) by blast
  qed
qed simp

text \<open>The ranges written for a set: runs of consecutive identifiers, or every identifier by itself.\<close>

fun id_runs :: "bool \<Rightarrow> nat list \<Rightarrow> (nat \<times> nat) list" where
  "id_runs ranged [] = []"
| "id_runs ranged (x # xs) = (if ranged then runs x x xs else map (\<lambda>y. (y, y)) (x # xs))"

lemma id_runs_cover: "(\<Union>(a, b) \<in> set (id_runs r xs). {a..b}) = set xs" "\<forall>(a, b) \<in> set (id_runs r xs). a \<le> b"
  using runs_cover [of x x ys for x ys] by (cases xs; auto)+

lemma encode_ranged_spec:
  assumes "\<forall>n. alloc n" and "sb_ok b" and "vb_ok (idT s)"
  shows "\<exists>b'. encode_ranged alloc s b = Some (Inr (b', min INT_MAX (card (ids s)))) \<and> sb_ok b' \<and>
    sb_text b' = sb_text b @ commas (map range_text (id_runs True (sorted_list_of_set (ids s))))"
proof -
  obtain i where i: "vb_succ (idT s) 0 = Some i" "is_succ (ids s) (idM s) 0 i" using vb.succ_law [OF assms(3)] by blast
  let ?st = "\<lparr>rs_buf = b, rs_lo = i, rs_hi = i, rs_first = True, rs_count = 0\<rparr>"
  have "ranged_loop alloc (idT s) i ?st =
      Some (step_list (ranged_step alloc) (sorted_list_of_set {y \<in> ids s. 0 \<le> y}) ?st)"
    by (rule vb.each_next_sorted [OF assms(3) i(2)])
      (subst ranged_loop.simps, use vb.mems_less [OF assms(3)] in auto)
  then have loop: "ranged_loop alloc (idT s) i ?st = Some (step_list (ranged_step alloc) (sorted_list_of_set (ids s)) ?st)"
    by simp
  have len: "length (sorted_list_of_set (ids s)) = card (ids s)" by simp
  show ?thesis
  proof (cases "sorted_list_of_set (ids s)")
    case Nil
    then show ?thesis using loop i(1) assms(2) len by (simp add: encode_ranged_def)
  next
    case (Cons x xs)
    have "x = i"
    proof -
      have "x \<in> ids s" "\<forall>y \<in> ids s. x \<le> y"
        using Cons vb.finite_mems [OF assms(3)] sorted_sorted_list_of_set [of "ids s"] set_sorted_list_of_set [of "ids s"]
        by (metis list.set_intros(1), metis dual_order.refl set_ConsD sorted_simps(2))
      then show ?thesis using i(2) by (auto simp: is_succ_def antisym)
    qed
    let ?st1 = "?st\<lparr>rs_first := False, rs_count := 1\<rparr>"
    show ?thesis
    proof (cases "xs = []")
      case True
      obtain b' where "catrange alloc b i i [] = Inr b'" "sb_ok b'" "sb_text b' = sb_text b @ range_text (i, i)"
        using catrange_spec [OF assms(1,2), of i i "[]"] by auto
      then show ?thesis using loop i(1) len Cons True \<open>x = i\<close>
        by (simp add: encode_ranged_def ranged_step_def INT_MAX_def)
    next
      case False
      obtain st' where "step_list (ranged_step alloc) xs ?st1 = Inr st'" "sb_ok (rs_buf st')"
        "sb_text (rs_buf st') = sb_text b @ commas (map range_text (runs i i xs))"
        "rs_count st' = min INT_MAX (1 + length xs)"
        using ranged_rest [OF assms(1), of ?st1 xs] assms(2) False by (auto simp: INT_MAX_def)
      moreover have "ranged_step alloc i False ?st = Inr ?st1" by (simp add: ranged_step_def INT_MAX_def)
      ultimately show ?thesis using loop i(1) len Cons False \<open>x = i\<close> by (auto simp: encode_ranged_def)
    qed
  qed
qed

lemma simple_list:
  assumes "\<forall>n. alloc n" and "sb_ok b" and "c \<le> INT_MAX" and "\<forall>x \<in> set xs. x < 2 ^ 31"
  shows "\<exists>b'. step_list (simple_step alloc) xs (b, c) = Inr (b', min INT_MAX (c + length xs)) \<and> sb_ok b' \<and>
    sb_text b' = sb_text b @ commas (map dec xs)"
  using assms(2-4)
proof (induction xs arbitrary: b c)
  case (Cons x xs)
  have "sdec x = dec x" using Cons.prems(3) by (simp add: sdec_def INT_MAX_def)
  then obtain b1 where b1: "catprintf alloc b (sdec x @ (if xs = [] then [] else [44])) = Inr b1" "sb_ok b1"
    "sb_text b1 = sb_text b @ dec x @ (if xs = [] then [] else [44])"
    using catprintf_spec [OF assms(1) Cons.prems(1)] by metis
  have step: "simple_step alloc x (xs = []) (b, c) = Inr (b1, min INT_MAX (c + 1))"
    using b1(1) Cons.prems(2) by (auto simp: simple_step_def)
  have "min INT_MAX (c + 1) \<le> INT_MAX" by (rule min.cobounded1)
  from Cons.IH [OF b1(2) this] Cons.prems(3) obtain b' where
    b': "step_list (simple_step alloc) xs (b1, min INT_MAX (c + 1)) = Inr (b', min INT_MAX (min INT_MAX (c + 1) + length xs))"
      "sb_ok b'" "sb_text b' = sb_text b1 @ commas (map dec xs)" by auto
  have "min INT_MAX (min INT_MAX (c + 1) + length xs) = min INT_MAX (c + length (x # xs))" by simp
  then show ?case using step b' b1(3) by (cases xs) auto
qed simp

lemma encode_simple_spec:
  assumes "\<forall>n. alloc n" and "sb_ok b" and "vb_ok (idT s)" and "\<forall>x \<in> ids s. x < 2 ^ 31"
  shows "\<exists>b'. encode_simple alloc s b = Some (Inr (b', min INT_MAX (card (ids s)))) \<and> sb_ok b' \<and>
    sb_text b' = sb_text b @ commas (map range_text (id_runs False (sorted_list_of_set (ids s))))"
proof -
  obtain i where i: "vb_succ (idT s) 0 = Some i" "is_succ (ids s) (idM s) 0 i" using vb.succ_law [OF assms(3)] by blast
  have "simple_loop alloc (idT s) i (b, 0) =
      Some (step_list (simple_step alloc) (sorted_list_of_set {y \<in> ids s. 0 \<le> y}) (b, 0))"
    by (rule vb.each_next_sorted [OF assms(3) i(2)])
      (subst simple_loop.simps, use vb.mems_less [OF assms(3)] in auto)
  moreover have "map range_text (id_runs False xs) = map dec xs" for xs
    by (cases xs) (simp_all add: range_text_def)
  ultimately show ?thesis
    using simple_list [OF assms(1,2), of 0 "sorted_list_of_set (ids s)"] i(1) assms(4) vb.finite_mems [OF assms(3)]
    by (auto simp: encode_simple_def)
qed

subsection \<open>Decoding\<close>

lemma digit_byte:
  assumes "b \<in> set (dec n)"
  shows "c_isdigit b" "\<not> c_isspace b" "b \<noteq> 44" "b \<noteq> 45" "b \<noteq> 43" "b \<noteq> 91" "b \<noteq> 93"
proof -
  have "48 \<le> unat b" "unat b \<le> 57" using dec_digits [OF assms] by simp_all
  then show "c_isdigit b" by (simp add: c_isdigit_def word_le_nat_alt)
  show "\<not> c_isspace b" "b \<noteq> 44" "b \<noteq> 45" "b \<noteq> 43" "b \<noteq> 91" "b \<noteq> 93"
    using \<open>48 \<le> unat b\<close> \<open>unat b \<le> 57\<close> by (auto simp: c_isspace_def word_le_nat_alt)
qed

lemma dec_Cons: obtains c cs where "dec n = c # cs" "c \<in> set (dec n)"
  by (cases "dec n") auto

lemma strtoul_dec:
  assumes "rest = [] \<or> \<not> c_isdigit (hd rest)" and "n < 2 ^ 64"
  shows "strtoul (dec n @ rest) = (n, rest)"
proof -
  obtain c cs where c: "dec n = c # cs" "c \<in> set (dec n)" by (rule dec_Cons)
  have "takeWhile c_isdigit (dec n @ rest) = dec n" "dropWhile c_isdigit (dec n @ rest) = rest"
    using assms(1) digit_byte(1) [of _ n] by (cases rest; auto simp: takeWhile_append2 dropWhile_append2)+
  moreover have "dropWhile c_isspace (dec n @ rest) = dec n @ rest" using c(1) digit_byte(2) [OF c(2)] by simp
  moreover have "hd (dec n @ rest) = c" using c by simp
  ultimately show ?thesis
    using digit_byte(4,5) [OF c(2)] assms(2)
    by (simp add: strtoul_def Let_def undec_dec ULONG_MAX_def)
qed

lemma parse_range_text:
  assumes "lo \<le> hi" and "hi < 2 ^ 31"
  shows "parse_range (range_text (lo, hi)) = Some (hi, lo)"
proof -
  have b: "lo < 2 ^ 64" "hi < 2 ^ 64" "\<not> UINT_MAX \<le> lo" "\<not> UINT_MAX \<le> hi" using assms by (simp_all add: UINT_MAX_def)
  have d: "\<not> c_isdigit 45" by (simp add: c_isdigit_def)
  show ?thesis
    using strtoul_dec [of "[]" lo] strtoul_dec [of "[]" hi] strtoul_dec [of "45 # dec hi" lo] b d assms(1)
    by (auto simp: parse_range_def range_text_def Let_def dec_neq_Nil [symmetric])
qed

lemma range_text_bytes:
  "range_text r \<noteq> []" "44 \<notin> set (range_text r)" "hd (range_text r) \<noteq> 91" "last (range_text r) \<noteq> 93"
proof -
  obtain lo hi where r: "r = (lo, hi)" by (cases r)
  have m: "44 \<notin> set (dec n)" "hd (dec n) \<noteq> 91" "last (dec n) \<noteq> 93" for n
    using digit_byte(3) [of 44 n] digit_byte(6) [of "hd (dec n)" n] digit_byte(7) [of "last (dec n)" n] by auto
  show "range_text r \<noteq> []" "44 \<notin> set (range_text r)" "hd (range_text r) \<noteq> 91" "last (range_text r) \<noteq> 93"
    using m by (simp_all add: r range_text_def hd_append)
qed

lemma strtok_r_commas:
  assumes "t \<noteq> []" and "44 \<notin> set t"
  shows "strtok_r (commas (t # ts)) = Some (t, commas ts)"
proof -
  have c: "dropWhile (\<lambda>c. c = 44) (t @ u) = t @ u" for u using assms by (cases t) auto
  have t: "takeWhile (\<lambda>c. c \<noteq> 44) (t @ 44 # u) = t" "dropWhile (\<lambda>c. c \<noteq> 44) (t @ 44 # u) = 44 # u"
    "takeWhile (\<lambda>c. c \<noteq> 44) t = t" "dropWhile (\<lambda>c. c \<noteq> 44) t = []" for u
    using assms(2) by (induction t) auto
  show ?thesis
    using c [of "[]"] c assms(1) by (cases ts) (simp_all add: strtok_r_def Let_def t)
qed

definition autogrow_ok :: "idset \<Rightarrow> bool" where
  "autogrow_ok s \<longleftrightarrow> idset_ok s \<and> id_flags s = IDSET_FLAG_AUTOGROW"

lemma set_ids_spec:
  assumes "\<forall>n. malloc n \<noteq> None" and "autogrow_ok s" and "\<forall>i \<in> set is. i < 2 ^ 31"
  shows "\<exists>s'. set_ids malloc is s = Some (Inr s') \<and> autogrow_ok s' \<and> ids s' = set is \<union> ids s"
  using assms(2,3)
proof (induction "is" arbitrary: s)
  case (Cons i "is")
  obtain s1 where "idset_set malloc (Some s) i = Some (Inr s1)" "autogrow_ok s1" "ids s1 = insert i (ids s)"
    using set_spec [of s i malloc] assms(1) Cons.prems by (auto simp: autogrow_ok_def IDSET_FLAG_AUTOGROW_def)
  then show ?case using Cons.IH [of s1] Cons.prems(2) by auto
qed simp

lemma decode_tokens_spec:
  assumes "\<forall>n. malloc n \<noteq> None" and "autogrow_ok s" and "\<forall>(lo, hi) \<in> set rs. lo \<le> hi \<and> hi < 2 ^ 31"
  shows "\<exists>s'. decode_tokens malloc (commas (map range_text rs)) s = Some (Inr s') \<and> autogrow_ok s' \<and>
    ids s' = (\<Union>(lo, hi) \<in> set rs. {lo..hi}) \<union> ids s"
  using assms(2,3)
proof (induction rs arbitrary: s)
  case Nil
  then show ?case by (subst decode_tokens.simps) (simp add: strtok_r_def)
next
  case (Cons r rs)
  obtain lo hi where r: "r = (lo, hi)" "lo \<le> hi" "hi < 2 ^ 31" using Cons.prems(2) by (cases r) auto
  have "\<forall>i \<in> set (rev [lo..<hi + 1]). i < 2 ^ 31" and "set (rev [lo..<hi + 1]) = {lo..hi}" using r by auto
  with set_ids_spec [OF assms(1) Cons.prems(1)] obtain s1 where
    s1: "set_ids malloc (rev [lo..<hi + 1]) s = Some (Inr s1)" "autogrow_ok s1" "ids s1 = {lo..hi} \<union> ids s"
    by metis
  have tok: "strtok_r (commas (map range_text (r # rs))) = Some (range_text r, commas (map range_text rs))"
    using strtok_r_commas [OF range_text_bytes(1,2)] by simp
  obtain s' where s': "decode_tokens malloc (commas (map range_text rs)) s1 = Some (Inr s')" "autogrow_ok s'"
    "ids s' = (\<Union>(lo, hi) \<in> set rs. {lo..hi}) \<union> ids s1"
    using Cons.IH [OF s1(2)] Cons.prems(2) by auto
  have "decode_tokens malloc (commas (map range_text (r # rs))) s = Some (Inr s')"
    using tok s1(1) s'(1) by (subst decode_tokens.simps) (simp add: r(1) parse_range_text [OF r(2,3)])
  then show ?case using s'(2,3) s1(3) r(1) by auto
qed

lemma commas_ends:
  assumes "ts \<noteq> []" and "\<forall>t \<in> set ts. t \<noteq> [] \<and> hd t \<noteq> 91 \<and> last t \<noteq> 93"
  shows "commas ts \<noteq> []" "hd (commas ts) \<noteq> 91" "last (commas ts) \<noteq> 93"
  using assms by (induction ts rule: commas.induct) auto

lemma trim_brackets_body:
  assumes "body = [] \<or> hd body \<noteq> 91 \<and> last body \<noteq> 93"
  shows "trim_brackets body = body" "trim_brackets (91 # body @ [93]) = body"
  using assms by (auto simp: trim_brackets_def)

lemma create_spec:
  assumes "\<forall>n. malloc n \<noteq> None" and "0 < sz" and "sz < 2 ^ 32" and "flags AND IDSET_FLAG_AUTOGROW = flags"
  shows "\<exists>s. idset_create malloc sz flags = Some (Inr s) \<and> idset_ok s \<and> idM s = sz \<and> ids s = {} \<and> id_flags s = flags"
proof -
  obtain mem T where "vebnew malloc sz False = Some (Some mem, T)" "vb_ok (mem, T)" "vM T = sz" "vb_mems (mem, T) = {}"
    by (rule vb_new [of sz malloc]) (use assms in auto)
  then show ?thesis using assms by (simp add: idset_create_def validate_idset_flags_def idset_ok_def)
qed

lemma create_default: "idset_create malloc 0 flags = idset_create malloc IDSET_DEFAULT_SIZE flags"
  by (cases "validate_idset_flags flags IDSET_FLAG_AUTOGROW") (simp_all add: idset_create_def IDSET_DEFAULT_SIZE_def)

lemma runs_body:
  "commas (map range_text (id_runs r xs)) = [] \<or>
     hd (commas (map range_text (id_runs r xs))) \<noteq> 91 \<and> last (commas (map range_text (id_runs r xs))) \<noteq> 93"
proof (cases "id_runs r xs = []")
  case False
  then show ?thesis
    using commas_ends(2,3) [of "map range_text (id_runs r xs)"] range_text_bytes(1,3,4) by simp
qed simp

lemma catprintf_if:
  assumes "\<forall>n. alloc n" and "sb_ok b"
  shows "\<exists>b'. (if c then catprintf alloc b ns else Inr b) = Inr b' \<and> sb_ok b' \<and>
    sb_text b' = sb_text b @ (if c then ns else [])"
  using catprintf_spec [OF assms, of ns] assms(2) by (cases c) simp_all

lemma encode_body:
  assumes "\<forall>n. alloc n" and "sb_ok b" and "vb_ok (idT s)" and "\<forall>x \<in> ids s. x < 2 ^ 31"
  shows "\<exists>b'. (if r then encode_ranged alloc s b else encode_simple alloc s b) = Some (Inr (b', min INT_MAX (card (ids s)))) \<and>
    sb_ok b' \<and> sb_text b' = sb_text b @ commas (map range_text (id_runs r (sorted_list_of_set (ids s))))"
  using encode_ranged_spec [OF assms(1-3)] encode_simple_spec [OF assms] by (cases r) simp_all

lemma encode_spec:
  assumes "\<forall>n. alloc n" and "vb_ok (idT s)" and "\<forall>x \<in> ids s. x < 2 ^ 31"
    and "flags AND (IDSET_FLAG_BRACKETS OR IDSET_FLAG_RANGE) = flags"
  shows "\<exists>str. idset_encode alloc (Some s) flags = Some (Inr str) \<and>
    trim_brackets str =
      commas (map range_text (id_runs (flags AND IDSET_FLAG_RANGE \<noteq> 0) (sorted_list_of_set (ids s))))"
proof -
  let ?r = "flags AND IDSET_FLAG_RANGE \<noteq> 0" and ?br = "flags AND IDSET_FLAG_BRACKETS \<noteq> 0"
  let ?b0 = "\<lparr>sb_str = None, sb_sz = 0, sb_len = 0\<rparr>" and ?c = "min INT_MAX (card (ids s))"
  define body where "body = commas (map range_text (id_runs ?r (sorted_list_of_set (ids s))))"
  have body: "body = [] \<or> hd body \<noteq> 91 \<and> last body \<noteq> 93" unfolding body_def by (rule runs_body)
  have "sb_ok ?b0" "sb_text ?b0 = []" by (simp_all add: sb_ok_def sb_text_def)
  then obtain b1 where b1: "(if ?br then catprintf alloc ?b0 [91] else Inr ?b0) = Inr b1" "sb_ok b1"
    "sb_text b1 = (if ?br then [91] else [])"
    using catprintf_if [OF assms(1), of ?b0 ?br "[91]"] by auto
  obtain b2 where b2: "(if ?r then encode_ranged alloc s b1 else encode_simple alloc s b1) = Some (Inr (b2, ?c))"
    "sb_ok b2" "sb_text b2 = sb_text b1 @ body"
    using encode_body [OF assms(1) b1(2) assms(2,3), of ?r] unfolding body_def by blast
  obtain b3 where b3: "(if ?br \<and> 1 < ?c then catprintf alloc b2 [93] else Inr b2) = Inr b3" "sb_ok b3"
    "sb_text b3 = sb_text b2 @ (if ?br \<and> 1 < ?c then [93] else [])"
    using catprintf_if [OF assms(1) b2(2), of "?br \<and> 1 < ?c" "[93]"] by blast
  let ?str = "if ?c \<le> 1 \<and> sb_text b3 \<noteq> [] \<and> hd (sb_text b3) = 91 then tl (sb_text b3) else sb_text b3"
  have "validate_idset_flags flags (IDSET_FLAG_BRACKETS OR IDSET_FLAG_RANGE) = Inr ()"
    using assms(4) by (simp add: validate_idset_flags_def)
  then have "idset_encode alloc (Some s) flags = Some (Inr ?str)"
    using b1(1) b2(1) b3(1) assms(1) by (simp add: idset_encode_def Let_def sb_text_def)
  moreover have "trim_brackets ?str = body"
    using body b1(3) b2(3) b3(3) trim_brackets_body [of body] by (cases body) (auto simp: not_le)
  ultimately show ?thesis unfolding body_def by blast
qed

subsection \<open>Operations\<close>

lemma sample_idset:
  assumes "0 < M" and "M < 2 ^ 32"
  obtains s where "idset_ok s" "idM s = M" "ids s = (if full then {..<M} else {})" "id_flags s = flags"
proof -
  obtain mem T where "vb_ok (mem, T)" "vM T = M" "vb_mems (mem, T) = (if full then {..<M} else {})"
    by (rule sample_tree [OF assms(2), of full])
  then show thesis using that [of "\<lparr>idT = (mem, T), id_flags = flags\<rparr>"] assms(1) by (simp add: idset_ok_def)
qed

lemma range_grow:
  assumes "idset_ok s" and "hi < 2 ^ 31" and "\<forall>n. malloc n \<noteq> None" and "hi < idM s \<or> id_flags s AND IDSET_FLAG_AUTOGROW \<noteq> 0"
  obtains s1 where "idset_grow malloc s (hi + 1) = Some (Inr s1)" "idset_ok s1" "ids s1 = ids s" "hi < idM s1"
    "id_flags s1 = id_flags s"
proof -
  have "hi + 1 \<le> 2 ^ 31" using assms(2) by simp
  then show thesis
    using that grow_spec [OF assms(1), of "hi + 1" malloc] assms(1,3,4) by (cases "hi + 1 \<le> idM s") (auto simp: Suc_le_eq)
qed

lemma valid_id_small: "i < 2 ^ 31 \<Longrightarrow> valid_id i"
  by (simp add: valid_id_def UINT_MAX_def IDSET_INVALID_ID_def)

lemma normalize_range_cases:
  obtains "normalize_range lo hi = (min lo hi, max lo hi)"
  by (cases "hi < lo") (simp_all add: normalize_range_def min_def max_def)

lemma members_upto: "h < M \<Longrightarrow> {x \<in> set [l..<h + 1]. x < M} = {l..h}" for M :: nat
  by auto

lemma first_from:
  assumes "vb_ok T"
  shows "\<exists>y. vb_succ T x = Some y \<and>
    (if y = vM (snd T) then e else y) = (if {z \<in> vb_mems T. x \<le> z} = {} then e else Min {z \<in> vb_mems T. x \<le> z})"
proof -
  let ?S = "{z \<in> vb_mems T. x \<le> z}"
  obtain y where y: "vb_succ T x = Some y" "is_succ (vb_mems T) (vM (snd T)) x y" using vb.succ_law [OF assms] by blast
  have fin: "finite ?S" using vb.finite_mems [OF assms] by simp
  have "y = vM (snd T)" if "?S = {}" using that y(2) by (auto simp: is_succ_def)
  moreover have "y \<noteq> vM (snd T) \<and> y = Min ?S" if "?S \<noteq> {}"
  proof -
    have m: "y \<in> ?S" "\<And>z. z \<in> ?S \<Longrightarrow> y \<le> z" using that y(2) by (auto simp: is_succ_def not_le)
    then show ?thesis using Min_eqI [OF fin m(2) m(1)] vb.mems_less [OF assms, of y] by auto
  qed
  ultimately show ?thesis using y(1) by auto
qed

lemma grow_loop_power:
  assumes "2 ^ 31 < sz" and "sz \<le> 2 ^ 32" and "j \<le> 31"
  shows "grow_loop (2 ^ (32 - j)) sz = Some (2 ^ 32)"
  using assms(3)
proof (induction j)
  case 0
  then show ?case using assms(2) by (subst grow_loop.simps) simp
next
  case (Suc j)
  have "(2 :: nat) ^ (32 - Suc j) \<le> 2 ^ 31" by (rule power_increasing) simp_all
  then have lt: "2 ^ (32 - Suc j) < sz" using assms(1) by linarith
  have d: "(2 :: nat) ^ (32 - Suc j) * 2 = 2 ^ (32 - j)" unfolding power_Suc2 [symmetric] using Suc.prems by (simp add: Suc_diff_Suc del: power_Suc)
  have "(2 :: nat) ^ (32 - j) < 2 ^ 64" by (rule power_strict_increasing) simp_all
  then have m: "2 ^ (32 - Suc j) * 2 mod 2 ^ 64 = (2 :: nat) ^ (32 - j)" unfolding d by (rule mod_less)
  show ?case using lt m Suc.IH Suc.prems by (subst grow_loop.simps) (simp del: power_Suc)
qed

subsection \<open>Properties\<close>

text \<open>C12: for every set of identifiers below \<open>2^31\<close> and every combination of the flags for ranges and
  brackets, \<open>idset_encode\<close> writes a string, and \<open>idset_decode\<close> of that string is a set with the same
  members. The hypotheses say that the set is well-formed, that the flags are among the two and that
  memory is available.\<close>

theorem idset_encode_decode:
  assumes "idset_ok s" and "\<forall>x \<in> vb_mems (idT s). x < 2 ^ 31"
    and "flags AND (IDSET_FLAG_BRACKETS OR IDSET_FLAG_RANGE) = flags"
    and "\<forall>n. malloc n \<noteq> None" and "\<forall>n. alloc n"
  shows "\<exists>str s'. idset_encode alloc (Some s) flags = Some (Inr str) \<and>
    idset_decode malloc (Some str) = Some (Inr s') \<and> idset_ok s' \<and> vb_mems (idT s') = vb_mems (idT s)"
proof -
  let ?rs = "id_runs (flags AND IDSET_FLAG_RANGE \<noteq> 0) (sorted_list_of_set (ids s))"
  have ok: "vb_ok (idT s)" using assms(1) by (simp add: idset_ok_def)
  obtain str where str: "idset_encode alloc (Some s) flags = Some (Inr str)"
    "trim_brackets str = commas (map range_text ?rs)"
    using encode_spec [OF assms(5) ok assms(2,3)] by blast
  have cover: "(\<Union>(lo, hi) \<in> set ?rs. {lo..hi}) = ids s" "\<forall>(lo, hi) \<in> set ?rs. lo \<le> hi"
    using id_runs_cover vb.finite_mems [OF ok] by simp_all
  have rs: "\<forall>(lo, hi) \<in> set ?rs. lo \<le> hi \<and> hi < 2 ^ 31"
    using cover assms(2) by fastforce
  obtain s0 where s0: "idset_create malloc 0 IDSET_FLAG_AUTOGROW = Some (Inr s0)" "autogrow_ok s0" "ids s0 = {}"
    using create_spec [OF assms(4), of IDSET_DEFAULT_SIZE IDSET_FLAG_AUTOGROW] create_default
    by (auto simp: IDSET_DEFAULT_SIZE_def autogrow_ok_def)
  obtain s' where "decode_tokens malloc (commas (map range_text ?rs)) s0 = Some (Inr s')" "autogrow_ok s'" "ids s' = ids s"
    using decode_tokens_spec [OF assms(4) s0(2) rs] cover(1) s0(3) by auto
  then show ?thesis using str s0(1) assms(4) by (auto simp: idset_decode_def autogrow_ok_def)
qed

theorem idset_encode_decode_witness:
  "\<exists>s str s'. vb_mems (idT s) = {..<100} \<and> idset_encode (\<lambda>n. True) (Some s) 6 = Some (Inr str) \<and>
     idset_decode (\<lambda>n. Some (\<lambda>a. 7)) (Some str) = Some (Inr s') \<and> vb_mems (idT s') = {..<100}"
proof -
  obtain s where s: "idset_ok s" "ids s = {..<100}" by (rule sample_idset [of 100 True 0]) simp_all
  show ?thesis
    using idset_encode_decode [OF s(1), of 6 "\<lambda>n. Some (\<lambda>a. 7)" "\<lambda>n. True"] s(2)
    by (auto simp: IDSET_FLAG_BRACKETS_def IDSET_FLAG_RANGE_def)
qed

text \<open>C13: \<open>idset_set\<close> adds the identifier, growing the tree by doubling if it does not fit and the set
  may grow; if it does not fit and the set may not grow, the call fails with \<open>EINVAL\<close>. It always
  returns. For identifiers below \<open>2^31\<close>, with memory available.\<close>

theorem idset_set_correct:
  assumes "idset_ok s" and "i < 2 ^ 31" and "\<forall>n. malloc n \<noteq> None"
  shows "if i < idM s \<or> id_flags s AND IDSET_FLAG_AUTOGROW \<noteq> 0
    then \<exists>s'. idset_set malloc (Some s) i = Some (Inr s') \<and> idset_ok s' \<and>
      vb_mems (idT s') = insert i (vb_mems (idT s)) \<and> id_flags s' = id_flags s
    else idset_set malloc (Some s) i = Some (Inl EINVAL)"
proof -
  have v: "valid_id i" "(i + 1) mod 2 ^ 32 = i + 1" "i + 1 \<le> 2 ^ 31"
    using assms(2) by (simp_all add: valid_id_def UINT_MAX_def IDSET_INVALID_ID_def)
  then show ?thesis
    using set_spec [OF assms(1,2), of malloc] assms(3) grow_spec(2) [OF assms(1) v(3), of malloc]
    by (auto simp: idset_set_def not_less)
qed

theorem idset_set_correct_witness:
  "\<exists>s s'. vb_mems (idT s) = {} \<and> idM s = 4 \<and> idset_set (\<lambda>n. Some (\<lambda>a. 7)) (Some s) 1000 = Some (Inr s') \<and>
     vb_mems (idT s') = {1000}"
proof -
  obtain s where s: "idset_ok s" "idM s = 4" "ids s = {}" "id_flags s = 1" by (rule sample_idset [of 4 False 1]) simp_all
  show ?thesis
    using idset_set_correct [OF s(1), of 1000 "\<lambda>n. Some (\<lambda>a. 7)"] s by (auto simp: IDSET_FLAG_AUTOGROW_def)
qed

lemma range_set_spec:
  assumes "idset_ok s" and "lo \<le> hi" and "hi < 2 ^ 31" and "\<forall>n. malloc n \<noteq> None"
    and "hi < idM s \<or> id_flags s AND IDSET_FLAG_AUTOGROW \<noteq> 0"
  shows "\<exists>s1. idset_range_set malloc (Some s) lo hi = Some (Inr s1) \<and> idset_ok s1 \<and>
    ids s1 = ids s \<union> {lo..hi} \<and> id_flags s1 = id_flags s"
proof -
  have hi: "(hi + 1) mod 2 ^ 32 = hi + 1" "normalize_range lo hi = (lo, hi)" using assms(2,3) by (auto simp: normalize_range_def)
  have v: "valid_id lo" "valid_id hi" using assms(2,3) by (simp_all add: valid_id_small)
  obtain s' where s': "idset_grow malloc s (hi + 1) = Some (Inr s')" "idset_ok s'" "ids s' = ids s" "hi < idM s'"
    "id_flags s' = id_flags s"
    by (rule range_grow [OF assms(1,3,4,5)])
  have ok: "vb_ok (idT s')" "0 < idM s'" using s'(2) by (simp_all add: idset_ok_def)
  obtain T where T: "fold_option (\<lambda>i T. vb_put T i) [lo..<hi + 1] (idT s') = Some T" "vb_ok T"
    "vM (snd T) = idM s'" "vb_mems T = ids s' \<union> {x \<in> set [lo..<hi + 1]. x < idM s'}"
    using vb.put_fold [OF ok(1), of "[lo..<hi + 1]"] by blast
  have "idset_range_set malloc (Some s) lo hi = Some (Inr (s'\<lparr>idT := T\<rparr>))"
    unfolding idset_range_set_def hi(2) using v s'(1) T(1) hi(1) by simp
  then show ?thesis using T(2-4) s'(3,5) ok(2) members_upto [OF s'(4)] by (auto simp: idset_ok_def)
qed

lemma range_set_refused:
  assumes "idset_ok s" and "lo \<le> hi" and "hi < 2 ^ 31" and "idM s \<le> hi" and "id_flags s AND IDSET_FLAG_AUTOGROW = 0"
  shows "idset_range_set malloc (Some s) lo hi = Some (Inl EINVAL)"
proof -
  have hi: "(hi + 1) mod 2 ^ 32 = hi + 1" "normalize_range lo hi = (lo, hi)" using assms(2,3) by (auto simp: normalize_range_def)
  have v: "valid_id lo" "valid_id hi" using assms(2,3) by (simp_all add: valid_id_small)
  have "idset_grow malloc s (hi + 1) = Some (Inl EINVAL)"
    using grow_spec(2) [OF assms(1), of "hi + 1" malloc] assms(3-5) by simp
  then show ?thesis unfolding idset_range_set_def hi(2) using v hi(1) by simp
qed

lemma range_clear_spec:
  assumes "idset_ok s" and "lo \<le> hi" and "hi < 2 ^ 31"
  shows "\<exists>s1. idset_range_clear (Some s) lo hi = Some (Inr s1) \<and> idset_ok s1 \<and> ids s1 = ids s - {lo..hi} \<and>
    id_flags s1 = id_flags s"
proof -
  let ?xs = "[lo..<min (hi + 1) (idM s)]"
  have n: "normalize_range lo hi = (lo, hi)" using assms(2) by (simp add: normalize_range_def)
  have v: "valid_id lo" "valid_id hi" using assms(2,3) by (simp_all add: valid_id_small)
  have ok: "vb_ok (idT s)" "0 < idM s" using assms(1) by (simp_all add: idset_ok_def)
  obtain T where T: "fold_option (\<lambda>i T. vb_del T i) ?xs (idT s) = Some T" "vb_ok T"
    "vM (snd T) = idM s" "vb_mems T = ids s - set ?xs"
    using vb.del_fold [OF ok(1), of ?xs] by blast
  have "vb_mems T = ids s - {lo..hi}" using T(4) vb.mems_less [OF ok(1)] by auto
  moreover have "idset_range_clear (Some s) lo hi = Some (Inr (s\<lparr>idT := T\<rparr>))"
    unfolding idset_range_clear_def n using v T(1) by simp
  ultimately show ?thesis using T(2,3) ok(2) by (auto simp: idset_ok_def)
qed

lemma range_order:
  "idset_range_set malloc (Some s) lo hi = idset_range_set malloc (Some s) (min lo hi) (max lo hi)"
  "idset_range_clear (Some s) lo hi = idset_range_clear (Some s) (min lo hi) (max lo hi)"
  by (auto simp: idset_range_set_def idset_range_clear_def normalize_range_def min_def max_def)

text \<open>C30: \<open>idset_range_set\<close> adds exactly the identifiers between the two bounds, in whichever order
  they are given, if the larger one fits or the set may grow; otherwise it fails with \<open>EINVAL\<close>.
  \<open>idset_range_clear\<close> removes exactly those identifiers and needs no room. For identifiers below 2^31,
  with memory available.\<close>

theorem idset_range_correct:
  assumes "idset_ok s" and "lo < 2 ^ 31" and "hi < 2 ^ 31" and "\<forall>n. malloc n \<noteq> None"
  shows "(if max lo hi < idM s \<or> id_flags s AND IDSET_FLAG_AUTOGROW \<noteq> 0
      then \<exists>s1. idset_range_set malloc (Some s) lo hi = Some (Inr s1) \<and> idset_ok s1 \<and>
        vb_mems (idT s1) = vb_mems (idT s) \<union> {min lo hi..max lo hi} \<and> id_flags s1 = id_flags s
      else idset_range_set malloc (Some s) lo hi = Some (Inl EINVAL)) \<and>
    (\<exists>s2. idset_range_clear (Some s) lo hi = Some (Inr s2) \<and> idset_ok s2 \<and>
      vb_mems (idT s2) = vb_mems (idT s) - {min lo hi..max lo hi} \<and> id_flags s2 = id_flags s)"
proof (rule conjI)
  let ?l = "min lo hi" and ?h = "max lo hi"
  have h: "?l \<le> ?h" "?h < 2 ^ 31" using assms(2,3) by auto
  show "if ?h < idM s \<or> id_flags s AND IDSET_FLAG_AUTOGROW \<noteq> 0
      then \<exists>s1. idset_range_set malloc (Some s) lo hi = Some (Inr s1) \<and> idset_ok s1 \<and>
        ids s1 = ids s \<union> {?l..?h} \<and> id_flags s1 = id_flags s
      else idset_range_set malloc (Some s) lo hi = Some (Inl EINVAL)"
  proof (cases "?h < idM s \<or> id_flags s AND IDSET_FLAG_AUTOGROW \<noteq> 0")
    case True
    then show ?thesis using range_set_spec [OF assms(1) h(1,2) assms(4) True] unfolding range_order(1) [of malloc s lo] by simp
  next
    case False
    then have "idset_range_set malloc (Some s) lo hi = Some (Inl EINVAL)"
      unfolding range_order(1) [of malloc s lo] by (intro range_set_refused [OF assms(1) h]) auto
    with False show ?thesis by simp
  qed
  show "\<exists>s2. idset_range_clear (Some s) lo hi = Some (Inr s2) \<and> idset_ok s2 \<and>
      ids s2 = ids s - {?l..?h} \<and> id_flags s2 = id_flags s"
    using range_clear_spec [OF assms(1) h(1,2)] unfolding range_order(2) [of s lo] .
qed

theorem idset_range_correct_witness:
  "\<exists>s s1 s2. vb_mems (idT s) = {..<10} \<and> idset_range_set (\<lambda>n. Some (\<lambda>a. 7)) (Some s) 12 8 = Some (Inr s1) \<and>
     vb_mems (idT s1) = {..<13} \<and> idset_range_clear (Some s) 12 8 = Some (Inr s2) \<and> vb_mems (idT s2) = {..<8}"
proof -
  obtain s where s: "idset_ok s" "ids s = {..<10}" "id_flags s = 1" by (rule sample_idset [of 10 True 1]) simp_all
  have e: "{..<10} \<union> {8..12} = {..<13::nat}" "{..<10} - {8..12} = {..<8::nat}" by auto
  show ?thesis
    using idset_range_correct [OF s(1), of 12 8 "\<lambda>n. Some (\<lambda>a. 7)"] s e by (auto simp: IDSET_FLAG_AUTOGROW_def)
qed

text \<open>C31: \<open>idset_first\<close> returns the smallest member, \<open>idset_next\<close> the smallest one above its argument, both
  \<open>IDSET_INVALID_ID\<close> if there is none, and \<open>idset_count\<close> the number of members.\<close>

theorem idset_iteration_correct:
  assumes "idset_ok s" and "prev + 1 < 2 ^ 32"
  shows "idset_first (Some s) =
      Some (if vb_mems (idT s) = {} then IDSET_INVALID_ID else Min (vb_mems (idT s))) \<and>
    idset_next (Some s) prev =
      Some (if {x \<in> vb_mems (idT s). prev < x} = {} then IDSET_INVALID_ID else Min {x \<in> vb_mems (idT s). prev < x}) \<and>
    idset_count (Some s) = Some (card (vb_mems (idT s)))"
proof -
  have ok: "vb_ok (idT s)" using assms(1) by (simp add: idset_ok_def)
  have z: "{x \<in> A. 0 \<le> x} = A" for A :: "nat set" by simp
  obtain i where "vb_succ (idT s) 0 = Some i" "is_succ (ids s) (idM s) 0 i" using vb.succ_law [OF ok] by blast
  then have "idset_count (Some s) = Some (card (ids s))" using count_loop_eq [OF ok] by (simp add: idset_count_def)
  moreover have "idset_first (Some s) = Some (if ids s = {} then IDSET_INVALID_ID else Min (ids s))"
    using first_from [OF ok, of 0 IDSET_INVALID_ID, unfolded z] by (elim exE conjE) (simp add: idset_first_def)
  moreover have "idset_next (Some s) prev =
      Some (if {x \<in> ids s. prev < x} = {} then IDSET_INVALID_ID else Min {x \<in> ids s. prev < x})"
    using first_from [OF ok, of "prev + 1" IDSET_INVALID_ID] assms(2) by (auto simp: idset_next_def Suc_le_eq)
  ultimately show ?thesis by blast
qed

theorem idset_iteration_correct_witness:
  "\<exists>s. vb_mems (idT s) = {..<10} \<and> idset_first (Some s) = Some 0 \<and> idset_next (Some s) 9 = Some IDSET_INVALID_ID \<and>
     idset_count (Some s) = Some 10"
proof -
  obtain s where s: "idset_ok s" "ids s = {..<10}" by (rule sample_idset [of 10 True 1]) simp_all
  have "Min {..<10::nat} = 0" by (rule Min_eqI) auto
  moreover have "0 \<in> {..<10::nat}" "{x \<in> {..<10::nat}. 9 < x} = {}" by auto
  ultimately show ?thesis using idset_iteration_correct [OF s(1), of 9] s(2) by (intro exI [of _ s]) (auto simp del: lessThan_iff)
qed

text \<open>C34: \<open>idset_test\<close> is membership, except at the size of the tree, where it answers true although the
  size is never a member: \<open>vebsucc\<close> answers the size when there is no successor.\<close>

theorem idset_test_at_size:
  assumes "idset_ok s" and "valid_id i"
  shows "idset_test (Some s) i = Some (i \<in> vb_mems (idT s) \<or> i = idM s) \<and> idM s \<notin> vb_mems (idT s)"
proof -
  have ok: "vb_ok (idT s)" using assms(1) by (simp add: idset_ok_def)
  obtain y where "vb_succ (idT s) i = Some y" using vb.succ_law [OF ok] by blast
  then have "idset_test (Some s) i = Some (vb_succ (idT s) i = Some i)" using assms(2) by (simp add: idset_test_def)
  then show ?thesis using vb.succ_self [OF ok, of i] vb.mems_less [OF ok, of "idM s"] by auto
qed

theorem idset_test_at_size_witness:
  "\<exists>s. vb_mems (idT s) = {} \<and> idset_test (Some s) 1023 = Some False \<and> idset_test (Some s) 1024 = Some True"
proof -
  obtain s where s: "idset_ok s" "ids s = {}" "idM s = 1024" by (rule sample_idset [of 1024 False 1]) simp_all
  show ?thesis
    using idset_test_at_size [OF s(1), of 1023] idset_test_at_size [OF s(1), of 1024] s(2,3)
    by (intro exI [of _ s]) (simp add: valid_id_def UINT_MAX_def IDSET_INVALID_ID_def)
qed

text \<open>C33: adding an identifier of \<open>2^31\<close> or more to a set that may grow, and whose size is a power of
  two as the default size is, reports success and empties the set: the size is doubled to \<open>2^32\<close>, which
  is 0 as the \<open>unsigned int\<close> argument of \<open>vebnew\<close>.\<close>

theorem idset_set_truncates:
  assumes "idset_ok s" and "idM s = 2 ^ k" and "0 < k" and "id_flags s AND IDSET_FLAG_AUTOGROW \<noteq> 0"
    and "2 ^ 31 \<le> i" and "i < IDSET_INVALID_ID" and "\<forall>n. malloc n \<noteq> None"
  shows "\<exists>s'. idset_set malloc (Some s) i = Some (Inr s') \<and> idM s' = 0 \<and> vb_mems (idT s') = {}"
proof -
  have ok: "vb_ok (idT s)" and M: "idM s < 2 ^ 32" using assms(1) by (simp_all add: idset_ok_def vb_ok_def tree_def)
  have k: "k < 32" using M unfolding assms(2) by (simp only: power_strict_increasing_iff)
  have i: "valid_id i" "(i + 1) mod 2 ^ 32 = i + 1" "i + 1 \<le> 2 ^ 32"
    using assms(6) by (simp_all add: valid_id_def IDSET_INVALID_ID_def UINT_MAX_def)
  have g: "grow_loop (idM s) (i + 1) = Some (2 ^ 32)"
    using grow_loop_power [of "i + 1" "32 - k"] assms(2,3,5) i(3) k by simp
  obtain mem T where T: "vebnew malloc 0 False = Some (Some mem, T)" "vb_ok (mem, T)" "vM T = 0" "vb_mems (mem, T) = {}"
    by (rule vb_new [of 0 malloc]) (use assms(7) in auto)
  obtain y where y: "vb_succ (idT s) 0 = Some y" "is_succ (ids s) (idM s) 0 y" using vb.succ_law [OF ok] by blast
  obtain T1 where T1: "copy_ids (idT s) y (mem, T) = Some T1" "vb_ok T1" "vM (snd T1) = 0" "vb_mems T1 = {}"
    using vb.put_fold [OF T(2), of "sorted_list_of_set {x \<in> ids s. 0 \<le> x}"] T(3,4) unfolding copy_ids_eq [OF ok y(2)] by auto
  obtain T2 where T2: "vb_put T1 i = Some T2" "vM (snd T2) = 0" "vb_mems T2 = {}"
    using vb.put_law [OF T1(2), of i] T1(3,4) by auto
  have "idset_grow malloc s (i + 1) = Some (Inr (s\<lparr>idT := T1\<rparr>))"
    using g M assms(4) T(1) y(1) T1(1) by (simp add: idset_grow_def)
  then show ?thesis using i T2 by (simp add: idset_set_def)
qed

theorem idset_set_truncates_witness:
  "\<exists>s s'. vb_mems (idT s) = {..<1024} \<and> idset_set (\<lambda>n. Some (\<lambda>a. 7)) (Some s) (2 ^ 31) = Some (Inr s') \<and>
     vb_mems (idT s') = {}"
proof -
  obtain s where s: "idset_ok s" "idM s = 1024" "ids s = {..<1024}" "id_flags s = 1"
    by (rule sample_idset [of 1024 True 1]) simp_all
  show ?thesis
    using idset_set_truncates [OF s(1), of 10 "2 ^ 31" "\<lambda>n. Some (\<lambda>a. 7)"] s
    by (auto simp: IDSET_FLAG_AUTOGROW_def IDSET_INVALID_ID_def UINT_MAX_def)
qed

end
