(* ===== verification/Tagpool.thy ===== *)
theory Tagpool
  imports Veb_Spec Message
begin

text \<open>
  The allocator of matchtags, \<^verbatim>\<open>src/common/libflux/tagpool.c\<close>: two van Emde Boas trees hold the free
  regular tags and the free groups; a tree that has none left is replaced by one twice as large. A tag
  is a natural number below \<open>2^32\<close>. The callback that announces the growth may do anything to the pool:
  \<open>call\<close> is what calling it does. A result is in two layers, as for \<open>idset\<close>: the outer \<open>None\<close> is a call
  that does not return. \<open>tagpool_destroy\<close>, which frees memory, is left out.
\<close>

unbundle bit_operations_syntax

definition TAGPOOL_COUNT_REGULAR :: nat where "TAGPOOL_COUNT_REGULAR = 2 ^ 20"

definition TAGPOOL_COUNT_GROUP :: nat where "TAGPOOL_COUNT_GROUP = 2 ^ 12"

definition TAGPOOL_START :: nat where "TAGPOOL_START = 2 ^ 10"

definition TAGPOOL_MAGIC :: int where "TAGPOOL_MAGIC = 0x34447ff2"

definition TAGPOOL_FLAG_GROUP :: int where "TAGPOOL_FLAG_GROUP = 1"

definition sizeof_tagpool :: nat where "sizeof_tagpool = 80"

record 'cb tagpool =
  tp_magic :: int
  tp_R :: vblock
  reg_avail :: int
  tp_G :: vblock
  group_avail :: int
  grow_cb :: "'cb option"
  grow_depth :: int

definition TAGPOOL_ATTR_REGULAR_SIZE :: int where "TAGPOOL_ATTR_REGULAR_SIZE = 0"
definition TAGPOOL_ATTR_REGULAR_AVAIL :: int where "TAGPOOL_ATTR_REGULAR_AVAIL = 1"
definition TAGPOOL_ATTR_GROUP_SIZE :: int where "TAGPOOL_ATTR_GROUP_SIZE = 2"
definition TAGPOOL_ATTR_GROUP_AVAIL :: int where "TAGPOOL_ATTR_GROUP_AVAIL = 3"

definition pool_set :: "vblock \<Rightarrow> nat \<Rightarrow> nat \<Rightarrow> bool \<Rightarrow> vblock option" where
  "pool_set veb from to value_set =
     fold_option (\<lambda>x v. if value_set then vb_put v x else vb_del v x) [from..<to] veb"

definition tagpool_create :: "(nat \<Rightarrow> store option) \<Rightarrow> 'cb tagpool result option" where
  "tagpool_create malloc =
     (if malloc sizeof_tagpool = None then Some (Inl ENOMEM)
      else do {
        r \<leftarrow> vebnew malloc TAGPOOL_START True;
        g \<leftarrow> vebnew malloc TAGPOOL_START True;
        if fst r = None \<or> fst g = None then Some (Inl ENOMEM)
        else do {
          R \<leftarrow> vb_del (the (fst r), snd r) (unat FLUX_MATCHTAG_NONE);
          G \<leftarrow> vb_del (the (fst g), snd g) 0;
          Some (Inr \<lparr>tp_magic = TAGPOOL_MAGIC, tp_R = R, reg_avail = int TAGPOOL_COUNT_REGULAR - 1,
            tp_G = G, group_avail = int TAGPOOL_COUNT_GROUP - 1, grow_cb = None, grow_depth = 0\<rparr>)
        }
      })"

definition tagpool_set_grow_cb :: "'cb tagpool \<Rightarrow> 'cb option \<Rightarrow> 'cb tagpool" where
  "tagpool_set_grow_cb t cb = t\<lparr>grow_cb := cb\<rparr>"

text \<open>The tree that the pointer \<open>veb\<close> of \<open>alloc_with_resize\<close> points to.\<close>

definition pool :: "'cb tagpool \<Rightarrow> bool \<Rightarrow> vblock" where
  "pool t grp = (if grp then tp_G t else tp_R t)"

definition set_pool :: "'cb tagpool \<Rightarrow> bool \<Rightarrow> vblock \<Rightarrow> 'cb tagpool" where
  "set_pool t grp v = (if grp then t\<lparr>tp_G := v\<rparr> else t\<lparr>tp_R := v\<rparr>)"

type_synonym 'cb grow_call = "'cb \<Rightarrow> nat \<Rightarrow> nat \<Rightarrow> int \<Rightarrow> 'cb tagpool \<Rightarrow> 'cb tagpool option"

definition grow_notify :: "'cb grow_call \<Rightarrow> 'cb tagpool \<Rightarrow> nat \<Rightarrow> nat \<Rightarrow> int \<Rightarrow> 'cb tagpool option" where
  "grow_notify call t oldsize newsize flags =
     (case grow_cb t of
        None \<Rightarrow> Some t
      | Some cb \<Rightarrow>
          if grow_depth t = 0 then do {
            t \<leftarrow> call cb oldsize newsize flags (t\<lparr>grow_depth := grow_depth t + 1\<rparr>);
            Some (t\<lparr>grow_depth := grow_depth t - 1\<rparr>)
          } else Some t)"

definition alloc_with_resize ::
  "(nat \<Rightarrow> store option) \<Rightarrow> 'cb grow_call \<Rightarrow> 'cb tagpool \<Rightarrow> int \<Rightarrow> ('cb tagpool \<times> nat) result option" where
  "alloc_with_resize malloc call t flags =
     (let grp = (flags AND TAGPOOL_FLAG_GROUP \<noteq> 0);
          max = (if grp then TAGPOOL_COUNT_GROUP else TAGPOOL_COUNT_REGULAR);
          oldsize = vM (snd (pool t grp));
          newsize = oldsize * 2 mod 2 ^ 32
      in do {
        tag \<leftarrow> vb_succ (pool t grp) 0;
        r \<leftarrow> (if tag = vM (snd (pool t grp)) \<and> newsize \<le> max then do {
                t \<leftarrow> grow_notify call t oldsize newsize flags;
                n \<leftarrow> vebnew malloc newsize False;
                case n of
                  (None, _) \<Rightarrow> Some (Inr (t, tag))
                | (Some mem, T) \<Rightarrow> do {
                    v \<leftarrow> pool_set (mem, T) oldsize newsize True;
                    tag \<leftarrow> vb_succ v oldsize;
                    Some (if tag = oldsize then Inr (set_pool t grp v, tag) else Inl AssertFailed)
                  }
              } else Some (Inr (t, tag)));
        case r of
          Inl e \<Rightarrow> Some (Inl e)
        | Inr (t, tag) \<Rightarrow>
            if tag < vM (snd (pool t grp)) then do {
              v \<leftarrow> vb_del (pool t grp) tag;
              Some (Inr (set_pool t grp v, tag))
            } else Some (Inr (t, tag))
      })"

definition tagpool_alloc ::
  "(nat \<Rightarrow> store option) \<Rightarrow> 'cb grow_call \<Rightarrow> 'cb tagpool \<Rightarrow> int \<Rightarrow> ('cb tagpool \<times> nat) result option" where
  "tagpool_alloc malloc call t flags =
     (if tp_magic t \<noteq> TAGPOOL_MAGIC then Some (Inl AssertFailed)
      else if flags AND TAGPOOL_FLAG_GROUP \<noteq> 0 then do {
        r \<leftarrow> alloc_with_resize malloc call t TAGPOOL_FLAG_GROUP;
        Some (bind_result r (\<lambda>(t, tag). Inr
          (if tag < vM (snd (tp_G t))
           then (t\<lparr>group_avail := group_avail t - 1\<rparr>, tag * 2 ^ FLUX_MATCHTAG_GROUP_SHIFT mod 2 ^ 32)
           else (t, unat FLUX_MATCHTAG_NONE))))
      } else do {
        r \<leftarrow> alloc_with_resize malloc call t 0;
        Some (bind_result r (\<lambda>(t, tag). Inr
          (if tag < vM (snd (tp_R t)) then (t\<lparr>reg_avail := reg_avail t - 1\<rparr>, tag)
           else (t, unat FLUX_MATCHTAG_NONE))))
      })"

definition tagpool_free :: "'cb tagpool \<Rightarrow> nat \<Rightarrow> 'cb tagpool result option" where
  "tagpool_free t tag =
     (if tp_magic t \<noteq> TAGPOOL_MAGIC then Some (Inl AssertFailed)
      else if tag \<noteq> unat FLUX_MATCHTAG_NONE then
        let grp = tag div 2 ^ FLUX_MATCHTAG_GROUP_SHIFT
        in if 0 < grp then
             if grp < vM (snd (tp_G t)) then do {
               v \<leftarrow> vb_put (tp_G t) grp;
               Some (Inr (t\<lparr>tp_G := v, group_avail := group_avail t + 1\<rparr>))
             } else Some (Inr t)
           else
             if tag < vM (snd (tp_R t)) then do {
               v \<leftarrow> vb_put (tp_R t) tag;
               Some (Inr (t\<lparr>tp_R := v, reg_avail := reg_avail t + 1\<rparr>))
             } else Some (Inr t)
      else Some (Inr t))"

definition tagpool_getattr :: "'cb tagpool \<Rightarrow> int \<Rightarrow> nat result" where
  "tagpool_getattr t attr =
     (if tp_magic t \<noteq> TAGPOOL_MAGIC then Inl AssertFailed
      else Inr
        (if attr = TAGPOOL_ATTR_REGULAR_SIZE then TAGPOOL_COUNT_REGULAR - 1
         else if attr = TAGPOOL_ATTR_REGULAR_AVAIL then nat (reg_avail t mod 2 ^ 32)
         else if attr = TAGPOOL_ATTR_GROUP_SIZE then TAGPOOL_COUNT_GROUP - 1
         else if attr = TAGPOOL_ATTR_GROUP_AVAIL then nat (group_avail t mod 2 ^ 32)
         else 0))"

text \<open>The pools that a client can come to, with the tags it holds: it frees only those.\<close>

inductive tp_reach :: "(nat \<Rightarrow> store option) \<Rightarrow> 'cb grow_call \<Rightarrow> 'cb tagpool \<Rightarrow> nat set \<Rightarrow> bool"
  for malloc call where
  tp_create: "tagpool_create malloc = Some (Inr t) \<Longrightarrow> tp_reach malloc call t {}"
| tp_set_cb: "tp_reach malloc call t held \<Longrightarrow> tp_reach malloc call (tagpool_set_grow_cb t cb) held"
| tp_alloc: "tp_reach malloc call t held \<Longrightarrow> tagpool_alloc malloc call t flags = Some (Inr (t', tag)) \<Longrightarrow>
    tp_reach malloc call t' (if tag = unat FLUX_MATCHTAG_NONE then held else insert tag held)"
| tp_free: "tp_reach malloc call t held \<Longrightarrow> tag \<in> held \<Longrightarrow> tagpool_free t tag = Some (Inr t') \<Longrightarrow>
    tp_reach malloc call t' (held - {tag})"

subsection \<open>Invariant\<close>

definition pool_inv :: "vblock \<Rightarrow> nat \<Rightarrow> nat set \<Rightarrow> bool" where
  "pool_inv v b used \<longleftrightarrow> vb_ok v \<and> (\<exists>a. vM (snd v) = 2 ^ a \<and> a \<le> b) \<and>
     used \<subseteq> {0<..<vM (snd v)} \<and> vb_mems v = {0<..<vM (snd v)} - used"

definition tp_inv :: "'cb tagpool \<Rightarrow> nat set \<Rightarrow> nat set \<Rightarrow> bool" where
  "tp_inv t R G \<longleftrightarrow> tp_magic t = TAGPOOL_MAGIC \<and> pool_inv (tp_R t) 20 R \<and> pool_inv (tp_G t) 12 G \<and>
     reg_avail t = int TAGPOOL_COUNT_REGULAR - 1 - int (card R) \<and>
     group_avail t = int TAGPOOL_COUNT_GROUP - 1 - int (card G)"

definition held_tags :: "nat set \<Rightarrow> nat set \<Rightarrow> nat set" where
  "held_tags R G = R \<union> (\<lambda>g. g * 2 ^ FLUX_MATCHTAG_GROUP_SHIFT) ` G"

definition quiet :: "'cb grow_call \<Rightarrow> bool" where
  "quiet call \<longleftrightarrow> (\<forall>cb oldsize newsize flags t. call cb oldsize newsize flags t = Some t)"

lemma grow_notify_quiet: "quiet call \<Longrightarrow> grow_notify call t oldsize newsize flags = Some t"
  by (auto simp: grow_notify_def quiet_def split: option.splits)

lemma pool_simps [simp]:
  "pool (set_pool t g v) g = v" "pool (set_pool t g v) (\<not> g) = pool t (\<not> g)"
  "tp_magic (set_pool t g v) = tp_magic t" "reg_avail (set_pool t g v) = reg_avail t"
  "group_avail (set_pool t g v) = group_avail t" "set_pool (set_pool t g v) g v' = set_pool t g v'"
  by (auto simp: pool_def set_pool_def)

lemma pool_invD:
  assumes "pool_inv v b used"
  shows "vb_ok v" "used \<subseteq> {0<..<vM (snd v)}" "vb_mems v = {0<..<vM (snd v)} - used" "vM (snd v) \<le> 2 ^ b"
  using assms by (auto simp: pool_inv_def power_increasing)

lemma pool_set_new:
  assumes "\<exists>mem. malloc (vebsize (m * 2)) = Some mem" and "m * 2 < 2 ^ 32" and "0 < m"
  shows "\<exists>mem T v. vebnew malloc (m * 2) False = Some (Some mem, T) \<and> pool_set (mem, T) m (m * 2) True = Some v \<and>
    vb_ok v \<and> vM (snd v) = m * 2 \<and> vb_mems v = {m..<m * 2} \<and> vb_succ v m = Some m"
proof -
  obtain mem0 where "malloc (vebsize (m * 2)) = Some mem0" using assms(1) by blast
  from vebnew_ok [where malloc = malloc and mem = mem0 and full = False, OF assms(2) this] obtain mem T where
    T: "vebnew malloc (m * 2) False = Some (Some mem, T)" "vb_ok (mem, T)" "vM T = m * 2" "vb_mems (mem, T) = {}"
    by auto
  obtain v where v: "pool_set (mem, T) m (m * 2) True = Some v" "vb_ok v" "vM (snd v) = m * 2"
    "vb_mems v = {x \<in> set [m..<m * 2]. x < m * 2}"
    using vb.put_fold [OF T(2), of "[m..<m * 2]"] T(3,4) by (auto simp: pool_set_def)
  have m: "vb_mems v = {m..<m * 2}" unfolding v(4) by auto
  have "vb_succ v m = Some m" using vb.succ_self [OF v(2), of m] m assms(3) by simp
  then show ?thesis using T(1) v(1-3) m by blast
qed

lemma take_tag:
  assumes "pool_inv v b used" and "tag \<in> vb_mems v"
  shows "\<exists>v'. vb_del v tag = Some v' \<and> vM (snd v') = vM (snd v) \<and> pool_inv v' b (insert tag used) \<and> tag \<notin> used \<and> 0 < tag \<and> tag < vM (snd v)"
proof -
  note p = pool_invD [OF assms(1)]
  obtain v' where "vb_del v tag = Some v'" "vb_ok v'" "vM (snd v') = vM (snd v)" "vb_mems v' = vb_mems v - {tag}"
    using vb.del_law [OF p(1), of tag] by blast
  then show ?thesis using assms p by (auto simp: pool_inv_def)
qed

lemma give_tag:
  assumes "pool_inv v b used" and "tag \<in> used"
  shows "\<exists>v'. vb_put v tag = Some v' \<and> pool_inv v' b (used - {tag}) \<and> tag < vM (snd v)"
proof -
  note p = pool_invD [OF assms(1)]
  obtain v' where "vb_put v tag = Some v'" "vb_ok v'" "vM (snd v') = vM (snd v)"
    "vb_mems v' = (if tag < vM (snd v) then insert tag (vb_mems v) else vb_mems v)"
    using vb.put_law [OF p(1), of tag] by blast
  then show ?thesis using assms p by (auto simp: pool_inv_def)
qed

lemma pool_empty:
  assumes "pool_inv v b used" and "vb_succ v 0 = Some tag"
  shows "tag \<in> vb_mems v \<or> tag = vM (snd v) \<and> used = {0<..<vM (snd v)}"
proof -
  note p = pool_invD [OF assms(1)]
  have "is_succ (vb_mems v) (vM (snd v)) 0 tag" using vb.succ_law [OF p(1), of 0] assms(2) by auto
  then show ?thesis using p(2,3) by (auto simp: is_succ_def)
qed

lemma pool_grown:
  assumes "pool_inv v b {0<..<vM (snd v)}" and "vM (snd v) * 2 \<le> 2 ^ b" and "vb_ok v'" and "vM (snd v') = vM (snd v) * 2"
    and "vb_mems v' = {vM (snd v)..<vM (snd v) * 2}"
  shows "pool_inv v' b {0<..<vM (snd v)}"
proof -
  obtain a where a: "vM (snd v) = 2 ^ a" using assms(1) by (auto simp: pool_inv_def)
  then have m: "vM (snd v') = 2 ^ Suc a" using assms(4) by simp
  then have "(2 :: nat) ^ Suc a \<le> 2 ^ b" using assms(2,4) by simp
  then have "Suc a \<le> b" by (rule power_le_imp_le_exp [rotated]) simp
  moreover have "{0<..<vM (snd v)} \<subseteq> {0<..<vM (snd v')}" "vb_mems v' = {0<..<vM (snd v')} - {0<..<vM (snd v)}"
    using a unfolding assms(4,5) by auto
  ultimately show ?thesis using m assms(3) unfolding pool_inv_def by blast
qed

lemma pool_full_size:
  assumes "pool_inv v b used" and "\<not> vM (snd v) * 2 \<le> 2 ^ b"
  shows "vM (snd v) = 2 ^ b"
proof -
  obtain a where a: "vM (snd v) = 2 ^ a" "a \<le> b" using assms(1) by (auto simp: pool_inv_def)
  have "(2 :: nat) ^ Suc a \<le> 2 ^ b" if "a < b" using that by (intro power_increasing) simp_all
  then show ?thesis using a assms(2) by (cases "a = b") auto
qed

text \<open>What \<open>alloc_with_resize\<close> does to the pool of one kind: it takes a tag that is not in use; without
  one the pool is at its maximum with all tags in use, or memory ran out.\<close>

lemma resize_spec:
  fixes t :: "'cb tagpool"
  assumes "pool_inv (pool t grp) (if grp then 12 else 20) used" and "quiet call"
  shows "\<exists>t' tag. alloc_with_resize malloc call t (if grp then TAGPOOL_FLAG_GROUP else 0) = Some (Inr (t', tag)) \<and>
    (t' = t \<and> tag = vM (snd (pool t grp)) \<and>
       ((\<exists>n. malloc n = None) \<or> used = {0<..<2 ^ (if grp then 12 else 20)}) \<or>
     (\<exists>v. t' = set_pool t grp v \<and> tag < vM (snd v) \<and> 0 < tag \<and> tag \<notin> used \<and>
       pool_inv v (if grp then 12 else 20) (insert tag used)))"
proof -
  let ?v = "pool t grp" and ?b = "if grp then 12 else 20 :: nat" and ?f = "if grp then TAGPOOL_FLAG_GROUP else 0"
  let ?m = "vM (snd ?v)"
  note p = pool_invD [OF assms(1)]
  have g: "(?f AND TAGPOOL_FLAG_GROUP \<noteq> 0) = grp" by (simp add: TAGPOOL_FLAG_GROUP_def)
  have mx: "(if grp then TAGPOOL_COUNT_GROUP else TAGPOOL_COUNT_REGULAR) = 2 ^ ?b"
    by (simp add: TAGPOOL_COUNT_GROUP_def TAGPOOL_COUNT_REGULAR_def)
  have "?m \<le> 2 ^ 20" using p(4) by (auto split: if_splits)
  then have w: "?m * 2 mod 2 ^ 32 = ?m * 2" "?m * 2 < 2 ^ 32" by simp_all
  obtain tag where tag: "vb_succ ?v 0 = Some tag" using vb.succ_law [OF p(1)] by blast
  note unf = alloc_with_resize_def Let_def g mx w(1) tag grow_notify_quiet [OF assms(2)]
  consider (found) "tag \<in> vb_mems ?v" | (full) "tag = ?m" "used = {0<..<?m}" using pool_empty [OF assms(1) tag] by blast
  then show ?thesis
  proof cases
    case found
    then have "tag \<noteq> ?m" using vb.mems_less [OF p(1)] by blast
    moreover from take_tag [OF assms(1) found] obtain v' where "vb_del ?v tag = Some v'" "vM (snd v') = ?m"
      "pool_inv v' ?b (insert tag used)" "tag \<notin> used" "0 < tag" "tag < ?m" by blast
    ultimately show ?thesis
      by (intro exI [of _ "set_pool t grp v'"] exI [of _ tag] conjI disjI2 exI [of _ v']) (simp_all add: unf)
  next
    case full
    show ?thesis
    proof (cases "?m * 2 \<le> 2 ^ ?b \<and> (\<exists>mem. malloc (vebsize (?m * 2)) = Some mem)")
      case True
      have "0 < ?m" using assms(1) by (auto simp: pool_inv_def)
      with pool_set_new [of malloc ?m] True w(2) obtain mem T v where
        v: "vebnew malloc (?m * 2) False = Some (Some mem, T)" "pool_set (mem, T) ?m (?m * 2) True = Some v"
          "vb_ok v" "vM (snd v) = ?m * 2" "vb_mems v = {?m..<?m * 2}" "vb_succ v ?m = Some ?m" by blast
      have inv: "pool_inv v ?b used" using pool_grown [of ?v ?b v] assms(1) True v(3-5) full(2) by simp
      have "?m \<in> vb_mems v" using v(5) \<open>0 < ?m\<close> by simp
      from take_tag [OF inv this] obtain v' where v': "vb_del v ?m = Some v'" "vM (snd v') = vM (snd v)"
        "pool_inv v' ?b (insert ?m used)" "?m \<notin> used" by blast
      then have "alloc_with_resize malloc call t ?f = Some (Inr (set_pool t grp v', ?m))"
        using True v full(1) \<open>0 < ?m\<close> unfolding unf by simp
      then show ?thesis using v' v(4) \<open>0 < ?m\<close>
        by (intro exI [of _ "set_pool t grp v'"] exI [of _ ?m] conjI disjI2 exI [of _ v']) simp_all
    next
      case False
      have "\<exists>T. vebnew malloc (?m * 2) False = Some (None, T)" if "malloc (vebsize (?m * 2)) = None"
        using that by (auto simp: vebnew_def Let_def)
      then have "alloc_with_resize malloc call t ?f = Some (Inr (t, ?m))"
        using False full(1) unfolding unf by (cases "?m * 2 \<le> 2 ^ ?b") auto
      moreover have "(\<exists>n. malloc n = None) \<or> used = {0<..<2 ^ ?b}"
        using False full(2) pool_full_size [OF assms(1)] by (cases "?m * 2 \<le> 2 ^ ?b") auto
      ultimately show ?thesis by blast
    qed
  qed
qed

lemma pool_inv_finite: "pool_inv v b used \<Longrightarrow> finite used"
  by (rule finite_subset [OF pool_invD(2)]) simp_all

lemma held_groups:
  assumes "tp_inv t R G"
  shows "x \<in> R \<Longrightarrow> 0 < x \<and> x < 2 ^ 20" "g \<in> G \<Longrightarrow> 0 < g \<and> g < 2 ^ 12"
proof -
  have "R \<subseteq> {0<..<vM (snd (tp_R t))}" "vM (snd (tp_R t)) \<le> 2 ^ 20" "G \<subseteq> {0<..<vM (snd (tp_G t))}" "vM (snd (tp_G t)) \<le> 2 ^ 12"
    using assms pool_invD(2,4) unfolding tp_inv_def by blast+
  then show "x \<in> R \<Longrightarrow> 0 < x \<and> x < 2 ^ 20" "g \<in> G \<Longrightarrow> 0 < g \<and> g < 2 ^ 12" by fastforce+
qed

lemma held_zero: "tp_inv t R G \<Longrightarrow> 0 \<notin> held_tags R G"
  using held_groups [of t R G] by (fastforce simp: held_tags_def FLUX_MATCHTAG_GROUP_SHIFT_def)

text \<open>An allocation, for each kind.\<close>

lemma alloc_regular:
  assumes "tp_inv t R G" and "quiet call" and "flags AND TAGPOOL_FLAG_GROUP = 0"
  shows "\<exists>t' tag. tagpool_alloc malloc call t flags = Some (Inr (t', tag)) \<and>
    (if tag = 0 then t' = t \<and> ((\<exists>n. malloc n = None) \<or> reg_avail t = 0)
     else tp_inv t' (insert tag R) G \<and> tag \<notin> R \<and> tag < 2 ^ 20)"
proof -
  have inv: "pool_inv (pool t False) (if False then 12 else 20) R" using assms(1) by (simp add: tp_inv_def pool_def)
  obtain t' tag where r: "alloc_with_resize malloc call t 0 = Some (Inr (t', tag))"
    "t' = t \<and> tag = vM (snd (tp_R t)) \<and> ((\<exists>n. malloc n = None) \<or> R = {0<..<2 ^ 20}) \<or>
     (\<exists>v. t' = t\<lparr>tp_R := v\<rparr> \<and> tag < vM (snd v) \<and> 0 < tag \<and> tag \<notin> R \<and> pool_inv v 20 (insert tag R))"
    using resize_spec [OF inv assms(2), of malloc] by (simp add: pool_def set_pool_def) blast
  have M: "tp_magic t = TAGPOOL_MAGIC" using assms(1) by (simp add: tp_inv_def)
  from r(2) consider (mem) "t' = t" "tag = vM (snd (tp_R t))" "\<exists>n. malloc n = None"
    | (all) "t' = t" "tag = vM (snd (tp_R t))" "R = {0<..<2 ^ 20}"
    | (got) v where "t' = t\<lparr>tp_R := v\<rparr>" "tag < vM (snd v)" "0 < tag" "tag \<notin> R" "pool_inv v 20 (insert tag R)"
    by blast
  then show ?thesis
  proof cases
    case mem
    then show ?thesis using r(1) M assms(3) by (simp add: tagpool_alloc_def FLUX_MATCHTAG_NONE_def)
  next
    case all
    then show ?thesis using r(1) M assms(1,3)
      by (simp add: tagpool_alloc_def FLUX_MATCHTAG_NONE_def tp_inv_def TAGPOOL_COUNT_REGULAR_def)
  next
    case v: got
    have "finite R" using inv by (rule pool_inv_finite)
    then have "tp_inv (t'\<lparr>reg_avail := reg_avail t' - 1\<rparr>) (insert tag R) G" using v assms(1) by (simp add: tp_inv_def)
    moreover have "tag < 2 ^ 20" using v(2) pool_invD(4) [OF v(5)] by simp
    ultimately show ?thesis using r(1) M assms(3) v
      by (intro exI [of _ "t'\<lparr>reg_avail := reg_avail t' - 1\<rparr>"] exI [of _ tag]) (simp add: tagpool_alloc_def)
  qed
qed

lemma alloc_group:
  assumes "tp_inv t R G" and "quiet call" and "flags AND TAGPOOL_FLAG_GROUP \<noteq> 0"
  shows "\<exists>t' g. tagpool_alloc malloc call t flags = Some (Inr (t', g * 2 ^ 20)) \<and>
    (if g = 0 then t' = t \<and> ((\<exists>n. malloc n = None) \<or> group_avail t = 0)
     else tp_inv t' R (insert g G) \<and> g \<notin> G \<and> g < 2 ^ 12)"
proof -
  have inv: "pool_inv (pool t True) (if True then 12 else 20) G" using assms(1) by (simp add: tp_inv_def pool_def)
  obtain t' g where r: "alloc_with_resize malloc call t TAGPOOL_FLAG_GROUP = Some (Inr (t', g))"
    "t' = t \<and> g = vM (snd (tp_G t)) \<and> ((\<exists>n. malloc n = None) \<or> G = {0<..<2 ^ 12}) \<or>
     (\<exists>v. t' = t\<lparr>tp_G := v\<rparr> \<and> g < vM (snd v) \<and> 0 < g \<and> g \<notin> G \<and> pool_inv v 12 (insert g G))"
    using resize_spec [OF inv assms(2), of malloc] by (simp add: pool_def set_pool_def) blast
  have M: "tp_magic t = TAGPOOL_MAGIC" using assms(1) by (simp add: tp_inv_def)
  from r(2) consider (mem) "t' = t" "g = vM (snd (tp_G t))" "\<exists>n. malloc n = None"
    | (all) "t' = t" "g = vM (snd (tp_G t))" "G = {0<..<2 ^ 12}"
    | (got) v where "t' = t\<lparr>tp_G := v\<rparr>" "g < vM (snd v)" "0 < g" "g \<notin> G" "pool_inv v 12 (insert g G)"
    by blast
  then show ?thesis
  proof cases
    case mem
    then show ?thesis using r(1) M assms(3)
      by (intro exI [of _ t] exI [of _ 0]) (simp add: tagpool_alloc_def FLUX_MATCHTAG_NONE_def)
  next
    case all
    then show ?thesis using r(1) M assms(1,3)
      by (intro exI [of _ t] exI [of _ 0])
        (simp add: tagpool_alloc_def FLUX_MATCHTAG_NONE_def tp_inv_def TAGPOOL_COUNT_GROUP_def)
  next
    case v: got
    have "finite G" using inv by (rule pool_inv_finite)
    then have "tp_inv (t'\<lparr>group_avail := group_avail t' - 1\<rparr>) R (insert g G)" using v assms(1) by (simp add: tp_inv_def)
    moreover have "g < 2 ^ 12" using v(2) pool_invD(4) [OF v(5)] by simp
    ultimately show ?thesis using r(1) M assms(3) v
      by (intro exI [of _ "t'\<lparr>group_avail := group_avail t' - 1\<rparr>"] exI [of _ g])
        (simp add: tagpool_alloc_def FLUX_MATCHTAG_GROUP_SHIFT_def)
  qed
qed

lemma free_spec:
  assumes "tp_inv t R G" and "tag \<in> held_tags R G" and "tagpool_free t tag = Some (Inr t')"
  shows "\<exists>R' G'. tp_inv t' R' G' \<and> held_tags R' G' = held_tags R G - {tag}"
proof -
  have M: "tp_magic t = TAGPOOL_MAGIC" and pr: "pool_inv (tp_R t) 20 R" and pg: "pool_inv (tp_G t) 12 G"
    using assms(1) by (simp_all add: tp_inv_def)
  note h = held_groups [OF assms(1)]
  have fin: "finite R" "finite G" using pr pg by (auto intro: pool_inv_finite)
  from assms(2) consider (r) "tag \<in> R" | (g) g where "g \<in> G" "tag = g * 2 ^ 20"
    by (auto simp: held_tags_def FLUX_MATCHTAG_GROUP_SHIFT_def)
  then show ?thesis
  proof cases
    case r
    obtain v where v: "vb_put (tp_R t) tag = Some v" "pool_inv v 20 (R - {tag})" "tag < vM (snd (tp_R t))"
      using give_tag [OF pr r] by blast
    have t': "t' = t\<lparr>tp_R := v, reg_avail := reg_avail t + 1\<rparr>"
      using assms(3) M h(1) [OF r] v(1,3)
      by (simp add: tagpool_free_def FLUX_MATCHTAG_NONE_def FLUX_MATCHTAG_GROUP_SHIFT_def Let_def)
    have "card R = Suc (card (R - {tag}))" using fin(1) r by (rule card.remove)
    then have "tp_inv t' (R - {tag}) G" using v(2) assms(1) t' by (simp add: tp_inv_def)
    moreover have "tag \<noteq> g * 2 ^ 20" if "g \<in> G" for g using h(1) [OF r] h(2) [OF that] by auto
    ultimately show ?thesis
      by (intro exI [of _ "R - {tag}"] exI [of _ G]) (auto simp: held_tags_def FLUX_MATCHTAG_GROUP_SHIFT_def)
  next
    case g
    obtain v where v: "vb_put (tp_G t) g = Some v" "pool_inv v 12 (G - {g})" "g < vM (snd (tp_G t))"
      using give_tag [OF pg g(1)] by blast
    have t': "t' = t\<lparr>tp_G := v, group_avail := group_avail t + 1\<rparr>"
      using assms(3) M h(2) [OF g(1)] v(1,3) g(2)
      by (simp add: tagpool_free_def FLUX_MATCHTAG_NONE_def FLUX_MATCHTAG_GROUP_SHIFT_def Let_def)
    have "card G = Suc (card (G - {g}))" using fin(2) g(1) by (rule card.remove)
    then have "tp_inv t' R (G - {g})" using v(2) assms(1) t' by (simp add: tp_inv_def)
    moreover have "g * 2 ^ 20 \<noteq> x" if "x \<in> R" for x using h(1) [OF that] h(2) [OF g(1)] by auto
    ultimately show ?thesis using g(2)
      by (intro exI [of _ R] exI [of _ "G - {g}"]) (auto simp: held_tags_def FLUX_MATCHTAG_GROUP_SHIFT_def)
  qed
qed

lemma alloc_spec:
  fixes t :: "'cb tagpool"
  assumes "tp_inv t R G" and "quiet call"
  shows "\<exists>t' tag. tagpool_alloc malloc call t flags = Some (Inr (t', tag)) \<and> tag \<notin> held_tags R G \<and> tag < 2 ^ 32 \<and>
    (tag = 0 \<longrightarrow> (\<exists>n. malloc n = None) \<or> (if flags AND TAGPOOL_FLAG_GROUP \<noteq> 0 then group_avail t = 0 else reg_avail t = 0)) \<and>
    (\<exists>R' G'. tp_inv t' R' G' \<and> held_tags R' G' = (if tag = 0 then held_tags R G else insert tag (held_tags R G)))"
proof (cases "flags AND TAGPOOL_FLAG_GROUP = 0")
  case True
  obtain t' tag where r: "tagpool_alloc malloc call t flags = Some (Inr (t', tag))"
    "if tag = 0 then t' = t \<and> ((\<exists>n. malloc n = None) \<or> reg_avail t = 0)
     else tp_inv t' (insert tag R) G \<and> tag \<notin> R \<and> tag < 2 ^ 20"
    using alloc_regular [OF assms True] by blast
  show ?thesis
  proof (cases "tag = 0")
    case z: True
    then have "(\<exists>n. malloc n = None) \<or> reg_avail t = 0" "t' = t" using r(2) by simp_all
    then show ?thesis using r(1) z assms(1) True held_zero [OF assms(1)] by auto
  next
    case False
    then have n: "tp_inv t' (insert tag R) G" "tag \<notin> R" "tag < 2 ^ 20" using r(2) by simp_all
    have "tag \<noteq> g * 2 ^ 20" if "g \<in> G" for g using held_groups(2) [OF assms(1) that] n(3) by auto
    then have "tag \<notin> held_tags R G" "held_tags (insert tag R) G = insert tag (held_tags R G)"
      using n(2) by (auto simp: held_tags_def FLUX_MATCHTAG_GROUP_SHIFT_def)
    moreover have "tag < 2 ^ 32" using n(3) by simp
    ultimately show ?thesis using r(1) n(1) False by auto
  qed
next
  case False
  obtain t' g where r: "tagpool_alloc malloc call t flags = Some (Inr (t', g * 2 ^ 20))"
    "if g = 0 then t' = t \<and> ((\<exists>n. malloc n = None) \<or> group_avail t = 0)
     else tp_inv t' R (insert g G) \<and> g \<notin> G \<and> g < 2 ^ 12"
    using alloc_group [OF assms False] by blast
  show ?thesis
  proof (cases "g = 0")
    case z: True
    then have "(\<exists>n. malloc n = None) \<or> group_avail t = 0" "t' = t" using r(2) by simp_all
    then show ?thesis using r(1) z assms(1) False held_zero [OF assms(1)] by auto
  next
    case nz: False
    then have n: "tp_inv t' R (insert g G)" "g \<notin> G" "g < 2 ^ 12" using r(2) by simp_all
    have "g * 2 ^ 20 \<noteq> x" if "x \<in> R" for x using held_groups(1) [OF assms(1) that] nz by auto
    then have "g * 2 ^ 20 \<notin> held_tags R G" "held_tags R (insert g G) = insert (g * 2 ^ 20) (held_tags R G)"
      using n(2) by (auto simp: held_tags_def FLUX_MATCHTAG_GROUP_SHIFT_def)
    moreover have "g * 2 ^ 20 < 2 ^ 32" "g * 2 ^ 20 \<noteq> 0" using n(3) nz by simp_all
    ultimately show ?thesis using r(1) n(1) by auto
  qed
qed

lemma create_pool:
  assumes "vebnew malloc TAGPOOL_START True = Some (Some mem, T)" and "vb_del (mem, T) 0 = Some v" and "10 \<le> b"
  shows "pool_inv v b {}"
proof -
  have "malloc (vebsize TAGPOOL_START) \<noteq> None"
    using assms(1) by (auto simp: vebnew_def Let_def split: option.splits)
  then obtain mem0 where m: "malloc (vebsize TAGPOOL_START) = Some mem0" by blast
  have "TAGPOOL_START < 2 ^ 32" by (simp add: TAGPOOL_START_def)
  from vebnew_ok [where malloc = malloc and mem = mem0 and full = True, OF this m] assms(1)
  have T: "vb_ok (mem, T)" "vM T = 2 ^ 10" "vb_mems (mem, T) = {..<2 ^ 10}" by (auto simp: TAGPOOL_START_def)
  from vb.del_law [OF T(1), of 0] assms(2) T(2,3) have v: "vb_ok v" "vM (snd v) = 2 ^ 10" "vb_mems v = {..<2 ^ 10} - {0}"
    by auto
  have "vb_mems v = {0<..<vM (snd v)} - {}" unfolding v(2,3) by auto
  then show ?thesis using v(1,2) assms(3) unfolding pool_inv_def by blast
qed

lemma create_inv:
  assumes "tagpool_create malloc = Some (Inr t)"
  shows "tp_inv t {} {}"
proof -
  obtain r R G where n: "vebnew malloc TAGPOOL_START True = Some r" "fst r \<noteq> None"
    "vb_del (the (fst r), snd r) 0 = Some R" "vb_del (the (fst r), snd r) 0 = Some G"
    "t = \<lparr>tp_magic = TAGPOOL_MAGIC, tp_R = R, reg_avail = int TAGPOOL_COUNT_REGULAR - 1,
       tp_G = G, group_avail = int TAGPOOL_COUNT_GROUP - 1, grow_cb = None, grow_depth = 0\<rparr>"
    using assms by (auto simp: tagpool_create_def FLUX_MATCHTAG_NONE_def bind_eq_Some_conv split: if_splits)
  obtain mem T where "r = (Some mem, T)" using n(2) by (cases r) auto
  then have "pool_inv R 20 {}" "pool_inv G 12 {}" using create_pool n(1,3,4) by auto
  then show ?thesis using n(5) by (simp add: tp_inv_def)
qed

lemma reach_inv:
  assumes "tp_reach malloc call t held" and "quiet call"
  shows "\<exists>R G. tp_inv t R G \<and> held = held_tags R G"
  using assms(1)
proof induction
  case (tp_create t)
  then show ?case using create_inv [of malloc t] by (intro exI [of _ "{}"]) (simp add: held_tags_def)
next
  case (tp_set_cb t held cb)
  then show ?case by (simp add: tp_inv_def tagpool_set_grow_cb_def)
next
  case (tp_alloc t held flags t' tag)
  then obtain R G where i: "tp_inv t R G" "held = held_tags R G" by blast
  obtain R' G' where "tp_inv t' R' G'" "held_tags R' G' = (if tag = 0 then held_tags R G else insert tag (held_tags R G))"
    using alloc_spec [OF i(1) assms(2), of malloc flags] tp_alloc(2) by auto
  then show ?case using i(2) by (intro exI [of _ R'] exI [of _ G']) (simp add: FLUX_MATCHTAG_NONE_def)
next
  case (tp_free t held tag t')
  then obtain R G where i: "tp_inv t R G" "held = held_tags R G" by blast
  from free_spec [OF i(1)] tp_free(2,3) i(2) show ?case by metis
qed

lemma sample_pool:
  assumes "\<forall>n. malloc n \<noteq> None"
  obtains t where "tagpool_create malloc = Some (Inr t)"
proof -
  have "TAGPOOL_START < 2 ^ 32" by (simp add: TAGPOOL_START_def)
  obtain mem0 where m: "malloc (vebsize TAGPOOL_START) = Some mem0" using assms by blast
  from vebnew_ok [where malloc = malloc and mem = mem0 and full = True, OF \<open>TAGPOOL_START < 2 ^ 32\<close> m] obtain mem T where
    T: "vebnew malloc TAGPOOL_START True = Some (Some mem, T)" "vb_ok (mem, T)" by blast
  obtain v where "vb_del (mem, T) 0 = Some v" using vb.del_law [OF T(2), of 0] by blast
  then show thesis using that T(1) assms by (simp add: tagpool_create_def FLUX_MATCHTAG_NONE_def)
qed

text \<open>A growth callback that allocates a tag itself; \<open>grow_depth\<close> keeps it from being called again.\<close>

definition alloc_in_callback :: "(nat \<Rightarrow> store option) \<Rightarrow> 'cb grow_call" where
  "alloc_in_callback malloc cb oldsize newsize flags t =
     do { r \<leftarrow> tagpool_alloc malloc (\<lambda>cb oldsize newsize flags t. None) t 0;
          case r of Inl e \<Rightarrow> None | Inr (t, tag) \<Rightarrow> Some t }"

lemma grow_alloc:
  assumes "vb_ok (tp_R t)" and "vb_mems (tp_R t) = {}" and "0 < vM (snd (tp_R t))" and "vM (snd (tp_R t)) * 2 \<le> 2 ^ 20"
    and "\<forall>n. malloc n \<noteq> None" and "tp_magic t = TAGPOOL_MAGIC"
    and "grow_notify call t (vM (snd (tp_R t))) (vM (snd (tp_R t)) * 2) 0 = Some t1"
  shows "\<exists>v. tagpool_alloc malloc call t 0 =
    Some (Inr (t1\<lparr>tp_R := v, reg_avail := reg_avail t1 - 1\<rparr>, vM (snd (tp_R t))))"
proof -
  let ?m = "vM (snd (tp_R t))"
  have w: "?m * 2 mod 2 ^ 32 = ?m * 2" "?m * 2 < 2 ^ 32" using assms(4) by simp_all
  have "vb_succ (tp_R t) 0 = Some ?m" using vb.succ_law [OF assms(1), of 0] assms(2) by (auto simp: is_succ_def)
  moreover obtain mem T v where "vebnew malloc (?m * 2) False = Some (Some mem, T)" "pool_set (mem, T) ?m (?m * 2) True = Some v"
    "vb_ok v" "vM (snd v) = ?m * 2" "vb_succ v ?m = Some ?m"
    using pool_set_new [of malloc ?m] w(2) assms(3,5) by blast
  moreover from this(3) obtain v' where "vb_del v ?m = Some v'" "vM (snd v') = vM (snd v)" using vb.del_law [of v ?m] by blast
  ultimately have "alloc_with_resize malloc call t 0 = Some (Inr (t1\<lparr>tp_R := v'\<rparr>, ?m))"
    using assms(3,4,7) unfolding alloc_with_resize_def Let_def TAGPOOL_COUNT_REGULAR_def
    by (simp add: pool_def set_pool_def w(1) [simplified])
  then show ?thesis using \<open>vM (snd v') = vM (snd v)\<close> \<open>vM (snd v) = ?m * 2\<close> assms(3,6)
    by (intro exI [of _ v']) (simp add: tagpool_alloc_def)
qed

subsection \<open>Properties\<close>

text \<open>C10: in every pool that a client can come to, allocation returns, and the tag is none of those the
  client holds; it is \<open>FLUX_MATCHTAG_NONE\<close> only if all tags of the kind are in use or memory ran out. The
  hypothesis is that the growth callback leaves the pool alone, as the one that \<^verbatim>\<open>handle.c\<close> sets, which
  logs a line without asking for a response, does.\<close>

theorem tagpool_alloc_unique:
  assumes "tp_reach malloc call t held" and "quiet call"
  shows "\<exists>t' tag. tagpool_alloc malloc call t flags = Some (Inr (t', tag)) \<and> tag \<notin> held \<and> tag < 2 ^ 32 \<and>
    (tag = unat FLUX_MATCHTAG_NONE \<longrightarrow>
      (\<exists>n. malloc n = None) \<or> (if flags AND TAGPOOL_FLAG_GROUP \<noteq> 0 then group_avail t = 0 else reg_avail t = 0))"
proof -
  obtain R G where i: "tp_inv t R G" "held = held_tags R G" using reach_inv [OF assms] by blast
  from alloc_spec [OF i(1) assms(2), of malloc flags] i(2) show ?thesis
    unfolding FLUX_MATCHTAG_NONE_def unat_0 by blast
qed

theorem tagpool_alloc_unique_witness:
  "\<exists>(t :: unit tagpool) t' tag. tagpool_create (\<lambda>n. Some (\<lambda>a. 7)) = Some (Inr t) \<and>
     tagpool_alloc (\<lambda>n. Some (\<lambda>a. 7)) (\<lambda>cb oldsize newsize flags t. Some t) t 0 = Some (Inr (t', tag)) \<and>
     tag \<noteq> unat FLUX_MATCHTAG_NONE"
proof -
  let ?m = "\<lambda>n. Some (\<lambda>a. 7)" and ?c = "\<lambda>cb oldsize newsize flags t. Some t"
  obtain t :: "unit tagpool" where t: "tagpool_create ?m = Some (Inr t)" by (rule sample_pool [of ?m]) simp_all
  have "reg_avail t \<noteq> 0" using create_inv [OF t] by (simp add: tp_inv_def TAGPOOL_COUNT_REGULAR_def)
  moreover have "quiet ?c" by (simp add: quiet_def)
  ultimately show ?thesis
    using tagpool_alloc_unique [OF tp_create [OF t], of ?c 0] t by auto
qed

text \<open>C32: with a growth callback that itself allocates, which \<open>grow_depth\<close> expects, the same tag is
  allocated twice: the callback's allocation, the first one here, has already grown the pool when the
  outer call replaces it with a new tree.\<close>

theorem tagpool_grow_reentrant:
  fixes t :: "'cb tagpool"
  assumes "vb_ok (tp_R t)" and "vb_mems (tp_R t) = {}" and "0 < vM (snd (tp_R t))" and "vM (snd (tp_R t)) * 2 \<le> 2 ^ 20"
    and "\<forall>n. malloc n \<noteq> None" and "tp_magic t = TAGPOOL_MAGIC" and "grow_cb t = Some cb" and "grow_depth t = 0"
  shows "\<exists>t1 t2 tag. tagpool_alloc malloc (\<lambda>cb oldsize newsize flags t. None) (t\<lparr>grow_depth := 1\<rparr>) 0 = Some (Inr (t1, tag)) \<and>
    tagpool_alloc malloc (alloc_in_callback malloc) t 0 = Some (Inr (t2, tag)) \<and> tag \<noteq> unat FLUX_MATCHTAG_NONE"
proof -
  let ?m = "vM (snd (tp_R t))" and ?q = "\<lambda>cb oldsize newsize flags t. None :: 'cb tagpool option"
  have "grow_notify ?q (t\<lparr>grow_depth := 1\<rparr>) ?m (?m * 2) 0 = Some (t\<lparr>grow_depth := 1\<rparr>)"
    by (simp add: grow_notify_def split: option.splits)
  then obtain t1 where t1: "tagpool_alloc malloc ?q (t\<lparr>grow_depth := 1\<rparr>) 0 = Some (Inr (t1, ?m))"
    using grow_alloc [of "t\<lparr>grow_depth := 1\<rparr>" malloc ?q] assms(1-6) by auto
  then have "grow_notify (alloc_in_callback malloc) t ?m (?m * 2) 0 = Some (t1\<lparr>grow_depth := grow_depth t1 - 1\<rparr>)"
    using assms(7,8) by (simp add: grow_notify_def alloc_in_callback_def)
  from grow_alloc [OF assms(1-6) this] t1 assms(3) show ?thesis by (auto simp: FLUX_MATCHTAG_NONE_def)
qed

theorem tagpool_grow_reentrant_witness:
  "\<exists>(t :: unit tagpool) t1 t2 tag. tp_magic t = TAGPOOL_MAGIC \<and>
     tagpool_alloc (\<lambda>n. Some (\<lambda>a. 7)) (\<lambda>cb oldsize newsize flags t. None) (t\<lparr>grow_depth := 1\<rparr>) 0 = Some (Inr (t1, tag)) \<and>
     tagpool_alloc (\<lambda>n. Some (\<lambda>a. 7)) (alloc_in_callback (\<lambda>n. Some (\<lambda>a. 7))) t 0 = Some (Inr (t2, tag))"
proof -
  obtain mem T where T: "vb_ok (mem, T)" "vM T = 1024" "vb_mems (mem, T) = {}" by (rule sample_tree [of 1024 False]) simp_all
  let ?t = "\<lparr>tp_magic = TAGPOOL_MAGIC, tp_R = (mem, T), reg_avail = 0, tp_G = (mem, T), group_avail = 0,
    grow_cb = Some (), grow_depth = 0\<rparr>"
  show ?thesis by (rule exI [of _ ?t]) (use tagpool_grow_reentrant [of ?t "\<lambda>n. Some (\<lambda>a. 7)" "()"] T in auto)
qed

end
