(* ===== verification/Fluid.thy ===== *)
theory Fluid
  imports Flux_Prelude
begin

text \<open>
  Locally unique job identifiers, \<^verbatim>\<open>src/common/libutil/fluid.c\<close>: 40 bits of time in milliseconds since the
  generator was made, 14 bits for the generator and 10 bits of sequence number. The readings of
  \<open>clock_gettime\<close> are a list of seconds and nanoseconds, or \<open>None\<close> where the call fails; a generator
  that waits for the next millisecond consumes several. The two functions of \<^verbatim>\<open>mnemonic.c\<close>, a bundled
  library, are arguments. A return value of \<open>-1\<close> is \<open>None\<close>.
\<close>

unbundle bit_operations_syntax

subsection \<open>Generating\<close>

type_synonym fluid_t = "64 word"

type_synonym clock = "(nat \<times> nat) option list"

definition bits_per_ts :: nat where "bits_per_ts = 40"

definition bits_per_id :: nat where "bits_per_id = 14"

definition bits_per_seq :: nat where "bits_per_seq = 10"

record fluid_generator =
  gen_id :: "16 word"
  epoch :: "64 word"
  gen_seq :: "16 word"
  last_ds :: "64 word"

definition current_ds :: "(nat \<times> nat) option \<Rightarrow> 64 word option" where
  "current_ds reading = map_option (\<lambda>(tv_sec, tv_nsec). of_nat (tv_sec * 1000 + tv_nsec div 1000000)) reading"

text \<open>The generator is not initialized if the second check fails, where the epoch has been stored.\<close>

definition fluid_init :: "(nat \<times> nat) option \<Rightarrow> uint32 \<Rightarrow> fluid_generator option" where
  "fluid_init reading i =
     (case current_ds reading of
        None \<Rightarrow> None
      | Some s \<Rightarrow>
          if 2 ^ bits_per_id \<le> i then None
          else Some \<lparr>gen_id = ucast i, epoch = s, gen_seq = 0, last_ds = 0\<rparr>)"

text \<open>The result, the generator and the readings that are left. No more readings means that the call is
  still waiting.\<close>

fun fluid_generate :: "fluid_generator \<Rightarrow> clock \<Rightarrow> (fluid_t option \<times> fluid_generator \<times> clock) option" where
  "fluid_generate gen [] = None"
| "fluid_generate gen (reading # clock) =
     (case current_ds reading of
        None \<Rightarrow> Some (None, gen, clock)
      | Some s \<Rightarrow>
          let gen = (if s = last_ds gen then gen\<lparr>gen_seq := gen_seq gen + 1\<rparr>
                     else gen\<lparr>gen_seq := 0, last_ds := s\<rparr>)
          in if 2 ^ bits_per_ts \<le> s - epoch gen then Some (None, gen, clock)
             else if 2 ^ bits_per_seq \<le> gen_seq gen then fluid_generate gen clock
             else Some (Some (push_bit (bits_per_seq + bits_per_id) (s - epoch gen) OR
                   push_bit bits_per_seq (ucast (gen_id gen)) OR ucast (gen_seq gen)), gen, clock))"

subsection \<open>Text\<close>

definition FLUID_STRING_DOTHEX :: int where "FLUID_STRING_DOTHEX = 1"
definition FLUID_STRING_MNEMONIC :: int where "FLUID_STRING_MNEMONIC = 2"

definition hexdigit :: "nat \<Rightarrow> byte" where
  "hexdigit d = (if d < 10 then of_nat (48 + d) else of_nat (87 + d))"

definition hex4 :: "nat \<Rightarrow> cstring" where
  "hex4 n = [hexdigit (n div 4096 mod 16), hexdigit (n div 256 mod 16), hexdigit (n div 16 mod 16), hexdigit (n mod 16)]"

text \<open>\<open>snprintf\<close> returns the length of the text, or a negative number; a buffer that is too small for
  it, one of negative size included, fails the call.\<close>

definition fluid_encode_dothex :: "int \<Rightarrow> fluid_t \<Rightarrow> cstring option" where
  "fluid_encode_dothex bufsz fluid =
     (let part = (\<lambda>k. hex4 (unat (drop_bit k fluid AND 0xffff)));
          str = part 48 @ [46] @ part 32 @ [46] @ part 16 @ [46] @ part 0
      in if bufsz \<le> int (length str) then None else Some str)"

text \<open>On success, the text that is in the buffer afterwards: for a type that is neither of the two,
  what was there before.\<close>

definition fluid_encode ::
  "(fluid_t \<Rightarrow> int \<Rightarrow> cstring option) \<Rightarrow> cstring \<Rightarrow> int \<Rightarrow> fluid_t \<Rightarrow> int \<Rightarrow> cstring option" where
  "fluid_encode mn_encode buf bufsz fluid type =
     (if type = FLUID_STRING_DOTHEX then fluid_encode_dothex bufsz fluid
      else if type = FLUID_STRING_MNEMONIC then mn_encode fluid bufsz
      else Some buf)"

text \<open>\<open>strtoul\<close> in base 16: white space, a sign, an optional \<open>0x\<close> and digits.\<close>

definition hexval :: "byte \<Rightarrow> nat option" where
  "hexval c =
     (if 48 \<le> c \<and> c \<le> 57 then Some (unat c - 48)
      else if 97 \<le> c \<and> c \<le> 102 then Some (unat c - 87)
      else if 65 \<le> c \<and> c \<le> 70 then Some (unat c - 55)
      else None)"

fun hexdigits :: "nat \<Rightarrow> cstring \<Rightarrow> nat \<times> cstring" where
  "hexdigits a [] = (a, [])"
| "hexdigits a (c # s) = (case hexval c of None \<Rightarrow> (a, c # s) | Some d \<Rightarrow> hexdigits (16 * a + d) s)"

definition is_hex :: "cstring \<Rightarrow> bool" where
  "is_hex s \<longleftrightarrow> s \<noteq> [] \<and> hexval (hd s) \<noteq> None"

definition strtoul16 :: "cstring \<Rightarrow> 64 word \<times> cstring" where
  "strtoul16 s =
     (let s1 = dropWhile (\<lambda>c. c = 32 \<or> 9 \<le> c \<and> c \<le> 13) s;
          neg = (s1 \<noteq> [] \<and> hd s1 = 45);
          s2 = (if s1 \<noteq> [] \<and> (hd s1 = 45 \<or> hd s1 = 43) then tl s1 else s1);
          s3 = (if take 1 s2 = [48] \<and> (take 1 (tl s2) = [120] \<or> take 1 (tl s2) = [88]) \<and> is_hex (tl (tl s2))
                then tl (tl s2) else s2);
          (n, rest) = hexdigits 0 s3
      in if \<not> is_hex s3 then (0, s)
         else (if 2 ^ 64 \<le> n then - 1 else if neg then - of_nat n else of_nat n, rest))"

definition fluid_decode_dothex :: "cstring \<Rightarrow> fluid_t option" where
  "fluid_decode_dothex s =
     (let (b0, e0) = strtoul16 s
      in if take 1 e0 \<noteq> [46] then None
      else let (b1, e1) = strtoul16 (tl e0)
      in if take 1 e1 \<noteq> [46] then None
      else let (b2, e2) = strtoul16 (tl e1)
      in if take 1 e2 \<noteq> [46] then None
      else let (b3, e3) = strtoul16 (tl e2)
      in if e3 \<noteq> [] then None
      else Some (push_bit 48 b0 OR push_bit 32 b1 OR push_bit 16 b2 OR b3))"

definition fluid_validate :: "fluid_t \<Rightarrow> bool" where
  "fluid_validate fluid =
     (let ts = drop_bit (bits_per_seq + bits_per_id) fluid;
          i = drop_bit bits_per_seq fluid AND (2 ^ bits_per_id - 1);
          seq = fluid AND (2 ^ bits_per_seq - 1)
      in \<not> 2 ^ bits_per_ts \<le> ts \<and> \<not> 2 ^ bits_per_id \<le> i \<and> \<not> 2 ^ bits_per_seq \<le> seq)"

text \<open>\<open>mn_decode\<close> gives the 8 bytes, or a failure.\<close>

definition fluid_decode :: "(cstring \<Rightarrow> fluid_t option) \<Rightarrow> cstring \<Rightarrow> int \<Rightarrow> fluid_t option" where
  "fluid_decode mn_decode s type =
     (case (if type = FLUID_STRING_DOTHEX then fluid_decode_dothex s
            else if type = FLUID_STRING_MNEMONIC then mn_decode s else None) of
        None \<Rightarrow> None
      | Some fluid \<Rightarrow> if fluid_validate fluid then Some fluid else None)"

subsection \<open>Identifiers as numbers\<close>

lemma push_bit_or: "x < 2 ^ n \<Longrightarrow> push_bit n a OR x = a * 2 ^ n + x" for a x :: nat
proof -
  assume "x < 2 ^ n"
  then have "\<not> bit x k" if "n \<le> k" for k using that by (metis bit_take_bit_iff linorder_not_le take_bit_nat_eq_self_iff)
  then have "push_bit n a AND x = 0" by (intro bit_eqI) (auto simp: bit_simps)
  then have "push_bit n a + x = push_bit n a OR x" by (rule disjunctive_add_eq_or)
  then show ?thesis by (simp add: push_bit_eq_mult)
qed

lemma unat_push_bit: "unat w < 2 ^ (64 - n) \<Longrightarrow> n \<le> 64 \<Longrightarrow> unat (push_bit n w) = push_bit n (unat w)" for w :: "64 word"
proof -
  assume "unat w < 2 ^ (64 - n)" and "n \<le> 64"
  then have "push_bit n (unat w) < 2 ^ 64"
    by (metis le_add_diff_inverse2 mult_less_mono1 power_add push_bit_eq_mult zero_less_numeral zero_less_power)
  then show ?thesis by (simp add: unsigned_push_bit_eq take_bit_nat_eq_self_iff)
qed

lemma unat_fluid:
  fixes ts :: "64 word" and i seq :: "16 word"
  assumes "ts < 2 ^ 40" and "i < 2 ^ 14" and "seq < 2 ^ 10"
  shows "unat (push_bit 24 ts OR push_bit 10 (ucast i) OR ucast seq :: 64 word) = unat ts * 2 ^ 24 + (unat i * 2 ^ 10 + unat seq)"
proof -
  have b: "unat ts < 2 ^ 40" "unat i < 2 ^ 14" "unat seq < 2 ^ 10" using assms by (simp_all add: word_less_nat_alt)
  have "unat (push_bit 24 ts) = push_bit 24 (unat ts)"
    using b(1) by (intro unat_push_bit) simp_all
  moreover have "unat (ucast i :: 64 word) = unat i" "unat (ucast seq :: 64 word) = unat seq"
    using b by (simp_all add: unsigned_ucast_eq take_bit_nat_eq_self_iff)
  moreover have "unat (push_bit 10 (ucast i :: 64 word)) = push_bit 10 (unat i)"
    using b(2) calculation(2) unat_push_bit [of "ucast i" 10] by simp
  ultimately have "unat (push_bit 24 ts OR push_bit 10 (ucast i) OR ucast seq :: 64 word) =
      push_bit 24 (unat ts) OR (push_bit 10 (unat i) OR unat seq)"
    by (simp only: unsigned_or_eq or.assoc)
  also have "push_bit 10 (unat i) OR unat seq = unat i * 2 ^ 10 + unat seq" by (rule push_bit_or [OF b(3)])
  also have "push_bit 24 (unat ts) OR (unat i * 2 ^ 10 + unat seq) = unat ts * 2 ^ 24 + (unat i * 2 ^ 10 + unat seq)"
    by (rule push_bit_or) (use b(2,3) in simp)
  finally show ?thesis .
qed

subsection \<open>All identifiers of a generator\<close>

definition gen_tick :: "fluid_generator \<Rightarrow> 64 word \<Rightarrow> fluid_generator" where
  "gen_tick gen s = (if s = last_ds gen then gen\<lparr>gen_seq := gen_seq gen + 1\<rparr> else gen\<lparr>gen_seq := 0, last_ds := s\<rparr>)"

definition fluid_of :: "fluid_generator \<Rightarrow> fluid_t" where
  "fluid_of gen = push_bit 24 (last_ds gen - epoch gen) OR push_bit 10 (ucast (gen_id gen)) OR ucast (gen_seq gen)"

lemma fluid_generate_Cons:
  "fluid_generate gen (reading # clock) =
     (case current_ds reading of
        None \<Rightarrow> Some (None, gen, clock)
      | Some s \<Rightarrow>
          if 2 ^ 40 \<le> s - epoch gen then Some (None, gen_tick gen s, clock)
          else if 2 ^ 10 \<le> gen_seq (gen_tick gen s) then fluid_generate (gen_tick gen s) clock
          else Some (Some (fluid_of (gen_tick gen s)), gen_tick gen s, clock))"
  by (simp add: gen_tick_def fluid_of_def bits_per_ts_def bits_per_seq_def bits_per_id_def Let_def split: option.split)

declare fluid_generate.simps(2) [simp del]

lemma fluid_generate_shorter: "fluid_generate gen clock = Some (r, gen', rest) \<Longrightarrow> length rest < length clock"
  by (induction clock arbitrary: gen) (auto simp: fluid_generate_Cons less_Suc_eq split: option.splits if_splits)

function fluids :: "fluid_generator \<Rightarrow> clock \<Rightarrow> fluid_t list" where
  "fluids gen clock =
     (case fluid_generate gen clock of
        None \<Rightarrow> []
      | Some (None, gen', rest) \<Rightarrow> fluids gen' rest
      | Some (Some f, gen', rest) \<Rightarrow> f # fluids gen' rest)"
  by pat_completeness auto
termination
  by (relation "measure (\<lambda>(g, c). length c)") (auto dest: fluid_generate_shorter)

declare fluids.simps [simp del]

definition readings :: "clock \<Rightarrow> 64 word list" where
  "readings clock = List.map_filter current_ds clock"

lemma readings_simps [simp]:
  "readings [] = []"
  "readings (r # clock) = (case current_ds r of None \<Rightarrow> readings clock | Some s \<Rightarrow> s # readings clock)"
  by (simp_all add: readings_def map_filter_simps split: option.split)

text \<open>A clock that never goes back and is read less than \<open>2^16\<close> times in a millisecond.\<close>

definition steady :: "clock \<Rightarrow> bool" where
  "steady clock \<longleftrightarrow> sorted (readings clock) \<and> (\<forall>s. count_list (readings clock) s < 2 ^ 16)"

definition gen_ok :: "fluid_generator \<Rightarrow> clock \<Rightarrow> bool" where
  "gen_ok gen clock \<longleftrightarrow> gen_id gen < 2 ^ 14 \<and> steady clock \<and>
     (\<forall>s \<in> set (readings clock). last_ds gen \<le> s \<and> epoch gen \<le> s) \<and>
     unat (gen_seq gen) + count_list (readings clock) (last_ds gen) < 2 ^ 16"

text \<open>The number that the next identifier exceeds.\<close>

definition gen_mark :: "fluid_generator \<Rightarrow> int" where
  "gen_mark gen = (int (unat (last_ds gen)) - int (unat (epoch gen))) * 2 ^ 24 + int (unat (gen_id gen)) * 2 ^ 10 + int (unat (gen_seq gen))"

lemma gen_tick_ok:
  assumes "gen_ok gen (r # clock)" and "current_ds r = Some s"
  shows "gen_ok (gen_tick gen s) clock" "gen_mark gen < gen_mark (gen_tick gen s)"
    "last_ds (gen_tick gen s) = s" "epoch (gen_tick gen s) = epoch gen" "gen_id (gen_tick gen s) = gen_id gen" "epoch gen \<le> s"
proof -
  have o: "gen_id gen < 2 ^ 14" "steady (r # clock)" "last_ds gen \<le> s" "epoch gen \<le> s"
    "unat (gen_seq gen) + count_list (s # readings clock) (last_ds gen) < 2 ^ 16"
    using assms by (simp_all add: gen_ok_def)
  have c: "count_list (s # readings clock) x < 2 ^ 16" for x using o(2) assms(2) by (simp only: steady_def readings_simps option.case)
  have c': "count_list (readings clock) x < 2 ^ 16" for x using c [of x] by (simp split: if_splits)
  have "sorted (s # readings clock)" using o(2) assms(2) by (simp add: steady_def)
  then have st: "steady clock" "\<forall>x \<in> set (readings clock). s \<le> x \<and> epoch gen \<le> x"
    using o(4) c' by (auto simp: steady_def)
  show "last_ds (gen_tick gen s) = s" "epoch (gen_tick gen s) = epoch gen" "gen_id (gen_tick gen s) = gen_id gen" "epoch gen \<le> s"
    using o(4) by (simp_all add: gen_tick_def)
  show "gen_ok (gen_tick gen s) clock"
  proof (cases "s = last_ds gen")
    case True
    then have "unat (gen_seq gen) + 1 + count_list (readings clock) s < 2 ^ 16" using o(5) by simp
    moreover from this have "unat (gen_seq gen + 1) = unat (gen_seq gen) + 1" by (intro unat_add_lem [THEN iffD1, THEN trans]) simp_all
    ultimately show ?thesis using True o(1) st by (simp add: gen_ok_def gen_tick_def)
  next
    case False
    then show ?thesis using o(1) st c [of s] by (simp add: gen_ok_def gen_tick_def)
  qed
  show "gen_mark gen < gen_mark (gen_tick gen s)"
  proof (cases "s = last_ds gen")
    case True
    then have "unat (gen_seq gen) + 1 < 2 ^ 16" using o(5) by simp
    then have "unat (gen_seq gen + 1) = unat (gen_seq gen) + 1" by (intro unat_add_lem [THEN iffD1, THEN trans]) simp_all
    then show ?thesis using True by (simp add: gen_mark_def gen_tick_def)
  next
    case False
    then have "unat (last_ds gen) < unat s" using o(3) by (metis order_le_neq_trans word_less_nat_alt)
    then have "int (unat (last_ds gen)) + 1 \<le> int (unat s)" by linarith
    then have "(int (unat (last_ds gen)) + 1) * 2 ^ 24 \<le> int (unat s) * 2 ^ 24" by (intro mult_right_mono) simp_all
    moreover have "int (unat (gen_seq gen)) < 2 ^ 16" using unsigned_less [of "gen_seq gen"] by simp
    ultimately show ?thesis using False by (simp add: gen_mark_def gen_tick_def left_diff_distrib distrib_right)
  qed
qed

lemma fluid_of_mark:
  assumes "gen_id gen < 2 ^ 14" and "epoch gen \<le> last_ds gen" and "last_ds gen - epoch gen < 2 ^ 40" and "gen_seq gen < 2 ^ 10"
  shows "int (unat (fluid_of gen)) = gen_mark gen" "unat (fluid_of gen) div 2 ^ 10 mod 2 ^ 14 = unat (gen_id gen)"
proof -
  have u: "unat (fluid_of gen) = unat (last_ds gen - epoch gen) * 2 ^ 24 + (unat (gen_id gen) * 2 ^ 10 + unat (gen_seq gen))"
    unfolding fluid_of_def by (rule unat_fluid [OF assms(3,1,4)])
  have "int (unat (last_ds gen - epoch gen)) = int (unat (last_ds gen)) - int (unat (epoch gen))"
    using assms(2) by (simp add: unat_sub word_le_nat_alt of_nat_diff)
  then show "int (unat (fluid_of gen)) = gen_mark gen" unfolding u gen_mark_def by simp
  have b: "unat (gen_id gen) < 2 ^ 14" "unat (gen_seq gen) < 2 ^ 10" using assms(1,4) by (simp_all add: word_less_nat_alt)
  have "unat (fluid_of gen) = (unat (last_ds gen - epoch gen) * 2 ^ 14 + unat (gen_id gen)) * 2 ^ 10 + unat (gen_seq gen)"
    unfolding u by simp
  then have "unat (fluid_of gen) div 2 ^ 10 = unat (last_ds gen - epoch gen) * 2 ^ 14 + unat (gen_id gen)"
    using b(2) by (metis div_mult_self3 div_less add_0 add.commute zero_neq_numeral power_eq_0_iff)
  then show "unat (fluid_of gen) div 2 ^ 10 mod 2 ^ 14 = unat (gen_id gen)" using b(1) by simp
qed

lemma generate_ok:
  assumes "gen_ok gen clock" and "fluid_generate gen clock = Some (r, gen', rest)"
  shows "gen_ok gen' rest \<and> gen_id gen' = gen_id gen \<and> gen_mark gen \<le> gen_mark gen' \<and>
    (\<forall>f. r = Some f \<longrightarrow> int (unat f) = gen_mark gen' \<and> gen_mark gen < gen_mark gen' \<and>
      unat f div 2 ^ 10 mod 2 ^ 14 = unat (gen_id gen))"
  using assms
proof (induction clock arbitrary: gen)
  case (Cons reading clock)
  show ?case
  proof (cases "current_ds reading")
    case None
    then have "gen_ok gen clock" using Cons.prems(1) by (simp add: gen_ok_def steady_def)
    then show ?thesis using Cons.prems(2) None by (auto simp: fluid_generate_Cons)
  next
    case (Some s)
    note t = gen_tick_ok [OF Cons.prems(1) Some]
    consider (late) "2 ^ 40 \<le> s - epoch gen" | (wait) "\<not> 2 ^ 40 \<le> s - epoch gen" "2 ^ 10 \<le> gen_seq (gen_tick gen s)"
      | (got) "\<not> 2 ^ 40 \<le> s - epoch gen" "\<not> 2 ^ 10 \<le> gen_seq (gen_tick gen s)" by blast
    then show ?thesis
    proof cases
      case late
      then show ?thesis using Cons.prems(2) t by (auto simp: fluid_generate_Cons Some)
    next
      case wait
      then have "fluid_generate (gen_tick gen s) clock = Some (r, gen', rest)" using Cons.prems(2) by (simp add: fluid_generate_Cons Some)
      from Cons.IH [OF t(1) this] t(2,5) show ?thesis by auto
    next
      case got
      then have e: "r = Some (fluid_of (gen_tick gen s))" "gen' = gen_tick gen s" "rest = clock"
        using Cons.prems(2) by (auto simp: fluid_generate_Cons Some)
      have "gen_id (gen_tick gen s) < 2 ^ 14" using t(1) by (simp add: gen_ok_def)
      from fluid_of_mark [OF this] got t show ?thesis by (auto simp: e not_le)
    qed
  qed
qed simp

lemma fluids_sorted:
  assumes "gen_ok gen clock"
  shows "sorted_wrt (<) (fluids gen clock) \<and>
    (\<forall>f \<in> set (fluids gen clock). gen_mark gen < int (unat f) \<and> unat f div 2 ^ 10 mod 2 ^ 14 = unat (gen_id gen))"
  using assms
proof (induction gen clock rule: fluids.induct)
  case (1 gen clock)
  show ?case
  proof (cases "fluid_generate gen clock")
    case None
    then show ?thesis by (simp add: fluids.simps [of gen clock])
  next
    case (Some g)
    obtain r gen' rest where g: "g = (r, gen', rest)" by (cases g)
    note o = generate_ok [OF 1(3) Some [unfolded g]]
    show ?thesis
    proof (cases r)
      case None
      then have "fluids gen clock = fluids gen' rest" using Some g by (simp add: fluids.simps [of gen clock])
      moreover have o': "gen_ok gen' rest" "gen_id gen' = gen_id gen" "gen_mark gen \<le> gen_mark gen'" using o by blast+
      ultimately show ?thesis
        using 1(1) [OF Some g [symmetric] None refl o'(1)] o'(2,3) by (auto intro: order_le_less_trans)
    next
      case f: (Some f)
      then have "fluids gen clock = f # fluids gen' rest" using Some g by (simp add: fluids.simps [of gen clock])
      moreover have "sorted_wrt (<) (fluids gen' rest)" and
        later: "\<forall>x \<in> set (fluids gen' rest). gen_mark gen' < int (unat x) \<and> unat x div 2 ^ 10 mod 2 ^ 14 = unat (gen_id gen)"
        using 1(2) [OF Some g [symmetric] f refl] o by simp_all
      moreover have "int (unat f) = gen_mark gen'" "gen_mark gen < gen_mark gen'" "unat f div 2 ^ 10 mod 2 ^ 14 = unat (gen_id gen)"
        using o f by simp_all
      moreover from this later have "\<forall>x \<in> set (fluids gen' rest). f < x \<and> gen_mark gen < int (unat x)"
        unfolding word_less_nat_alt by (metis less_trans of_nat_less_iff)
      ultimately show ?thesis by (simp add: int_eq_iff)
    qed
  qed
qed

lemma init_ok:
  assumes "fluid_init reading i = Some gen" and "steady (reading # clock)"
  shows "gen_ok gen clock" "unat (gen_id gen) = unat i"
proof -
  obtain e where e: "current_ds reading = Some e" "i < 2 ^ 14" "gen = \<lparr>gen_id = ucast i, epoch = e, gen_seq = 0, last_ds = 0\<rparr>"
    using assms(1) by (auto simp: fluid_init_def bits_per_id_def not_le split: option.splits if_splits)
  have i: "unat i < 2 ^ 14" using e(2) by (simp add: word_less_nat_alt)
  then have u: "unat (ucast i :: 16 word) = unat i" by (simp add: unsigned_ucast_eq take_bit_nat_eq_self_iff)
  then show "unat (gen_id gen) = unat i" by (simp add: e(3))
  have st: "sorted (e # readings clock)" "\<And>s. count_list (e # readings clock) s < 2 ^ 16"
    using assms(2) e(1) by (simp_all only: steady_def readings_simps option.case)
  have c: "count_list (readings clock) s < 2 ^ 16" for s using st(2) [of s] by (simp split: if_splits)
  then show "gen_ok gen clock" using st(1) c [of 0] u i by (auto simp: e(3) gen_ok_def steady_def word_less_nat_alt)
qed

subsection \<open>Text\<close>

lemma hexval_hexdigit: "d < 16 \<Longrightarrow> hexval (hexdigit d) = Some d"
proof -
  assume d: "d < 16"
  have "unat (hexdigit d) = (if d < 10 then 48 + d else 87 + d)"
    unfolding hexdigit_def using d by (simp add: unat_of_nat del: of_nat_add)
  then show ?thesis using d by (simp add: hexval_def word_le_nat_alt)
qed

lemma hexval_chars: "hexval c \<noteq> None \<Longrightarrow> c \<noteq> 32 \<and> \<not> (9 \<le> c \<and> c \<le> 13) \<and> c \<noteq> 45 \<and> c \<noteq> 43 \<and> c \<noteq> 120 \<and> c \<noteq> 88"
  by (auto simp: hexval_def word_le_nat_alt split: if_splits)

lemma strtoul16_hex4:
  assumes "n < 2 ^ 16" and "rest = [] \<or> rest = 46 # rest'"
  shows "strtoul16 (hex4 n @ rest) = (of_nat n, rest)"
proof -
  have v: "hexval (hexdigit (k mod 16)) = Some (k mod 16)" for k by (rule hexval_hexdigit) simp
  have q: "k div (16 * m) = k div m div 16" for k m :: nat by (simp add: div_mult2_eq mult.commute)
  have e: "n div 16 div 16 = n div 256" "n div 256 div 16 = n div 4096" using q [of n 16] q [of n 256] by simp_all
  have m: "n div 4096 mod 16 = n div 4096" using assms(1) by simp
  have n: "16 * (16 * (16 * (n div 4096 mod 16) + n div 256 mod 16) + n div 16 mod 16) + n mod 16 = n"
    unfolding m by (simp only: mult_div_mod_eq flip: e)
  have "hexdigits a rest = (a, rest)" for a using assms(2) by (auto simp: hexval_def)
  then have "hexdigits 0 (hex4 n @ rest) = (n, rest)"
    by (simp only: hex4_def append.simps hexdigits.simps v option.case mult_0_right add_0 n)
  moreover obtain c1 c2 c3 c4 where c: "hex4 n @ rest = c1 # c2 # c3 # c4 # rest" "hexval c1 \<noteq> None" "hexval c2 \<noteq> None"
    by (simp add: hex4_def v)
  moreover have ch: "c1 \<noteq> 32" "\<not> (9 \<le> c1 \<and> c1 \<le> 13)" "c1 \<noteq> 45" "c1 \<noteq> 43" "c2 \<noteq> 120" "c2 \<noteq> 88"
    using hexval_chars [OF c(2)] hexval_chars [OF c(3)] by simp_all
  moreover have "dropWhile (\<lambda>c. c = 32 \<or> 9 \<le> c \<and> c \<le> 13) (c1 # c2 # c3 # c4 # rest) = c1 # c2 # c3 # c4 # rest"
    using ch(1,2) by (simp only: dropWhile.simps simp_thms if_False)
  ultimately show ?thesis using assms(1) c(2)
    unfolding strtoul16_def c(1) by (simp add: is_hex_def Let_def del: hexdigits.simps dropWhile.simps)
qed

lemma split_fluid: "push_bit 48 (drop_bit 48 f AND 0xffff) OR push_bit 32 (drop_bit 32 f AND 0xffff) OR
    push_bit 16 (drop_bit 16 f AND 0xffff) OR (drop_bit 0 f AND 0xffff) = f" for f :: fluid_t
proof -
  have m: "(0xffff :: 64 word) = mask 16" by (simp add: mask_eq_exp_minus_1)
  show ?thesis unfolding m
  proof (rule bit_word_eqI)
    fix n assume "n < LENGTH(64)"
    then consider "n < 16" | "16 \<le> n" "n < 32" | "32 \<le> n" "n < 48" | "48 \<le> n" "n < 64" by fastforce
    then show "bit (push_bit 48 (drop_bit 48 f AND mask 16) OR push_bit 32 (drop_bit 32 f AND mask 16) OR
        push_bit 16 (drop_bit 16 f AND mask 16) OR (drop_bit 0 f AND mask 16)) n = bit f n"
      by cases (auto simp: bit_simps)
  qed
qed

lemma and_mask_bound: "unat (w AND mask n) < 2 ^ n" for w :: fluid_t
  by (simp add: unsigned_take_bit_eq flip: take_bit_eq_mask)

lemma validate_all: "fluid_validate f"
proof -
  have "unat f < 2 ^ 64" using unsigned_less [of f] by simp
  then have "unat (drop_bit 24 f) < 2 ^ 40" by (simp only: unsigned_drop_bit_eq) (simp add: drop_bit_eq_div take_bit_nat_eq_self)
  then have "drop_bit 24 f < 2 ^ 40" by (simp add: word_less_nat_alt)
  moreover note t = and_mask_bound
  have "drop_bit 10 f AND mask 14 < 2 ^ 14" "f AND mask 10 < 2 ^ 10"
    using t [of "drop_bit 10 f" 14] t [of f 10] by (simp_all add: word_less_nat_alt)
  with calculation show ?thesis
    by (simp add: fluid_validate_def bits_per_ts_def bits_per_seq_def bits_per_id_def not_le mask_eq_exp_minus_1)
qed

lemma dothex_parts:
  "fluid_encode_dothex bufsz f = (if bufsz \<le> 19 then None else
     Some (hex4 (unat (drop_bit 48 f AND 0xffff)) @ 46 # hex4 (unat (drop_bit 32 f AND 0xffff)) @ 46 #
       hex4 (unat (drop_bit 16 f AND 0xffff)) @ 46 # hex4 (unat (drop_bit 0 f AND 0xffff))))"
  by (simp add: fluid_encode_dothex_def hex4_def)

lemma dothex_decode:
  "fluid_decode_dothex (hex4 (unat (drop_bit 48 f AND 0xffff)) @ 46 # hex4 (unat (drop_bit 32 f AND 0xffff)) @ 46 #
     hex4 (unat (drop_bit 16 f AND 0xffff)) @ 46 # hex4 (unat (drop_bit 0 f AND 0xffff))) = Some f"
proof -
  have b: "unat (w AND 0xffff) < 2 ^ 16" for w :: fluid_t
    using and_mask_bound [of w 16] by (simp add: mask_eq_exp_minus_1)
  have h: "strtoul16 (hex4 (unat (w AND 0xffff)) @ 46 # rest) = (w AND 0xffff, 46 # rest)"
    "strtoul16 (hex4 (unat (w AND 0xffff))) = (w AND 0xffff, [])" for w :: fluid_t and rest
    using strtoul16_hex4 [OF b [of w], of "46 # rest"] strtoul16_hex4 [OF b [of w], of "[]"] by simp_all
  show ?thesis unfolding fluid_decode_dothex_def using split_fluid [of f] by (simp add: h)
qed

text \<open>The groups are not checked for their range: \<open>0.10000.0.0\<close> is read as \<open>1.0.0.0\<close>, and three dots alone
  as zero.\<close>

lemma fluid_decode_lenient:
  "fluid_decode_dothex [48, 46, 49, 48, 48, 48, 48, 46, 48, 46, 48] = Some 0x1000000000000"
  "fluid_decode_dothex [49, 46, 48, 46, 48, 46, 48] = Some 0x1000000000000"
  "fluid_decode_dothex [46, 46, 46] = Some 0"
  by (simp_all add: fluid_decode_dothex_def strtoul16_def is_hex_def hexval_def)

subsection \<open>Properties\<close>

text \<open>C11: the identifiers of a generator come in strictly increasing order, and two generators with
  different numbers never give the same one, whatever their clocks, as long as a clock does not go
  back and is read less than \<open>2^16\<close> times in a millisecond, the range of the sequence counter.\<close>

theorem fluid_generate_unique:
  assumes "fluid_init r1 i = Some g1" and "steady (r1 # c1)" and "fluid_init r2 j = Some g2" and "steady (r2 # c2)" and "i \<noteq> j"
  shows "sorted_wrt (<) (fluids g1 c1) \<and> distinct (fluids g1 c1 @ fluids g2 c2)"
proof -
  note a = fluids_sorted [OF init_ok(1) [OF assms(1,2)]] and b = fluids_sorted [OF init_ok(1) [OF assms(3,4)]]
  have "unat (gen_id g1) \<noteq> unat (gen_id g2)" using init_ok(2) assms by (metis word_unat_eq_iff)
  then have "set (fluids g1 c1) \<inter> set (fluids g2 c2) = {}" using a b by (metis disjoint_iff)
  then show ?thesis using a b by (simp add: strict_sorted_iff)
qed

theorem fluid_generate_unique_witness:
  "\<exists>g1 g2. fluid_init (Some (0, 0)) 1 = Some g1 \<and> fluid_init (Some (0, 0)) 2 = Some g2 \<and>
     fluids g1 [Some (0, 5000000), Some (0, 5000001), None, Some (1, 0)] = [0x5000400, 0x5000401, 0x3E8000400] \<and>
     distinct (fluids g1 [Some (0, 5000000), Some (0, 5000001), None, Some (1, 0)] @ fluids g2 [Some (0, 5000000)])"
proof -
  let ?g1 = "\<lparr>gen_id = 1, epoch = 0, gen_seq = 0, last_ds = 0\<rparr>" and ?g2 = "\<lparr>gen_id = 2, epoch = 0, gen_seq = 0, last_ds = 0\<rparr>"
  let ?c = "[Some (0, 5000000), Some (0, 5000001), None, Some (1, 0)]"
  have g: "fluid_init (Some (0, 0)) 1 = Some ?g1" "fluid_init (Some (0, 0)) 2 = Some ?g2"
    by (simp_all add: fluid_init_def current_ds_def bits_per_id_def word_le_nat_alt)
  have s: "steady (Some (0, 0) # ?c)" "steady [Some (0, 0), Some (0, 5000000)]"
    by (simp_all add: steady_def current_ds_def)
  have "fluids ?g1 ?c = [0x5000400, 0x5000401, 0x3E8000400]"
    by (simp add: fluids.simps fluid_generate_Cons gen_tick_def fluid_of_def current_ds_def word_le_nat_alt)
  then show ?thesis using fluid_generate_unique [OF g(1) s(1) g(2) s(2)] g by auto
qed

text \<open>C29: the text of an identifier, four groups of four hexadecimal digits, is read back as the same
  identifier; a buffer of less than 20 bytes is refused.\<close>

theorem fluid_encode_decode:
  "if 20 \<le> bufsz
   then \<exists>s. fluid_encode mn_encode buf bufsz f FLUID_STRING_DOTHEX = Some s \<and> fluid_decode mn_decode s FLUID_STRING_DOTHEX = Some f
   else fluid_encode mn_encode buf bufsz f FLUID_STRING_DOTHEX = None"
  using dothex_decode [of f] by (simp add: fluid_encode_def fluid_decode_def dothex_parts validate_all)

end
