(* ===== verification/Lru.thy ===== *)
theory Lru
  imports Flux_Prelude "HOL-Library.Monad_Syntax"
begin

text \<open>
  The cache of \<^verbatim>\<open>src/common/libutil/lru_cache.c\<close>: a hash of entries that are also linked in a list from
  the most to the least recently used. The entries live in a heap: a pointer is a natural number, and
  the heap maps the pointers of the entries that are allocated to them. An operation is \<open>None\<close> where
  the C code reads or writes through a null or dangling pointer, or calls \<open>abort\<close>. Items are
  pointers of the client, \<open>None\<close> for \<open>NULL\<close>; the items passed to \<open>freefn\<close> are collected in
  \<open>freed\<close>. \<open>malloc\<close>, applied to the heap, returns the address of a new entry with its copy of the key,
  or \<open>None\<close> when there is no memory.
\<close>

subsection \<open>The cache\<close>

type_synonym ptr = nat

record 'v lru_entry =
  le_key :: cstring
  le_item :: "'v option"
  le_prev :: "ptr option"
  le_next :: "ptr option"

type_synonym 'v lru_heap = "ptr \<rightharpoonup> 'v lru_entry"

record 'v lru_cache =
  lru_maxsize :: int
  lru_count :: int
  freefn :: bool
  lru_entries :: "ptr zhash"
  lru_first :: "ptr option"
  lru_last :: "ptr option"
  lru_heap :: "'v lru_heap"
  freed :: "'v option list"

text \<open>An assignment to a field of the entry at \<open>l\<close>.\<close>

definition upd :: "ptr \<Rightarrow> ('v lru_entry \<Rightarrow> 'v lru_entry) \<Rightarrow> 'v lru_cache \<Rightarrow> 'v lru_cache option" where
  "upd l f lru = map_option (\<lambda>e. lru\<lparr>lru_heap := (lru_heap lru)(l \<mapsto> f e)\<rparr>) (lru_heap lru l)"

definition lru_entry_create :: "('v lru_heap \<Rightarrow> ptr option) \<Rightarrow> 'v lru_cache \<Rightarrow> cstring \<Rightarrow> 'v option
    \<Rightarrow> (ptr \<times> 'v lru_cache) option" where
  "lru_entry_create malloc lru key item =
     map_option (\<lambda>l. (l, lru\<lparr>lru_heap := (lru_heap lru)
       (l \<mapsto> \<lparr>le_key = key, le_item = item, le_prev = None, le_next = None\<rparr>)\<rparr>)) (malloc (lru_heap lru))"

definition lru_entry_destroy :: "'v lru_cache \<Rightarrow> ptr \<Rightarrow> 'v lru_cache option" where
  "lru_entry_destroy lru l =
     map_option (\<lambda>e. lru\<lparr>freed := freed lru @ (if freefn lru then [le_item e] else []),
       lru_heap := (lru_heap lru)(l := None)\<rparr>) (lru_heap lru l)"

definition lru_entry_remove :: "'v lru_cache \<Rightarrow> ptr \<Rightarrow> 'v lru_cache option" where
  "lru_entry_remove lru l = do {
     e \<leftarrow> lru_heap lru l;
     lru \<leftarrow> (if lru_first lru = Some l then Some (lru\<lparr>lru_first := le_next e\<rparr>)
             else case le_prev e of
                    Some p \<Rightarrow> upd p (\<lambda>x. x\<lparr>le_next := le_next e\<rparr>) lru
                  | None \<Rightarrow> Some lru);
     e \<leftarrow> lru_heap lru l;
     lru \<leftarrow> (if lru_last lru = Some l then Some (lru\<lparr>lru_last := le_prev e\<rparr>)
             else case le_next e of
                    Some n \<Rightarrow> upd n (\<lambda>x. x\<lparr>le_prev := le_prev e\<rparr>) lru
                  | None \<Rightarrow> Some lru);
     upd l (\<lambda>x. x\<lparr>le_prev := None, le_next := None\<rparr>) lru
   }"

definition lru_entry_push :: "'v lru_cache \<Rightarrow> ptr \<Rightarrow> 'v lru_cache option" where
  "lru_entry_push lru l = do {
     lru \<leftarrow> upd l (\<lambda>x. x\<lparr>le_next := lru_first lru\<rparr>) lru;
     if lru_last lru = None then Some (lru\<lparr>lru_first := Some l, lru_last := Some l\<rparr>)
     else do {
       f \<leftarrow> lru_first lru;
       lru \<leftarrow> upd f (\<lambda>x. x\<lparr>le_prev := Some l\<rparr>) lru;
       Some (lru\<lparr>lru_first := Some l\<rparr>)
     }
   }"

text \<open>Deleting a key from the hash calls \<open>lru_entry_destroy\<close> on its entry.\<close>

definition lru_entry_purge :: "'v lru_cache \<Rightarrow> ptr \<Rightarrow> 'v lru_cache option" where
  "lru_entry_purge lru l = do {
     lru \<leftarrow> lru_entry_remove lru l;
     e \<leftarrow> lru_heap lru l;
     lru \<leftarrow> (case map_of (lru_entries lru) (le_key e) of
               None \<Rightarrow> Some lru
             | Some p \<Rightarrow> lru_entry_destroy (lru\<lparr>lru_entries := zhash_delete (lru_entries lru) (le_key e)\<rparr>) p);
     Some (lru\<lparr>lru_count := lru_count lru - 1\<rparr>)
   }"

definition lru_purge_last :: "'v lru_cache \<Rightarrow> 'v lru_cache option" where
  "lru_purge_last lru = (case lru_last lru of None \<Rightarrow> Some lru | Some l \<Rightarrow> lru_entry_purge lru l)"

definition lru_entry_enqueue :: "('v lru_heap \<Rightarrow> ptr option) \<Rightarrow> 'v lru_cache \<Rightarrow> cstring \<Rightarrow> 'v option
    \<Rightarrow> ('v lru_cache \<times> 'v option) option" where
  "lru_entry_enqueue malloc lru key value_ptr =
     (case lru_entry_create malloc lru key value_ptr of
        None \<Rightarrow> Some (lru, None)
      | Some (l, lru) \<Rightarrow> do {
          lru \<leftarrow> (if lru_count lru = lru_maxsize lru then lru_purge_last lru else Some lru);
          lru \<leftarrow> lru_entry_push lru l;
          let lru = lru\<lparr>lru_count := lru_count lru + 1\<rparr>;
          es \<leftarrow> zhash_insert (lru_entries lru) key l;
          e \<leftarrow> lru_heap lru l;
          Some (lru\<lparr>lru_entries := es\<rparr>, le_item e)
        })"

definition lru_entry_requeue :: "'v lru_cache \<Rightarrow> ptr \<Rightarrow> ('v lru_cache \<times> 'v option) option" where
  "lru_entry_requeue lru l = do {
     lru \<leftarrow> (if lru_first lru \<noteq> Some l then do { lru \<leftarrow> lru_entry_remove lru l; lru_entry_push lru l } else Some lru);
     e \<leftarrow> lru_heap lru l;
     Some (lru, le_item e)
   }"

text \<open>The walk of \<open>lru_cache_selfcheck\<close>: \<open>None\<close> is also a walk that does not end.\<close>

partial_function (option) selfcheck_loop :: "'v lru_heap \<Rightarrow> ptr option \<Rightarrow> int \<Rightarrow> (int + int) option" where
  "selfcheck_loop h l n =
     (case l of
        None \<Rightarrow> Some (Inr n)
      | Some l \<Rightarrow> do {
          e \<leftarrow> h l;
          if le_next e = Some l then Some (Inl (- 2)) else selfcheck_loop h (le_next e) (n + 1)
        })"

definition lru_cache_selfcheck :: "'v lru_cache \<Rightarrow> int option" where
  "lru_cache_selfcheck lru = do {
     bad \<leftarrow> (case lru_first lru of None \<Rightarrow> Some False | Some l \<Rightarrow> map_option (\<lambda>e. le_prev e \<noteq> None) (lru_heap lru l));
     if bad then Some (- 1)
     else do {
       r \<leftarrow> selfcheck_loop (lru_heap lru) (lru_first lru) 0;
       Some (case r of Inl e \<Rightarrow> e | Inr n \<Rightarrow> if lru_count lru \<noteq> n then - 3 else 0)
     }
   }"

text \<open>Destroying the hash destroys its entries.\<close>

definition lru_cache_destroy :: "'v lru_cache \<Rightarrow> 'v lru_cache option" where
  "lru_cache_destroy lru = fold_option (\<lambda>(key, l) lru. lru_entry_destroy lru l) (lru_entries lru) lru"

definition lru_cache_create :: "int \<Rightarrow> 'v lru_cache" where
  "lru_cache_create maxsize =
     \<lparr>lru_maxsize = maxsize, lru_count = 0, freefn = False, lru_entries = [], lru_first = None, lru_last = None,
       lru_heap = Map.empty, freed = []\<rparr>"

definition lru_cache_set_free_f :: "'v lru_cache \<Rightarrow> bool \<Rightarrow> 'v lru_cache" where
  "lru_cache_set_free_f lru fn = lru\<lparr>freefn := fn\<rparr>"

definition lru_cache_get :: "'v lru_cache \<Rightarrow> cstring \<Rightarrow> ('v lru_cache \<times> 'v option) option" where
  "lru_cache_get lru key =
     (case map_of (lru_entries lru) key of
        Some l \<Rightarrow> lru_entry_requeue lru l
      | None \<Rightarrow> Some (lru, None))"

definition lru_cache_check :: "'v lru_cache \<Rightarrow> cstring \<Rightarrow> bool" where
  "lru_cache_check lru key \<longleftrightarrow> map_of (lru_entries lru) key \<noteq> None"

text \<open>The result of \<open>lru_entry_enqueue\<close>, a pointer, is never less than zero.\<close>

definition lru_cache_put :: "('v lru_heap \<Rightarrow> ptr option) \<Rightarrow> 'v lru_cache \<Rightarrow> cstring \<Rightarrow> 'v option
    \<Rightarrow> ('v lru_cache \<times> unit result) option" where
  "lru_cache_put malloc lru key value_ptr = do {
     (lru, item) \<leftarrow> lru_cache_get lru key;
     if item \<noteq> None then Some (lru, Inl EEXIST)
     else do {
       (lru, item) \<leftarrow> lru_entry_enqueue malloc lru key value_ptr;
       Some (lru, Inr ())
     }
   }"

definition lru_cache_remove :: "'v lru_cache \<Rightarrow> cstring \<Rightarrow> ('v lru_cache \<times> bool) option" where
  "lru_cache_remove lru key =
     (case map_of (lru_entries lru) key of
        None \<Rightarrow> Some (lru, False)
      | Some l \<Rightarrow> do { lru \<leftarrow> lru_entry_purge lru l; Some (lru, True) })"

definition lru_cache_size :: "'v lru_cache \<Rightarrow> int" where
  "lru_cache_size lru = lru_count lru"

subsection \<open>The linked list\<close>

fun seg :: "'v lru_heap \<Rightarrow> ptr option \<Rightarrow> ptr list \<Rightarrow> ptr option \<Rightarrow> bool" where
  "seg h p [] q \<longleftrightarrow> True"
| "seg h p (x # xs) q \<longleftrightarrow>
     (\<exists>e. h x = Some e \<and> le_prev e = p \<and> le_next e = (case xs of [] \<Rightarrow> q | y # ys \<Rightarrow> Some y)) \<and> seg h (Some x) xs q"

definition fst_of :: "ptr list \<Rightarrow> ptr option \<Rightarrow> ptr option" where
  "fst_of xs q = (case xs of [] \<Rightarrow> q | y # ys \<Rightarrow> Some y)"

definition lst_of :: "ptr list \<Rightarrow> ptr option \<Rightarrow> ptr option" where
  "lst_of xs p = (if xs = [] then p else Some (last xs))"

lemma fst_of_simps [simp]: "fst_of [] q = q" "fst_of (x # xs) q = Some x" "fst_of (xs @ ys) q = fst_of xs (fst_of ys q)"
  by (simp_all add: fst_of_def split: list.splits)

lemma lst_of_simps [simp]: "lst_of [] p = p" "lst_of (x # xs) p = lst_of xs (Some x)" "lst_of (xs @ ys) p = lst_of ys (lst_of xs p)"
  by (simp_all add: lst_of_def)

lemma ends_mem: "fst_of xs q = Some l \<Longrightarrow> l \<in> set xs \<or> q = Some l" "lst_of xs q = Some l \<Longrightarrow> l \<in> set xs \<or> q = Some l"
  by (auto simp: fst_of_def lst_of_def split: list.splits if_splits)

lemma seg_append [simp]: "seg h p (xs @ ys) q \<longleftrightarrow> seg h p xs (fst_of ys q) \<and> seg h (lst_of xs p) ys q"
  by (induction xs arbitrary: p) (auto simp: fst_of_def split: list.splits)

lemma seg_cong: "(\<And>x. x \<in> set xs \<Longrightarrow> h x = h' x) \<Longrightarrow> seg h p xs q \<longleftrightarrow> seg h' p xs q"
  by (induction xs arbitrary: p) auto

lemma seg_alloc: "seg h p xs q \<Longrightarrow> x \<in> set xs \<Longrightarrow> h x \<noteq> None"
  by (induction xs arbitrary: p) auto

lemma seg_other [simp]: "x \<notin> set xs \<Longrightarrow> seg (h(x := v)) p xs q \<longleftrightarrow> seg h p xs q"
  by (rule seg_cong) auto

definition dll :: "'v lru_cache \<Rightarrow> ptr list \<Rightarrow> bool" where
  "dll lru ps \<longleftrightarrow> distinct ps \<and> seg (lru_heap lru) None ps None \<and>
     lru_first lru = fst_of ps None \<and> lru_last lru = lst_of ps None"

text \<open>The key and the item at an address, which linking and unlinking do not change.\<close>

definition contents :: "'v lru_cache \<Rightarrow> ptr \<Rightarrow> (cstring \<times> 'v option) option" where
  "contents lru p = map_option (\<lambda>e. (le_key e, le_item e)) (lru_heap lru p)"

definition same_contents :: "'v lru_cache \<Rightarrow> 'v lru_cache \<Rightarrow> bool" where
  "same_contents lru lru' \<longleftrightarrow> contents lru' = contents lru \<and> lru_maxsize lru' = lru_maxsize lru \<and> lru_count lru' = lru_count lru \<and>
     freefn lru' = freefn lru \<and> lru_entries lru' = lru_entries lru \<and> freed lru' = freed lru"

lemma remove_spec:
  assumes "dll lru (xs @ l # ys)"
  shows "\<exists>lru'. lru_entry_remove lru l = Some lru' \<and> dll lru' (xs @ ys) \<and> same_contents lru lru' \<and>
    (\<exists>e. lru_heap lru' l = Some e \<and> le_prev e = None) \<and> (\<forall>q. q \<notin> set (xs @ l # ys) \<longrightarrow> lru_heap lru' q = lru_heap lru q)"
proof (cases xs rule: rev_cases)
  case Nil
  show ?thesis
    by (cases ys; use assms Nil in \<open>auto simp: dll_def lru_entry_remove_def upd_def same_contents_def contents_def fun_eq_iff dest: ends_mem\<close>)
next
  case (snoc xs' x)
  show ?thesis
    by (cases ys; use assms snoc in \<open>auto simp: dll_def lru_entry_remove_def upd_def same_contents_def contents_def fun_eq_iff dest: ends_mem\<close>)
qed

lemma push_spec:
  assumes "dll lru ps" and "l \<notin> set ps" and "lru_heap lru l = Some e" and "le_prev e = None"
  shows "\<exists>lru'. lru_entry_push lru l = Some lru' \<and> dll lru' (l # ps) \<and> same_contents lru lru'"
proof (cases ps)
  case Nil
  then show ?thesis using assms by (simp add: dll_def lru_entry_push_def upd_def same_contents_def contents_def fun_eq_iff)
next
  case (Cons p ps')
  then have "lru_last lru \<noteq> None" using assms(1) by (simp add: dll_def lst_of_def)
  then show ?thesis
    using assms Cons by (auto simp: dll_def lru_entry_push_def upd_def same_contents_def contents_def fun_eq_iff)
qed

lemma selfcheck_seg:
  assumes "seg h p ps None" and "distinct ps"
  shows "selfcheck_loop h (fst_of ps None) n = Some (Inr (n + int (length ps)))"
  using assms
proof (induction ps arbitrary: p n)
  case Nil
  then show ?case by (subst selfcheck_loop.simps) simp
next
  case (Cons x ps)
  then obtain e where e: "h x = Some e" "le_next e = fst_of ps None" by (auto simp: fst_of_def)
  then have "le_next e \<noteq> Some x" using ends_mem(1) [of ps None x] Cons.prems(2) by auto
  then show ?case using Cons.IH [of "Some x" "n + 1"] Cons.prems e by (subst selfcheck_loop.simps) simp
qed

subsection \<open>The cache as a list of entries\<close>

text \<open>\<open>ps\<close> are the linked entries, which are those of the hash; \<open>N\<close> are entries that are allocated but not
  yet linked.\<close>

definition cache_inv :: "'v lru_cache \<Rightarrow> ptr list \<Rightarrow> ptr set \<Rightarrow> bool" where
  "cache_inv lru ps N \<longleftrightarrow> dll lru ps \<and> zhash_ok (lru_entries lru) \<and> dom (contents lru) = set ps \<union> N \<and> set ps \<inter> N = {} \<and>
     (\<forall>k p. map_of (lru_entries lru) k = Some p \<longleftrightarrow> p \<in> set ps \<and> (\<exists>i. contents lru p = Some (k, i))) \<and>
     (\<forall>p \<in> set ps. \<forall>k. contents lru p \<noteq> Some (k, None)) \<and> lru_count lru = int (length ps)"

definition listing :: "'v lru_cache \<Rightarrow> ptr list \<Rightarrow> (cstring \<times> 'v option) list" where
  "listing lru ps = map (\<lambda>p. the (contents lru p)) ps"

lemma listing_simps [simp]:
  "listing lru [] = []" "listing lru (p # ps) = the (contents lru p) # listing lru ps"
  "listing lru (ps @ qs) = listing lru ps @ listing lru qs" "length (listing lru ps) = length ps"
  by (simp_all add: listing_def)

lemma contents_dom: "dom (contents lru) = dom (lru_heap lru)"
  by (auto simp: contents_def)

lemma cache_invD:
  assumes "cache_inv lru ps N"
  shows "dll lru ps" "dom (contents lru) = set ps \<union> N" "set ps \<inter> N = {}" "lru_count lru = int (length ps)"
    "map_of (lru_entries lru) k = Some p \<longleftrightarrow> p \<in> set ps \<and> (\<exists>i. contents lru p = Some (k, i))"
    "p \<in> set ps \<Longrightarrow> contents lru p \<noteq> Some (k, None)" "zhash_ok (lru_entries lru)"
  using assms unfolding cache_inv_def by blast+

lemma cache_inv_entry:
  assumes "cache_inv lru ps N" and "p \<in> set ps"
  obtains k i where "contents lru p = Some (k, Some i)" "map_of (lru_entries lru) k = Some p"
proof -
  have "p \<in> dom (contents lru)" using cache_invD(2) [OF assms(1)] assms(2) by simp
  then obtain k i where c: "contents lru p = Some (k, i)" by auto
  then obtain i' where "i = Some i'" using cache_invD(6) [OF assms] by (cases i) auto
  then show thesis using that c cache_invD(5) [OF assms(1)] assms(2) by blast
qed

lemma listing_distinct:
  assumes "cache_inv lru ps N"
  shows "distinct (map fst (listing lru ps))"
proof -
  have "inj_on (\<lambda>p. fst (the (contents lru p))) (set ps)"
  proof (rule inj_onI)
    fix p q assume pq: "p \<in> set ps" "q \<in> set ps" "fst (the (contents lru p)) = fst (the (contents lru q))"
    obtain k i where "contents lru p = Some (k, Some i)" "map_of (lru_entries lru) k = Some p" by (rule cache_inv_entry [OF assms pq(1)])
    moreover obtain k' i' where "contents lru q = Some (k', Some i')" "map_of (lru_entries lru) k' = Some q"
      by (rule cache_inv_entry [OF assms pq(2)])
    ultimately show "p = q" using pq(3) by simp
  qed
  then show ?thesis using cache_invD(1) [OF assms] by (simp add: listing_def distinct_map dll_def comp_def)
qed

lemma filter_listing:
  assumes "cache_inv lru (xs @ p # ys) N" and "contents lru p = Some (k, i)"
  shows "filter (\<lambda>e. fst e \<noteq> k) (listing lru (xs @ p # ys)) = listing lru (xs @ ys)"
proof -
  have "k \<notin> fst ` set (listing lru xs)" "k \<notin> fst ` set (listing lru ys)"
    using listing_distinct [OF assms(1)] assms(2) by auto
  then have "filter (\<lambda>e. fst e \<noteq> k) (listing lru xs) = listing lru xs" "filter (\<lambda>e. fst e \<noteq> k) (listing lru ys) = listing lru ys"
    unfolding filter_id_conv by force+
  then show ?thesis using assms(2) by simp
qed

lemma map_of_listing:
  assumes "cache_inv lru ps N"
  shows "map_of (listing lru ps) k = (case map_of (lru_entries lru) k of None \<Rightarrow> None | Some p \<Rightarrow> map_option snd (contents lru p))"
proof (cases "map_of (lru_entries lru) k")
  case None
  have "\<forall>p \<in> set ps. fst (the (contents lru p)) \<noteq> k"
    using cache_inv_entry [OF assms] None by (metis option.sel fst_conv option.distinct(1))
  then have "map_of (listing lru ps) k = None" by (auto simp: map_of_eq_None_iff listing_def)
  then show ?thesis using None by simp
next
  case (Some p)
  then obtain i where p: "p \<in> set ps" "contents lru p = Some (k, i)" using cache_invD(5) [OF assms] by blast
  then have "(k, i) \<in> set (listing lru ps)" by (force simp: listing_def)
  then show ?thesis using map_of_is_SomeI [OF listing_distinct [OF assms]] Some p(2) by simp
qed

lemma same_contents_inv:
  assumes "cache_inv lru ps N" and "same_contents lru lru'" and "dll lru' ps'" and "set ps' = set ps"
  shows "cache_inv lru' ps' N" "listing lru' qs = listing lru qs"
proof -
  have "length ps' = length ps" using cache_invD(1) [OF assms(1)] assms(3,4) by (metis dll_def distinct_card)
  then show "cache_inv lru' ps' N" "listing lru' qs = listing lru qs"
    using assms unfolding cache_inv_def same_contents_def listing_def by auto
qed

lemma same_contents_trans: "same_contents a b \<Longrightarrow> same_contents b c \<Longrightarrow> same_contents a c"
  by (simp add: same_contents_def)

definition touch :: "cstring \<Rightarrow> (cstring \<times> 'v option) list \<Rightarrow> (cstring \<times> 'v option) list" where
  "touch k xs = (case map_of xs k of None \<Rightarrow> xs | Some i \<Rightarrow> (k, i) # filter (\<lambda>e. fst e \<noteq> k) xs)"

lemma get_spec:
  assumes "cache_inv lru ps {}"
  shows "\<exists>lru' ps'. lru_cache_get lru k = Some (lru', case map_of (listing lru ps) k of None \<Rightarrow> None | Some i \<Rightarrow> i) \<and>
    cache_inv lru' ps' {} \<and> listing lru' ps' = touch k (listing lru ps) \<and> same_contents lru lru'"
proof (cases "map_of (lru_entries lru) k")
  case None
  have "same_contents lru lru" by (simp add: same_contents_def)
  then show ?thesis using assms None by (auto simp: lru_cache_get_def map_of_listing [OF assms] touch_def)
next
  case (Some p)
  then obtain i where p: "p \<in> set ps" "contents lru p = Some (k, i)" using cache_invD(5) [OF assms] by blast
  obtain xs ys where ps: "ps = xs @ p # ys" using p(1) by (meson split_list)
  note d = cache_invD(1) [OF assms, unfolded ps]
  have m: "map_of (listing lru ps) k = Some i" using Some p(2) by (simp add: map_of_listing [OF assms])
  have "\<exists>lru'. (if lru_first lru \<noteq> Some p then do { lru \<leftarrow> lru_entry_remove lru p; lru_entry_push lru p } else Some lru) = Some lru' \<and>
      dll lru' (p # xs @ ys) \<and> same_contents lru lru'"
  proof (cases "lru_first lru = Some p")
    case True
    then have "xs = []" using d by (cases xs) (auto simp: dll_def)
    then show ?thesis using True d by (simp add: same_contents_def)
  next
    case False
    obtain lru1 e where r: "lru_entry_remove lru p = Some lru1" "dll lru1 (xs @ ys)" "same_contents lru lru1"
      "lru_heap lru1 p = Some e" "le_prev e = None" using remove_spec [OF d] by blast
    have "p \<notin> set (xs @ ys)" using d by (simp add: dll_def)
    from push_spec [OF r(2) this r(4,5)] r(1,3) False same_contents_trans show ?thesis by fastforce
  qed
  then obtain lru' where l: "(if lru_first lru \<noteq> Some p then do { lru \<leftarrow> lru_entry_remove lru p; lru_entry_push lru p } else Some lru) = Some lru'"
    "dll lru' (p # xs @ ys)" "same_contents lru lru'" by blast
  have cp: "contents lru' p = Some (k, i)" using l(3) p(2) by (simp add: same_contents_def)
  then obtain e where e: "lru_heap lru' p = Some e" "le_item e = i" by (auto simp: contents_def)
  have inv: "cache_inv lru' (p # xs @ ys) {}" by (rule same_contents_inv(1) [OF assms l(3,2)]) (auto simp: ps)
  have "listing lru' (p # xs @ ys) = touch k (listing lru ps)"
    using same_contents_inv(2) [OF assms l(3,2)] filter_listing [OF assms [unfolded ps] p(2)] cp m
    by (simp add: ps touch_def)
  moreover have "lru_cache_get lru k = Some (lru', i)"
    using Some l(1) e by (simp add: lru_cache_get_def lru_entry_requeue_def)
  ultimately show ?thesis using inv l(3) m by auto
qed

lemma purge_spec:
  assumes "cache_inv lru (xs @ l # ys) N" and "contents lru l = Some (k, i)"
  shows "\<exists>lru'. lru_entry_purge lru l = Some lru' \<and> cache_inv lru' (xs @ ys) N \<and> contents lru' = (contents lru)(l := None) \<and>
    freed lru' = freed lru @ (if freefn lru then [i] else []) \<and> freefn lru' = freefn lru \<and> lru_maxsize lru' = lru_maxsize lru \<and>
    lru_entries lru' = zhash_delete (lru_entries lru) k \<and> (\<forall>q. q \<notin> set (xs @ l # ys) \<longrightarrow> lru_heap lru' q = lru_heap lru q)"
proof -
  note d = cache_invD [OF assms(1)]
  obtain lru1 e where r: "lru_entry_remove lru l = Some lru1" "dll lru1 (xs @ ys)" "same_contents lru lru1" "lru_heap lru1 l = Some e"
    "\<forall>q. q \<notin> set (xs @ l # ys) \<longrightarrow> lru_heap lru1 q = lru_heap lru q"
    using remove_spec [OF d(1)] by blast
  have s: "contents lru1 = contents lru" "lru_entries lru1 = lru_entries lru" "lru_count lru1 = lru_count lru" "freed lru1 = freed lru"
    "freefn lru1 = freefn lru" "lru_maxsize lru1 = lru_maxsize lru" using r(3) by (simp_all add: same_contents_def)
  have e: "le_key e = k" "le_item e = i" using s(1) assms(2) r(4) by (auto simp: contents_def dest: fun_cong [of _ _ l])
  have l: "map_of (lru_entries lru) k = Some l" using d(5) assms(2) by auto
  let ?lru' = "lru1\<lparr>lru_entries := zhash_delete (lru_entries lru) k, freed := freed lru @ (if freefn lru then [i] else []),
    lru_heap := (lru_heap lru1)(l := None), lru_count := lru_count lru - 1\<rparr>"
  have p: "lru_entry_purge lru l = Some ?lru'" using r(1,4) e s l by (simp add: lru_entry_purge_def lru_entry_destroy_def)
  have c: "contents ?lru' = (contents lru)(l := None)" using s(1) by (auto simp: contents_def fun_eq_iff)
  have nl: "l \<notin> set (xs @ ys)" "l \<notin> N" using d(1,3) by (auto simp: dll_def)
  have "dll ?lru' (xs @ ys)" using r(2) nl(1) by (simp add: dll_def)
  moreover have "dom (contents ?lru') = set (xs @ ys) \<union> N" unfolding c using d(2) nl by auto
  moreover have "map_of (lru_entries ?lru') k' = Some q \<longleftrightarrow> q \<in> set (xs @ ys) \<and> (\<exists>j. contents ?lru' q = Some (k', j))" for k' q
    using d(5) [of k' q] nl l unfolding c by (auto simp: zhash_delete_lookup assms(2))
  ultimately have "cache_inv ?lru' (xs @ ys) N"
    using d(3,4,6,7) unfolding cache_inv_def c by auto
  then show ?thesis using p c s r(5) by auto
qed

lemma link_new:
  assumes "cache_inv lru qs {l}" and "contents lru l = Some (k, Some v)" and "lru_heap lru l = Some e" and "le_prev e = None"
    and "map_of (lru_entries lru) k = None"
  shows "\<exists>lru' es. lru_entry_push lru l = Some lru' \<and> zhash_insert (lru_entries lru') k l = Some es \<and> lru_heap lru' l \<noteq> None \<and>
    same_contents lru lru' \<and>
    cache_inv (lru'\<lparr>lru_count := lru_count lru' + 1, lru_entries := es\<rparr>) (l # qs) {} \<and>
    listing (lru'\<lparr>lru_count := lru_count lru' + 1, lru_entries := es\<rparr>) (l # qs) = (k, Some v) # listing lru qs"
proof -
  note d = cache_invD [OF assms(1)]
  have nl: "l \<notin> set qs" using d(3) by simp
  from push_spec [OF d(1) nl assms(3,4)] obtain lru' where
    l: "lru_entry_push lru l = Some lru'" "dll lru' (l # qs)" "same_contents lru lru'" by blast
  have s: "contents lru' = contents lru" "lru_entries lru' = lru_entries lru" "lru_count lru' = lru_count lru"
    using l(3) by (simp_all add: same_contents_def)
  let ?es = "lru_entries lru @ [(k, l)]"
  let ?lru = "lru'\<lparr>lru_count := lru_count lru' + 1, lru_entries := ?es\<rparr>"
  have es: "zhash_insert (lru_entries lru') k l = Some ?es" using assms(5) s(2) by (simp add: zhash_insert_def)
  have c: "contents ?lru = contents lru" using s(1) by (simp add: contents_def fun_eq_iff)
  have "contents lru' l = Some (k, Some v)" using s(1) assms(2) by simp
  then have h: "lru_heap lru' l \<noteq> None" by (auto simp: contents_def)
  have "map_of ?es k' = Some q \<longleftrightarrow> q \<in> set (l # qs) \<and> (\<exists>j. contents lru q = Some (k', j))" for k' q
    using d(5) [of k' q] assms(2,5) nl by (auto simp: map_add_def split: option.splits)
  moreover have "dll ?lru (l # qs)" using l(2) by (simp add: dll_def)
  ultimately have "cache_inv ?lru (l # qs) {}"
    using d(2,4,6) zhash_ok_ops(2) [OF d(7)] es assms(2) s(2,3) unfolding cache_inv_def c by auto
  moreover have "listing ?lru (l # qs) = (k, Some v) # listing lru qs" using assms(2) unfolding listing_def c by simp
  ultimately show ?thesis using l(1,3) es h by blast
qed

text \<open>\<open>malloc\<close> never returns memory that is in use.\<close>

definition fresh_malloc :: "('v lru_heap \<Rightarrow> ptr option) \<Rightarrow> bool" where
  "fresh_malloc malloc \<longleftrightarrow> (\<forall>h l. malloc h = Some l \<longrightarrow> h l = None)"

definition insert_new :: "int \<Rightarrow> cstring \<times> 'v option \<Rightarrow> (cstring \<times> 'v option) list \<Rightarrow> (cstring \<times> 'v option) list" where
  "insert_new maxsize x xs = x # (if int (length xs) = maxsize then butlast xs else xs)"

lemma enqueue_spec:
  assumes "cache_inv lru ps {}" and "fresh_malloc malloc" and "0 < lru_maxsize lru" and "map_of (lru_entries lru) k = None"
    and "malloc (lru_heap lru) \<noteq> None"
  shows "\<exists>lru' ps'. lru_entry_enqueue malloc lru k (Some v) = Some (lru', Some v) \<and> cache_inv lru' ps' {} \<and>
    listing lru' ps' = insert_new (lru_maxsize lru) (k, Some v) (listing lru ps) \<and> lru_maxsize lru' = lru_maxsize lru"
proof -
  note d = cache_invD [OF assms(1)]
  obtain l where l: "malloc (lru_heap lru) = Some l" "lru_heap lru l = None" using assms(2,5) by (auto simp: fresh_malloc_def)
  let ?e = "\<lparr>le_key = k, le_item = Some v, le_prev = None, le_next = None\<rparr>"
  let ?lru = "lru\<lparr>lru_heap := (lru_heap lru)(l \<mapsto> ?e)\<rparr>"
  have nl: "l \<notin> set ps" using d(2) l(2) contents_dom [of lru] by auto
  have c: "contents ?lru = (contents lru)(l \<mapsto> (k, Some v))" by (auto simp: contents_def fun_eq_iff)
  have "dll ?lru ps" using d(1) nl by (simp add: dll_def)
  moreover have "map_of (lru_entries lru) k' = Some q \<longleftrightarrow> q \<in> set ps \<and> (\<exists>j. contents ?lru q = Some (k', j))" for k' q
    using d(5) [of k' q] nl unfolding c by auto
  ultimately have inv0: "cache_inv ?lru ps {l}" using d(2,4,6,7) nl unfolding cache_inv_def c by auto
  have ls: "listing ?lru ps = listing lru ps" unfolding listing_def c using nl by (auto intro: map_cong)
  have "\<exists>lru1 qs. (if lru_count ?lru = lru_maxsize ?lru then lru_purge_last ?lru else Some ?lru) = Some lru1 \<and> cache_inv lru1 qs {l} \<and>
      contents lru1 l = Some (k, Some v) \<and> lru_heap lru1 l = Some ?e \<and> map_of (lru_entries lru1) k = None \<and> lru_maxsize lru1 = lru_maxsize lru \<and>
      listing lru1 qs = (if int (length ps) = lru_maxsize lru then butlast (listing lru ps) else listing lru ps)"
  proof (cases "int (length ps) = lru_maxsize lru")
    case True
    then obtain xs p where ps: "ps = xs @ [p]" using assms(3) by (cases ps rule: rev_cases) auto
    obtain k' i where p: "contents ?lru p = Some (k', Some i)" by (rule cache_inv_entry [OF inv0, of p]) (simp add: ps)
    from purge_spec [of ?lru xs p "[]" "{l}" k' "Some i"] inv0 p obtain lru1 where
      r: "lru_entry_purge ?lru p = Some lru1" "cache_inv lru1 xs {l}" "contents lru1 = (contents ?lru)(p := None)"
        "lru_maxsize lru1 = lru_maxsize ?lru" "lru_entries lru1 = zhash_delete (lru_entries ?lru) k'" "lru_heap lru1 l = lru_heap ?lru l"
      using nl ps by auto
    have "lru_purge_last ?lru = Some lru1" using r(1) cache_invD(1) [OF inv0] ps by (simp add: lru_purge_last_def dll_def)
    moreover have "listing lru1 xs = listing lru xs"
      unfolding listing_def r(3) c using nl cache_invD(1) [OF assms(1)] ps by (auto simp: dll_def)
    moreover have "contents lru1 l = Some (k, Some v)" unfolding r(3) c using nl ps by auto
    ultimately show ?thesis using True d(4) r assms(4) ps by (auto simp: zhash_delete_lookup)
  next
    case False
    then show ?thesis using d(4) inv0 assms(4) ls c by (intro exI [of _ ?lru] exI [of _ ps]) simp
  qed
  then obtain lru1 qs where q: "(if lru_count ?lru = lru_maxsize ?lru then lru_purge_last ?lru else Some ?lru) = Some lru1"
    "cache_inv lru1 qs {l}" "contents lru1 l = Some (k, Some v)" "lru_heap lru1 l = Some ?e" "map_of (lru_entries lru1) k = None"
    "lru_maxsize lru1 = lru_maxsize lru" "(k, Some v) # listing lru1 qs = insert_new (lru_maxsize lru) (k, Some v) (listing lru ps)"
    by (auto simp: insert_new_def)
  from link_new [OF q(2-4) _ q(5)] obtain lru2 es where
    p: "lru_entry_push lru1 l = Some lru2" "zhash_insert (lru_entries lru2) k l = Some es" "lru_heap lru2 l \<noteq> None" "same_contents lru1 lru2"
      "cache_inv (lru2\<lparr>lru_count := lru_count lru2 + 1, lru_entries := es\<rparr>) (l # qs) {}"
      "listing (lru2\<lparr>lru_count := lru_count lru2 + 1, lru_entries := es\<rparr>) (l # qs) = (k, Some v) # listing lru1 qs" by auto
  have "contents lru2 l = Some (k, Some v)" using p(4) q(3) by (simp add: same_contents_def)
  then have "lru_entry_enqueue malloc lru k (Some v) = Some (lru2\<lparr>lru_count := lru_count lru2 + 1, lru_entries := es\<rparr>, Some v)"
    using l(1) q(1) p(1,2) by (auto simp: lru_entry_enqueue_def lru_entry_create_def contents_def Let_def)
  then show ?thesis using p(4-6) q(6,7) by (auto simp: same_contents_def)
qed


lemma destroy_entries:
  assumes "distinct (map snd es)" and "\<forall>p \<in> set (map snd es). lru_heap lru p \<noteq> None"
  shows "\<exists>lru'. fold_option (\<lambda>(key, l) lru. lru_entry_destroy lru l) es lru = Some lru' \<and>
    dom (lru_heap lru') = dom (lru_heap lru) - set (map snd es)"
  using assms
proof (induction es arbitrary: lru)
  case (Cons e es)
  obtain k p where e: "e = (k, p)" by (cases e)
  then obtain x where x: "lru_heap lru p = Some x" using Cons.prems(2) by auto
  let ?lru = "lru\<lparr>freed := freed lru @ (if freefn lru then [le_item x] else []), lru_heap := (lru_heap lru)(p := None)\<rparr>"
  have "\<forall>q \<in> set (map snd es). lru_heap ?lru q \<noteq> None" using Cons.prems e by auto
  moreover have "distinct (map snd es)" using Cons.prems(1) by simp
  ultimately obtain lru' where "fold_option (\<lambda>(key, l) lru. lru_entry_destroy lru l) es ?lru = Some lru'"
    "dom (lru_heap lru') = dom (lru_heap ?lru) - set (map snd es)" using Cons.IH [of ?lru] by blast
  moreover have "lru_entry_destroy lru p = Some ?lru" using x by (simp add: lru_entry_destroy_def)
  moreover have "dom (lru_heap ?lru) = dom (lru_heap lru) - {p}" by (auto split: if_splits)
  ultimately show ?case using e by auto
qed simp

lemma destroy_spec:
  assumes "cache_inv lru ps {}"
  shows "\<exists>lru'. lru_cache_destroy lru = Some lru' \<and> lru_heap lru' = Map.empty"
proof -
  note d = cache_invD [OF assms]
  have e: "map_of (lru_entries lru) k = Some p \<longleftrightarrow> (k, p) \<in> set (lru_entries lru)" for k p
    using d(7) by (simp add: zhash_ok_def)
  have "p \<in> set (map snd (lru_entries lru)) \<longleftrightarrow> p \<in> set ps" for p
  proof
    assume "p \<in> set (map snd (lru_entries lru))"
    then obtain k where "(k, p) \<in> set (lru_entries lru)" by auto
    then show "p \<in> set ps" using e d(5) by blast
  next
    assume "p \<in> set ps"
    then obtain k i where "map_of (lru_entries lru) k = Some p" by (rule cache_inv_entry [OF assms])
    then show "p \<in> set (map snd (lru_entries lru))" using e by force
  qed
  then have "set (map snd (lru_entries lru)) = set ps" by blast
  moreover have "distinct (map snd (lru_entries lru))"
  proof -
    have "inj_on snd (set (lru_entries lru))"
    proof (rule inj_onI)
      fix a b assume ab: "a \<in> set (lru_entries lru)" "b \<in> set (lru_entries lru)" "snd a = snd b"
      obtain k p where a: "a = (k, p)" by (cases a)
      then obtain k' where b: "b = (k', p)" using ab(3) by (cases b) auto
      have "\<exists>i. contents lru p = Some (k, i)" "\<exists>i. contents lru p = Some (k', i)" using ab(1,2) a b e d(5) by blast+
      then show "a = b" using a b by auto
    qed
    then show ?thesis using d(7) by (simp add: distinct_map zhash_ok_def)
  qed
  moreover have "dom (lru_heap lru) = set ps" using d(2) contents_dom [of lru] by simp
  ultimately show ?thesis using destroy_entries [of "lru_entries lru" lru] by (auto simp: lru_cache_destroy_def)
qed

subsection \<open>The contract\<close>

definition lru_rep :: "'v lru_cache \<Rightarrow> (cstring \<times> 'v option) list \<Rightarrow> bool" where
  "lru_rep lru xs \<longleftrightarrow> (\<exists>ps. cache_inv lru ps {} \<and> xs = listing lru ps)"

lemma get_refines:
  assumes "lru_rep lru xs"
  shows "\<exists>lru'. lru_cache_get lru k = Some (lru', case map_of xs k of None \<Rightarrow> None | Some i \<Rightarrow> i) \<and> lru_rep lru' (touch k xs) \<and>
    lru_maxsize lru' = lru_maxsize lru"
proof -
  obtain ps where ps: "cache_inv lru ps {}" "xs = listing lru ps" using assms(1) by (auto simp: lru_rep_def)
  obtain lru' ps' where l: "lru_cache_get lru k = Some (lru', case map_of xs k of None \<Rightarrow> None | Some i \<Rightarrow> i)"
    "cache_inv lru' ps' {}" "listing lru' ps' = touch k xs" "same_contents lru lru'"
    using get_spec [OF ps(1), of k] unfolding ps(2) by blast
  then have "lru_rep lru' (touch k xs)" unfolding lru_rep_def by metis
  then show ?thesis using l(1,4) by (simp add: same_contents_def)
qed

text \<open>The list after a \<open>put\<close> of the item \<open>v\<close>, with or without memory for the entry.\<close>

definition put_list :: "bool \<Rightarrow> int \<Rightarrow> cstring \<Rightarrow> 'v \<Rightarrow> (cstring \<times> 'v option) list \<Rightarrow> (cstring \<times> 'v option) list" where
  "put_list mem maxsize k v xs =
     (if map_of xs k \<noteq> None then touch k xs else if mem then insert_new maxsize (k, Some v) xs else xs)"

lemma put_refines:
  assumes "lru_rep lru xs" and "fresh_malloc malloc" and "0 < lru_maxsize lru"
  shows "\<exists>lru'. lru_cache_put malloc lru k (Some v) = Some (lru', if map_of xs k = None then Inr () else Inl EEXIST) \<and>
    lru_rep lru' (put_list (malloc (lru_heap lru) \<noteq> None) (lru_maxsize lru) k v xs) \<and> lru_maxsize lru' = lru_maxsize lru"
proof -
  obtain ps where ps: "cache_inv lru ps {}" "xs = listing lru ps" using assms(1) by (auto simp: lru_rep_def)
  show ?thesis
  proof (cases "map_of (lru_entries lru) k")
    case None
    then have m: "map_of xs k = None" using map_of_listing [OF ps(1), of k] ps(2) by simp
    have g: "lru_cache_get lru k = Some (lru, None)" using None by (simp add: lru_cache_get_def)
    show ?thesis
    proof (cases "malloc (lru_heap lru) = None")
      case True
      then show ?thesis using m g assms(1) by (simp add: lru_cache_put_def lru_entry_enqueue_def lru_entry_create_def put_list_def)
    next
      case False
      from enqueue_spec [OF ps(1) assms(2,3) None False, of v] obtain lru' ps' where
        l: "lru_entry_enqueue malloc lru k (Some v) = Some (lru', Some v)" "cache_inv lru' ps' {}"
          "listing lru' ps' = insert_new (lru_maxsize lru) (k, Some v) xs" "lru_maxsize lru' = lru_maxsize lru"
        using ps(2) by blast
      then have "lru_rep lru' (insert_new (lru_maxsize lru) (k, Some v) xs)" unfolding lru_rep_def by metis
      then show ?thesis using l(1,4) m g False by (simp add: lru_cache_put_def put_list_def)
    qed
  next
    case (Some p)
    then obtain i where p: "p \<in> set ps" "contents lru p = Some (k, i)" using cache_invD(5) [OF ps(1)] by blast
    then obtain j where "i = Some j" using cache_invD(6) [OF ps(1)] by (cases i) auto
    then have "map_of xs k = Some (Some j)" using map_of_listing [OF ps(1), of k] ps(2) Some p(2) by simp
    then show ?thesis using get_refines [OF assms(1), of k] by (auto simp: lru_cache_put_def put_list_def)
  qed
qed

lemma remove_refines:
  assumes "lru_rep lru xs"
  shows "\<exists>lru'. lru_cache_remove lru k = Some (lru', map_of xs k \<noteq> None) \<and> lru_rep lru' (filter (\<lambda>e. fst e \<noteq> k) xs) \<and>
    lru_maxsize lru' = lru_maxsize lru"
proof -
  obtain ps where ps: "cache_inv lru ps {}" "xs = listing lru ps" using assms(1) by (auto simp: lru_rep_def)
  show ?thesis
  proof (cases "map_of (lru_entries lru) k")
    case None
    then have m: "map_of xs k = None" using map_of_listing [OF ps(1), of k] ps(2) by simp
    then have "filter (\<lambda>e. fst e \<noteq> k) xs = xs" unfolding filter_id_conv by (auto simp: map_of_eq_None_iff image_iff)
    then show ?thesis using None m assms by (simp add: lru_cache_remove_def)
  next
    case (Some p)
    then obtain i where p: "p \<in> set ps" "contents lru p = Some (k, i)" using cache_invD(5) [OF ps(1)] by blast
    obtain as bs where s: "ps = as @ p # bs" using p(1) by (meson split_list)
    from purge_spec [OF ps(1) [unfolded s] p(2)] obtain lru' where
      l: "lru_entry_purge lru p = Some lru'" "cache_inv lru' (as @ bs) {}" "contents lru' = (contents lru)(p := None)"
        "lru_maxsize lru' = lru_maxsize lru" by blast
    have "p \<notin> set (as @ bs)" using cache_invD(1) [OF ps(1)] s by (simp add: dll_def)
    then have "listing lru' (as @ bs) = listing lru (as @ bs)" unfolding listing_def l(3) by (auto intro: map_cong)
    then have "listing lru' (as @ bs) = filter (\<lambda>e. fst e \<noteq> k) xs" using filter_listing [OF ps(1) [unfolded s] p(2)] ps(2) s by simp
    then have "lru_rep lru' (filter (\<lambda>e. fst e \<noteq> k) xs)" using l(2) unfolding lru_rep_def by metis
    moreover have "map_of xs k \<noteq> None" using map_of_listing [OF ps(1), of k] ps(2) Some p(2) by simp
    ultimately show ?thesis using Some l(1,4) by (auto simp: lru_cache_remove_def)
  qed
qed

lemma rep_observers:
  assumes "lru_rep lru xs"
  shows "lru_cache_check lru k \<longleftrightarrow> map_of xs k \<noteq> None" and "lru_cache_size lru = int (length xs)"
    and "lru_cache_selfcheck lru = Some 0" and "distinct (map fst xs)"
    and "\<exists>lru'. lru_cache_destroy lru = Some lru' \<and> lru_heap lru' = Map.empty"
proof -
  obtain ps where ps: "cache_inv lru ps {}" "xs = listing lru ps" using assms by (auto simp: lru_rep_def)
  note d = cache_invD [OF ps(1)]
  show "lru_cache_check lru k \<longleftrightarrow> map_of xs k \<noteq> None"
    using map_of_listing [OF ps(1), of k] d(5) [of k] ps(2) by (auto simp: lru_cache_check_def split: option.splits)
  show "lru_cache_size lru = int (length xs)" using d(4) ps(2) by (simp add: lru_cache_size_def)
  show "distinct (map fst xs)" using listing_distinct [OF ps(1)] ps(2) by simp
  show "\<exists>lru'. lru_cache_destroy lru = Some lru' \<and> lru_heap lru' = Map.empty" by (rule destroy_spec [OF ps(1)])
  have walk: "selfcheck_loop (lru_heap lru) (fst_of ps None) 0 = Some (Inr (int (length ps)))"
    using selfcheck_seg [of "lru_heap lru" None ps 0] d(1) by (simp add: dll_def)
  show "lru_cache_selfcheck lru = Some 0"
    using d(1,4) walk by (cases ps) (auto simp: lru_cache_selfcheck_def dll_def)
qed

text \<open>The caches a client can get: created, given a function to free items, and used with items that
  are not \<open>NULL\<close>, whether there is memory or not.\<close>

inductive lru_reach :: "('v lru_heap \<Rightarrow> ptr option) \<Rightarrow> int \<Rightarrow> 'v lru_cache \<Rightarrow> bool" for malloc maxsize where
  lru_new: "lru_reach malloc maxsize (lru_cache_create maxsize)"
| lru_set_free: "lru_reach malloc maxsize lru \<Longrightarrow> lru_reach malloc maxsize (lru_cache_set_free_f lru fn)"
| lru_got: "lru_reach malloc maxsize lru \<Longrightarrow> lru_cache_get lru k = Some (lru', item) \<Longrightarrow> lru_reach malloc maxsize lru'"
| lru_put: "lru_reach malloc maxsize lru \<Longrightarrow> lru_cache_put malloc lru k (Some v) = Some (lru', rc) \<Longrightarrow>
    lru_reach malloc maxsize lru'"
| lru_removed: "lru_reach malloc maxsize lru \<Longrightarrow> lru_cache_remove lru k = Some (lru', found) \<Longrightarrow> lru_reach malloc maxsize lru'"

lemma lru_rep_create: "lru_rep (lru_cache_create maxsize) []"
  by (auto simp: lru_rep_def cache_inv_def lru_cache_create_def dll_def contents_def zhash_ok_def intro!: exI [of _ "[]"])

lemma lru_rep_set_free: "lru_rep lru xs \<Longrightarrow> lru_rep (lru_cache_set_free_f lru fn) xs"
proof -
  assume "lru_rep lru xs"
  then obtain ps where ps: "cache_inv lru ps {}" "xs = listing lru ps" by (auto simp: lru_rep_def)
  have c: "contents (lru_cache_set_free_f lru fn) = contents lru"
    by (simp add: lru_cache_set_free_f_def contents_def fun_eq_iff)
  have "cache_inv (lru_cache_set_free_f lru fn) ps {}"
    using ps(1) unfolding cache_inv_def c by (simp add: lru_cache_set_free_f_def dll_def)
  moreover have "xs = listing (lru_cache_set_free_f lru fn) ps" using ps(2) unfolding listing_def c .
  ultimately show ?thesis unfolding lru_rep_def by blast
qed

lemma touch_length: "length (touch k xs) \<le> length xs"
proof (cases "map_of xs k")
  case (Some i)
  then have "(k, i) \<in> set xs" by (rule map_of_SomeD)
  then have "length (filter (\<lambda>e. fst e \<noteq> k) xs) < length xs" by (intro length_filter_less) auto
  then show ?thesis using Some by (simp add: touch_def)
qed (simp add: touch_def)

lemma put_list_length:
  assumes "0 < maxsize" and "int (length xs) \<le> maxsize"
  shows "int (length (put_list mem maxsize k v xs)) \<le> maxsize"
  using assms touch_length [of k xs] by (auto simp: put_list_def insert_new_def)

lemma lru_reach_rep:
  assumes "fresh_malloc malloc" and "0 < maxsize" and "lru_reach malloc maxsize lru"
  shows "\<exists>xs. lru_rep lru xs \<and> int (length xs) \<le> maxsize \<and> lru_maxsize lru = maxsize"
  using assms(3)
proof induction
  case lru_new
  then show ?case using lru_rep_create [of maxsize] assms(2) by (intro exI [of _ "[]"]) (simp add: lru_cache_create_def)
next
  case (lru_set_free lru fn)
  then show ?case using lru_rep_set_free by (auto simp: lru_cache_set_free_f_def)
next
  case (lru_got lru k lru' item)
  then obtain xs where xs: "lru_rep lru xs" "int (length xs) \<le> maxsize" "lru_maxsize lru = maxsize" by blast
  then show ?case using get_refines [OF xs(1), of k] lru_got(2) touch_length [of k xs] by (intro exI [of _ "touch k xs"]) auto
next
  case (lru_put lru k v lru' rc)
  then obtain xs where xs: "lru_rep lru xs" "int (length xs) \<le> maxsize" "lru_maxsize lru = maxsize" by blast
  let ?ys = "put_list (malloc (lru_heap lru) \<noteq> None) maxsize k v xs"
  have "lru_rep lru' ?ys \<and> lru_maxsize lru' = maxsize"
    using put_refines [OF xs(1) assms(1), of k v] xs(3) assms(2) lru_put(2) by auto
  then show ?case using put_list_length [OF assms(2) xs(2)] by blast
next
  case (lru_removed lru k lru' found)
  then obtain xs where xs: "lru_rep lru xs" "int (length xs) \<le> maxsize" "lru_maxsize lru = maxsize" by blast
  have "lru_rep lru' (filter (\<lambda>e. fst e \<noteq> k) xs) \<and> lru_maxsize lru' = maxsize"
    using remove_refines [OF xs(1), of k] lru_removed(2) xs(3) by auto
  moreover have "int (length (filter (\<lambda>e. fst e \<noteq> k) xs)) \<le> maxsize"
    using xs(2) length_filter_le [of "\<lambda>e. fst e \<noteq> k" xs] by linarith
  ultimately show ?case by blast
qed

text \<open>A memory of ten entries, and a cache of two in it.\<close>

definition sample_malloc :: "nat lru_heap \<Rightarrow> ptr option" where
  "sample_malloc h = find (\<lambda>l. h l = None) [0..<10]"

lemma sample_malloc_fresh: "fresh_malloc sample_malloc"
  by (auto simp: fresh_malloc_def sample_malloc_def find_Some_iff)

subsection \<open>Properties\<close>

text \<open>C14: the cache is a list of entries in order of use. \<open>lru_cache_get\<close> returns the item of the key and
  moves the entry to the front; \<open>lru_cache_put\<close> refuses a key that is there with \<open>EEXIST\<close>, having moved it
  to the front, and otherwise puts the new entry in front, dropping the last one of a full cache;
  \<open>lru_cache_remove\<close> takes the entry out. None of them follows a null or dangling pointer or aborts.
  The size limit has to be positive and the items are not \<open>NULL\<close>.\<close>

theorem lru_cache_refines:
  assumes "lru_rep lru xs" and "fresh_malloc malloc" and "0 < lru_maxsize lru"
  shows "(\<exists>lru'. lru_cache_get lru k = Some (lru', case map_of xs k of None \<Rightarrow> None | Some i \<Rightarrow> i) \<and> lru_rep lru' (touch k xs)) \<and>
    (\<exists>lru'. lru_cache_put malloc lru k (Some v) = Some (lru', if map_of xs k = None then Inr () else Inl EEXIST) \<and>
      lru_rep lru' (put_list (malloc (lru_heap lru) \<noteq> None) (lru_maxsize lru) k v xs)) \<and>
    (\<exists>lru'. lru_cache_remove lru k = Some (lru', map_of xs k \<noteq> None) \<and> lru_rep lru' (filter (\<lambda>e. fst e \<noteq> k) xs))"
  using get_refines [OF assms(1)] put_refines [OF assms] remove_refines [OF assms(1)] by blast

theorem lru_cache_refines_witness:
  "\<exists>lru lru'. lru_cache_put sample_malloc (lru_cache_create 1) [97] (Some 5) = Some (lru, Inr ()) \<and>
     lru_cache_put sample_malloc lru [98] (Some 6) = Some (lru', Inr ()) \<and> lru_rep lru' [([98], Some 6)]"
proof -
  have m: "sample_malloc (lru_heap (lru_cache_create 1)) \<noteq> None"
    by (simp add: sample_malloc_def lru_cache_create_def upt_rec)
  obtain lru where lru: "lru_cache_put sample_malloc (lru_cache_create 1) [97] (Some 5) = Some (lru, Inr ())"
    "lru_rep lru [([97], Some 5)]" "lru_maxsize lru = 1"
    using put_refines [OF lru_rep_create sample_malloc_fresh, of 1 "[97]" 5] m
    by (auto simp: put_list_def insert_new_def lru_cache_create_def)
  have "lru_heap lru 1 = None"
    using lru(1) by (auto simp: lru_cache_put_def lru_cache_get_def lru_cache_create_def lru_entry_enqueue_def lru_entry_create_def
        lru_entry_push_def upd_def sample_malloc_def upt_rec zhash_insert_def Let_def)
  moreover have "1 \<in> set [0..<10 :: nat]" by simp
  ultimately have "sample_malloc (lru_heap lru) \<noteq> None" unfolding sample_malloc_def find_None_iff by blast
  then show ?thesis
    using lru_cache_refines [OF lru(2) sample_malloc_fresh, of "[98]" 6] lru(1,3)
    by (auto simp: put_list_def insert_new_def)
qed

text \<open>C15: a cache never holds more than its maximum of entries and stays consistent. Whatever a client
  does with a cache of positive size, with items that are not \<open>NULL\<close>, whether there is memory or not, the
  self-check succeeds, the size is that of the list of entries, \<open>lru_cache_check\<close> tells which keys are in
  it, and destroying the cache frees every entry exactly once.\<close>

theorem lru_cache_bounded:
  assumes "fresh_malloc malloc" and "0 < maxsize" and "lru_reach malloc maxsize lru"
  shows "\<exists>xs. lru_rep lru xs \<and> distinct (map fst xs) \<and> lru_cache_size lru = int (length xs) \<and> lru_cache_size lru \<le> maxsize \<and>
    lru_cache_selfcheck lru = Some 0 \<and> (\<forall>k. lru_cache_check lru k \<longleftrightarrow> k \<in> fst ` set xs) \<and>
    (\<exists>lru'. lru_cache_destroy lru = Some lru' \<and> lru_heap lru' = Map.empty)"
proof -
  obtain xs where xs: "lru_rep lru xs" "int (length xs) \<le> maxsize" using lru_reach_rep [OF assms] by blast
  then show ?thesis using rep_observers [OF xs(1)] by (auto simp: map_of_eq_None_iff)
qed

theorem lru_cache_bounded_witness:
  "\<exists>lru :: nat lru_cache. lru_cache_put sample_malloc (lru_cache_create 2) [97] (Some 5) = Some (lru, Inr ()) \<and>
     lru_cache_size lru \<le> 2 \<and> lru_cache_selfcheck lru = Some 0"
proof -
  obtain lru where lru: "lru_cache_put sample_malloc (lru_cache_create 2) [97] (Some 5) = Some (lru, Inr ())"
    using put_refines [OF lru_rep_create sample_malloc_fresh, of 2 "[97]" 5] by (auto simp: lru_cache_create_def)
  then show ?thesis
    using lru_cache_bounded [OF sample_malloc_fresh _ lru_put [OF lru_new lru]] by auto
qed

end
