(* ===== verification/Spec2Isabelle.thy ===== *)
theory Spec2Isabelle
  imports Flux_Prelude Kary Proto Aux_List Message Message_Spec Msg_Io Service Overlay Broker Routing
    Veb_Spec Idset_Spec Tagpool Fluid Lru
begin

text \<open>
  A verification library for flux-core: the message layer, the routing of messages through the
  tree of brokers, and the sets of integers underneath them. All source paths are below
  \<^verbatim>\<open>src/\<close>.

  \<^bold>\<open>The program.\<close> A Flux instance is a set of brokers, one per rank, that form a k-ary tree. A
  broker has a socket to its parent, a socket to its children, and comms modules, threads that
  exchange messages with it. A message is a stack of frames: a route stack, a topic, a payload and
  a 20-byte protocol frame that says which of them are there. A request goes to a service of a
  rank, collects its way back on its route stack, and the response unwinds that stack. Sets of
  integers (the tags of outstanding requests, the identifier sets of the command line) are van
  Emde Boas trees packed into a block of bytes.

  \<^bold>\<open>The theories.\<close>
  \<^item> \<open>Flux_Prelude\<close>: the error values, the result type and the bytes, with the lemmas on them.
  \<^item> \<open>Kary\<close>: \<^verbatim>\<open>common/libutil/kary.c\<close>, all functions, on 32-bit words. The lemmas relate them to
    the tree on the natural numbers: parent and child are inverse, the two routing functions give
    the next hop exactly for ancestors and descendants, levels and subtree sizes are right and
    computing them ends, up to the overflow of the \<open>int\<close> they are summed in; all for trees whose child
    numbers stay below \<open>2 ^ 32\<close> (\<open>kary_fits\<close>), and an example that outside of them the number wraps.
  \<^item> \<open>Proto\<close>, \<open>Message\<close>: \<^verbatim>\<open>common/libflux/message.c\<close> in the order of the file. A frame is a list of
    bytes, the message of the C code a record of its frames, its cached JSON value and its auxiliary
    list (\<open>Aux_List\<close>: \<^verbatim>\<open>common/libutil/aux.c\<close>, refined to a finite map).
  \<^item> \<open>Message_Spec\<close>: an abstract message of optional parts, and that each operation of the API
    refines its abstract counterpart on every branch. The invariant that follows (the frames
    represent some abstract message) holds for every message built by the setters, the route, topic
    and payload operations and copies; setting raw flags and decoding foreign bytes can break it. Round
    trips of the routes, of the JSON payload and of the wire encoding, and that the decoder reads only
    the bytes of its buffer as long as it is given no larger a size.
  \<^item> \<open>Msg_Io\<close>: \<open>flux_msg_sendfd\<close> and \<open>flux_msg_recvfd\<close> with their restartable buffers, run against an
    arbitrary schedule of short reads, short writes and \<open>EAGAIN\<close>; a message that was sent arrives. A
    size field near \<open>2 ^ 32\<close> breaks the bound on the size that the decoder is given.
  \<^item> \<open>Service\<close>: \<^verbatim>\<open>broker/service.c\<close>, with the locale \<open>service_directory\<close> for its users, interpreted
    on the switch of the C code.
  \<^item> \<open>Overlay\<close>: the connections of a broker (\<^verbatim>\<open>broker/overlay.c\<close>, \<^verbatim>\<open>broker/module.c\<close>); the messages they
    write are actions, so an operation returns a state, the actions and a result.
  \<^item> \<open>Broker\<close>: the handlers of \<^verbatim>\<open>broker/broker.c\<close> and \<^verbatim>\<open>broker/publisher.c\<close> over these, with
    \<^verbatim>\<open>common/libflux/response.c\<close> and \<^verbatim>\<open>keepalive.c\<close>; an inductive step relation over them, and the
    invariant that no service outlives its module.
  \<^item> \<open>Routing\<close>: the brokers of all ranks as a step relation on a message in flight; a request
    reaches the rank it names, and the response to it returns to its sender. A broker's socket to the
    children delivers only to the brokers whose parent it is.
  \<^item> \<open>Veb\<close>, \<open>Veb_Ops\<close>, \<open>Veb_Spec\<close>: \<^verbatim>\<open>common/libutil/veb.c\<close> with its bit primitives. The tree is the
    bytes of its block, a handle an offset and a size, as in the C code. \<open>vset\<close> is the set that the
    bytes hold and \<open>vinv\<close> their invariant; insertion, deletion, successor and predecessor end,
    update the set, keep the invariant and write nowhere outside the block. The locale
    \<open>id_space\<close> is the interface for the users of the tree, interpreted on it.
  \<^item> \<open>Idset\<close>, \<open>Idset_Spec\<close>: \<^verbatim>\<open>common/libidset\<close> on the tree: sets of identifiers that grow, their text form
    and its parser. The operations have the effect of the set operations, and parsing what was
    printed gives the set back, for identifiers below \<open>2 ^ 31\<close>; two theorems show what happens
    from there on, and at the size of the tree.
  \<^item> \<open>Tagpool\<close>: \<^verbatim>\<open>common/libflux/tagpool.c\<close> on the tree. Along every sequence of allocations and frees no
    tag is handed out twice, if the callback that announces growth leaves the pool alone.
  \<^item> \<open>Fluid\<close>: \<^verbatim>\<open>common/libutil/fluid.c\<close>, the job identifiers. They are unique for clocks that do not go
    back, and their text form is read back as it was written.
  \<^item> \<open>Lru\<close>: \<^verbatim>\<open>common/libutil/lru_cache.c\<close>, the doubly linked list of entries in an explicit heap. The
    operations refine those on a list of entries in order of use, never exceed the maximum size and
    leave nothing allocated behind.

  \<^bold>\<open>Reading the model.\<close> A function that fails with \<open>errno\<close> returns \<open>Inl\<close> of it. A failure of
  \<open>malloc\<close> inside the message layer is not modelled; \<open>Idset\<close>, \<open>Tagpool\<close> and \<open>Lru\<close> have \<open>malloc\<close> as an argument
  that may fail. Undefined behaviour that a function can reach is
  an error value of its own (\<open>OutOfBounds\<close>, \<open>UndefinedShift\<close>, \<open>SignedOverflow\<close>), or \<open>None\<close> in \<open>Lru\<close>. C strings are lists of bytes. Loops that
  are not structural are \<open>function\<close>s with a termination proof, or \<open>partial_function (option)\<close>, where \<open>None\<close>
  means that the code does not return and the theorems show \<open>Some\<close>. The loops of \<open>Msg_Io\<close> consume a
  list of results of \<open>read\<close> and \<open>write\<close>, and \<open>fluid_generate\<close> a list of clock readings, which bounds them.
  The only fuel is that of \<open>kary_sum_descendants\<close>, which recurses over the tree: as many levels as there
  are ranks above \<open>i\<close> are enough, and with them the result is \<open>Some\<close>.

  \<^bold>\<open>Parameters.\<close> The jansson functions, \<open>fnmatch\<close>, the czmq sockets, the credentials of a connection and
  the clock are arguments of the definitions that use them. What a theorem needs of them (that
  \<open>json_loads\<close> reads what \<open>json_dumps\<close> wrote, that a ROUTER socket puts the name of the sender on the
  route stack of what it receives and strips the name of a connected receiver from what it sends) is a hypothesis of that theorem, met by a concrete function in
  its witness.

  \<^bold>\<open>Not modelled.\<close>
  \<^item> The reactor, the futures and everything driven by their callbacks (\<^verbatim>\<open>common/libflux/reactor.c\<close>,
    \<^verbatim>\<open>future.c\<close>, \<^verbatim>\<open>rpc.c\<close>, \<^verbatim>\<open>msg_handler.c\<close>): the order of events comes from libev.
  \<^item> The start of a broker, its attributes and its reporting services (\<^verbatim>\<open>broker/boot_*.c\<close>, \<^verbatim>\<open>attr.c\<close>,
    \<^verbatim>\<open>log.c\<close>, \<^verbatim>\<open>hello.c\<close>): process set-up and output. The results of \<open>module_start\<close> and \<open>module_stop\<close> are
    arguments of loading and unloading a module. Binding and connecting of the zmq sockets, the
    threads of modules and \<open>dlopen\<close>: library calls.
  \<^item> The KVS, its client library and the other modules: they work on jansson values and on
    asynchronous calls to other services.
  \<^item> The command line tools, the language bindings and the libraries bundled in the tree.
\<close>

end
